(* ===== verification/Prelude.thy ===== *)
theory Prelude
  imports Main "HOL-Library.Finite_Map"
begin

text \<open>
  Shared vocabulary of the development: the outcome of a Go call (a value, an error, a
  panic), error values, fixed-width integers, Go maps as finite maps, and the lemma
  collections the component theories extend.

  \<^item> \<open>outcome_simps\<close> unfolds the sequencing of calls that may fail or panic;
  \<^item> \<open>go_simps\<close> collects the evaluation rules of the Go library functions;
  \<^item> \<open>acct_simps\<close> collects the counting rules of the session accounting.
\<close>

named_theorems outcome_simps \<open>sequencing of calls that may fail or panic\<close>
named_theorems go_simps \<open>evaluation of Go library functions\<close>
named_theorems acct_simps \<open>counting rules of the session accounting\<close>

section \<open>Outcomes of Go calls\<close>

text \<open>
  An error value is the message of \<open>errors.New\<close>/\<open>errors.Errorf\<close>, or a message wrapped
  around another error (\<open>errors.Wrap\<close>, \<open>errors.Wrapf\<close> on a non-nil error).
\<close>

datatype gerror = ErrMsg string | ErrWrap string gerror

datatype panic = NilDeref | IndexOutOfRange | DivideByZero

datatype 'a outcome = Ret 'a | Fail gerror | Panic panic

fun and_then :: "'a outcome \<Rightarrow> ('a \<Rightarrow> 'b outcome) \<Rightarrow> 'b outcome" where
  "and_then (Ret x) f = f x"
| "and_then (Fail e) f = Fail e"
| "and_then (Panic k) f = Panic k"

text \<open>\<open>if err != nil { return nil, errors.Wrap(err, msg) }\<close>\<close>

fun wrap_err :: "string \<Rightarrow> 'a outcome \<Rightarrow> 'a outcome" where
  "wrap_err m (Ret x) = Ret x"
| "wrap_err m (Fail e) = Fail (ErrWrap m e)"
| "wrap_err m (Panic k) = Panic k"

fun is_ret :: "'a outcome \<Rightarrow> bool" where
  "is_ret (Ret _) = True"
| "is_ret _ = False"

fun is_panic :: "'a outcome \<Rightarrow> bool" where
  "is_panic (Panic _) = True"
| "is_panic _ = False"

text \<open>A pointer is an option; reading through nil panics.\<close>

definition deref :: "'a option \<Rightarrow> 'a outcome" where
  "deref p = (case p of None \<Rightarrow> Panic NilDeref | Some x \<Rightarrow> Ret x)"

lemma deref_simps [simp, outcome_simps]:
  "deref None = Panic NilDeref" "deref (Some x) = Ret x"
  by (simp_all add: deref_def)

lemma and_then_Ret_iff [outcome_simps]:
  "and_then x f = Ret y \<longleftrightarrow> (\<exists>a. x = Ret a \<and> f a = Ret y)"
  by (cases x) auto

lemma and_then_Panic_iff [outcome_simps]:
  "and_then x f = Panic k \<longleftrightarrow> x = Panic k \<or> (\<exists>a. x = Ret a \<and> f a = Panic k)"
  by (cases x) auto

lemma and_then_Fail_iff [outcome_simps]:
  "and_then x f = Fail e \<longleftrightarrow> x = Fail e \<or> (\<exists>a. x = Ret a \<and> f a = Fail e)"
  by (cases x) auto

lemma wrap_err_Ret_iff [simp, outcome_simps]: "wrap_err m x = Ret y \<longleftrightarrow> x = Ret y"
  by (cases x) auto

lemma wrap_err_Panic_iff [simp, outcome_simps]: "wrap_err m x = Panic k \<longleftrightarrow> x = Panic k"
  by (cases x) auto

lemma is_ret_iff: "is_ret x \<longleftrightarrow> (\<exists>y. x = Ret y)"
  by (cases x) auto

lemma is_panic_iff: "is_panic x \<longleftrightarrow> (\<exists>k. x = Panic k)"
  by (cases x) auto

section \<open>Machine integers\<close>

text \<open>
  Go's \<open>int\<close> and \<open>int64\<close> are 64 bits wide on the platforms the service is built for and
  \<open>atomic.Int32\<close> is 32 bits wide; additions wrap around.
\<close>

definition wrap32 :: "int \<Rightarrow> int" where
  "wrap32 x = (x + 2 ^ 31) mod 2 ^ 32 - 2 ^ 31"

definition wrap64 :: "int \<Rightarrow> int" where
  "wrap64 x = (x + 2 ^ 63) mod 2 ^ 64 - 2 ^ 63"

definition in_int64 :: "int \<Rightarrow> bool" where
  "in_int64 x \<longleftrightarrow> - (2 ^ 63) \<le> x \<and> x < 2 ^ 63"

lemma wrap32_id: "- (2 ^ 31) \<le> x \<Longrightarrow> x < 2 ^ 31 \<Longrightarrow> wrap32 x = x"
  by (simp add: wrap32_def)

lemma wrap64_id: "in_int64 x \<Longrightarrow> wrap64 x = x"
  by (simp add: wrap64_def in_int64_def)

lemma in_int64_wrap64: "in_int64 (wrap64 x)"
  using pos_mod_bound [of "2 ^ 64" "x + 2 ^ 63"] pos_mod_sign [of "2 ^ 64" "x + 2 ^ 63"]
  by (simp add: wrap64_def in_int64_def)

text \<open>Go's integer division truncates towards zero.\<close>

definition quot :: "int \<Rightarrow> int \<Rightarrow> int" where
  "quot a b = (if b = 0 then 0 else sgn a * sgn b * (\<bar>a\<bar> div \<bar>b\<bar>))"

lemma quot_pos: "0 \<le> a \<Longrightarrow> 0 < b \<Longrightarrow> quot a b = a div b"
  by (cases "a = 0") (auto simp: quot_def)

section \<open>Linear search\<close>

lemma find_eq: "find (\<lambda>v. t = v) xs = (if t \<in> set xs then Some t else None)"
  by (induction xs) auto

section \<open>Go maps\<close>

type_synonym ('k, 'v) gomap = "('k, 'v) fmap"

definition map_len :: "('k, 'v) gomap \<Rightarrow> nat" where
  "map_len m = card (fmdom' m)"

lemma map_len_empty [simp]: "map_len fmempty = 0"
  by (simp add: map_len_def)

lemma map_len_upd [simp]:
  "map_len (fmupd k v m) = (if fmlookup m k = None then Suc (map_len m) else map_len m)"
proof (cases "fmlookup m k")
  case None
  then have "k \<notin> fmdom' m" by (rule fmdom'_notI)
  with None show ?thesis by (simp add: map_len_def)
next
  case (Some a)
  then have "k \<in> fmdom' m" by (rule fmdom'I)
  with Some show ?thesis by (simp add: map_len_def insert_absorb)
qed

lemma map_len_drop [simp]:
  "map_len (fmdrop k m) = (if fmlookup m k = None then map_len m else map_len m - 1)"
proof (cases "fmlookup m k")
  case None
  then have "k \<notin> fmdom' m" by (rule fmdom'_notI)
  with None show ?thesis by (simp add: map_len_def)
next
  case (Some a)
  then have "k \<in> fmdom' m" by (rule fmdom'I)
  with Some show ?thesis by (simp add: map_len_def)
qed

lemma map_len_pos: "fmlookup m k = Some v \<Longrightarrow> 0 < map_len m"
  by (auto simp: map_len_def card_gt_0_iff dest: fmdom'I)

lemma map_len_filter_le: "map_len (fmfilter P m) \<le> map_len m"
  unfolding map_len_def by (rule card_mono) auto

end
