(* ===== verification/Go_Strings.thy ===== *)
theory Go_Strings
  imports Prelude
begin

text \<open>
  The functions of Go's \<open>strings\<close>, \<open>strconv\<close> and \<open>path/filepath\<close> packages that the
  program calls, on byte strings. Case mapping and white space are those of the ASCII
  range; bytes above 127 are left alone.
\<close>

section \<open>Package strings\<close>

definition has_prefix :: "string \<Rightarrow> string \<Rightarrow> bool" where
  "has_prefix s p \<longleftrightarrow> take (length p) s = p"

definition has_suffix :: "string \<Rightarrow> string \<Rightarrow> bool" where
  "has_suffix s p \<longleftrightarrow> length p \<le> length s \<and> drop (length s - length p) s = p"

definition trim_prefix :: "string \<Rightarrow> string \<Rightarrow> string" where
  "trim_prefix s p = (if has_prefix s p then drop (length p) s else s)"

text \<open>\<open>strings.IndexByte\<close> and \<open>strings.LastIndex\<close> for a one-byte pattern; \<open>-1\<close> is \<open>None\<close>.\<close>

fun index_byte :: "char \<Rightarrow> string \<Rightarrow> nat option" where
  "index_byte c [] = None"
| "index_byte c (x # xs) = (if x = c then Some 0 else map_option Suc (index_byte c xs))"

fun last_index :: "char \<Rightarrow> string \<Rightarrow> nat option" where
  "last_index c [] = None"
| "last_index c (x # xs) =
     (case last_index c xs of
        Some i \<Rightarrow> Some (Suc i)
      | None \<Rightarrow> if x = c then Some 0 else None)"

text \<open>\<open>strings.Index\<close> and \<open>strings.Contains\<close>.\<close>

fun index_sub :: "string \<Rightarrow> string \<Rightarrow> nat option" where
  "index_sub p [] = (if p = [] then Some 0 else None)"
| "index_sub p (x # xs) =
     (if has_prefix (x # xs) p then Some 0 else map_option Suc (index_sub p xs))"

definition contains :: "string \<Rightarrow> string \<Rightarrow> bool" where
  "contains s p \<longleftrightarrow> index_sub p s \<noteq> None"

text \<open>\<open>strings.SplitN(s, c, 2)\<close> and \<open>strings.Split(s, c)\<close>.\<close>

definition split2 :: "char \<Rightarrow> string \<Rightarrow> string list" where
  "split2 c s = (case index_byte c s of None \<Rightarrow> [s] | Some i \<Rightarrow> [take i s, drop (Suc i) s])"

fun split_all :: "char \<Rightarrow> string \<Rightarrow> string list" where
  "split_all c [] = [[]]"
| "split_all c (x # xs) =
     (if x = c then [] # split_all c xs
      else case split_all c xs of [] \<Rightarrow> [[x]] | y # ys \<Rightarrow> (x # y) # ys)"

fun join_with :: "char \<Rightarrow> string list \<Rightarrow> string" where
  "join_with c [] = []"
| "join_with c [x] = x"
| "join_with c (x # y # ys) = x @ c # join_with c (y # ys)"

abbreviation code_of :: "char \<Rightarrow> nat" where
  "code_of c \<equiv> of_char c"

definition is_space :: "char \<Rightarrow> bool" where
  "is_space c \<longleftrightarrow> code_of c \<in> {9, 10, 11, 12, 13, 32}"

definition trim_space :: "string \<Rightarrow> string" where
  "trim_space s = rev (dropWhile is_space (rev (dropWhile is_space s)))"

definition lower_char :: "char \<Rightarrow> char" where
  "lower_char c = (if 65 \<le> code_of c \<and> code_of c \<le> 90 then char_of (code_of c + 32) else c)"

definition upper_char :: "char \<Rightarrow> char" where
  "upper_char c = (if 97 \<le> code_of c \<and> code_of c \<le> 122 then char_of (code_of c - 32) else c)"

definition to_lower :: "string \<Rightarrow> string" where
  "to_lower s = map lower_char s"

definition to_upper :: "string \<Rightarrow> string" where
  "to_upper s = map upper_char s"

definition replace_byte :: "char \<Rightarrow> char \<Rightarrow> string \<Rightarrow> string" where
  "replace_byte a b s = map (\<lambda>c. if c = a then b else c) s"

subsection \<open>Lemmas\<close>

lemma has_prefix_iff: "has_prefix s p \<longleftrightarrow> (\<exists>r. s = p @ r)"
proof
  assume "has_prefix s p"
  then have "s = p @ drop (length p) s"
    unfolding has_prefix_def by (metis append_take_drop_id)
  then show "\<exists>r. s = p @ r" ..
qed (auto simp: has_prefix_def)

lemma has_prefix_append [simp]: "has_prefix (p @ r) p"
  by (simp add: has_prefix_def)

lemma trim_prefix_append [simp]: "trim_prefix (p @ r) p = r"
  by (simp add: trim_prefix_def)

lemma index_byte_None: "index_byte c s = None \<longleftrightarrow> c \<notin> set s"
  by (induction s) auto

lemma index_byte_Some:
  "index_byte c s = Some i \<Longrightarrow> i < length s \<and> s ! i = c \<and> c \<notin> set (take i s)"
proof (induction s arbitrary: i)
  case (Cons x xs)
  then show ?case by (cases i) (auto split: if_splits)
qed simp

lemma index_byte_append:
  "c \<notin> set p \<Longrightarrow> index_byte c (p @ c # r) = Some (length p)"
  by (induction p) auto

lemma last_index_None: "last_index c s = None \<longleftrightarrow> c \<notin> set s"
  by (induction s) (auto split: option.splits)

lemma last_index_Some:
  "last_index c s = Some i \<Longrightarrow> i < length s \<and> s ! i = c \<and> c \<notin> set (drop (Suc i) s)"
proof (induction s arbitrary: i)
  case (Cons x xs)
  then show ?case
    by (cases "last_index c xs") (auto split: if_splits simp: last_index_None)
qed simp

lemma last_index_append:
  "c \<notin> set r \<Longrightarrow> last_index c (p @ c # r) = Some (length p)"
proof (induction p)
  case Nil
  then have "last_index c r = None" by (simp add: last_index_None)
  then show ?case by simp
next
  case (Cons x p)
  then show ?case by simp
qed

lemma last_index_take_None:
  "last_index c (take n s) = None \<Longrightarrow> j < n \<Longrightarrow> j < length s \<Longrightarrow> s ! j \<noteq> c"
  by (auto simp: last_index_None in_set_conv_nth)

lemma last_index_take_Some:
  assumes "last_index c (take n s) = Some i"
  shows "i < n" "i < length s" "s ! i = c"
    and "i < j \<Longrightarrow> j < n \<Longrightarrow> j < length s \<Longrightarrow> s ! j \<noteq> c"
proof -
  from last_index_Some [OF assms]
  show i: "i < n" "i < length s" "s ! i = c" by auto
  assume j: "i < j" "j < n" "j < length s"
  have "drop (Suc i) (take n s) ! (j - Suc i) = s ! j" using j i by simp
  moreover have "j - Suc i < length (drop (Suc i) (take n s))" using j by simp
  ultimately have "s ! j \<in> set (drop (Suc i) (take n s))"
    by (metis nth_mem)
  with last_index_Some [OF assms] show "s ! j \<noteq> c" by auto
qed

lemma split2_no_sep: "c \<notin> set s \<Longrightarrow> split2 c s = [s]"
  by (simp add: split2_def flip: index_byte_None)

lemma split2_sep: "c \<notin> set p \<Longrightarrow> split2 c (p @ c # r) = [p, r]"
  by (simp add: split2_def index_byte_append)

lemma split2_cases:
  obtains (one) "c \<notin> set s" "split2 c s = [s]"
  | (two) p r where "s = p @ c # r" "c \<notin> set p" "split2 c s = [p, r]"
proof (cases "index_byte c s")
  case None
  then show ?thesis using one [OF index_byte_None [THEN iffD1]] by (simp add: split2_def)
next
  case (Some i)
  from index_byte_Some [OF Some]
  have "s = take i s @ c # drop (Suc i) s" "c \<notin> set (take i s)"
    by (metis id_take_nth_drop, simp)
  with Some show ?thesis using two by (simp add: split2_def)
qed

lemma split2_nonempty [simp]: "split2 c s \<noteq> []"
  by (simp add: split2_def split: option.splits)

lemma split_all_nonempty [simp]: "split_all c s \<noteq> []"
  by (induction s) (auto split: list.splits)

lemma join_split [simp]: "join_with c (split_all c s) = s"
proof (induction s)
  case (Cons x xs)
  then show ?case
    by (cases "split_all c xs"; cases "tl (split_all c xs)") auto
qed simp

lemma split_all_no_sep: "p \<in> set (split_all c s) \<Longrightarrow> c \<notin> set p"
  by (induction s arbitrary: p) (auto split: if_splits list.splits)

lemma split_all_append_sep:
  "c \<notin> set p \<Longrightarrow> split_all c (p @ c # r) = p # split_all c r"
  by (induction p) auto

lemma split_all_plain: "c \<notin> set p \<Longrightarrow> split_all c p = [p]"
  by (induction p) auto

lemma split_join:
  "xs \<noteq> [] \<Longrightarrow> \<forall>x \<in> set xs. c \<notin> set x \<Longrightarrow> split_all c (join_with c xs) = xs"
  by (induction c xs rule: join_with.induct) (auto simp: split_all_plain split_all_append_sep)

section \<open>Package strconv\<close>

definition digit_val :: "char \<Rightarrow> nat option" where
  "digit_val c =
     (let n = code_of c in
      if 48 \<le> n \<and> n \<le> 57 then Some (n - 48)
      else if 97 \<le> n \<and> n \<le> 122 then Some (n - 97 + 10)
      else if 65 \<le> n \<and> n \<le> 90 then Some (n - 65 + 10)
      else None)"

fun digits_val :: "nat \<Rightarrow> string \<Rightarrow> nat \<Rightarrow> nat option" where
  "digits_val b [] acc = Some acc"
| "digits_val b (c # cs) acc =
     (case digit_val c of
        None \<Rightarrow> None
      | Some d \<Rightarrow> if d < b then digits_val b cs (acc * b + d) else None)"

text \<open>
  \<open>strconv.ParseInt(s, b, 64)\<close> for a base between 2 and 36; a syntax or a range error is
  \<open>None\<close>. \<open>strconv.Atoi\<close> is the case of base 10.
\<close>

definition parse_int :: "nat \<Rightarrow> string \<Rightarrow> int option" where
  "parse_int b s =
     (case s of
        [] \<Rightarrow> None
      | c # cs \<Rightarrow>
          (let neg = (c = CHR ''-'');
               ds = (if c = CHR ''-'' \<or> c = CHR ''+'' then cs else s)
           in if ds = [] then None
              else case digits_val b ds 0 of
                     None \<Rightarrow> None
                   | Some n \<Rightarrow>
                       if neg then (if int n \<le> 2 ^ 63 then Some (- int n) else None)
                       else (if int n < 2 ^ 63 then Some (int n) else None)))"

text \<open>\<open>%d\<close> of a non-negative integer.\<close>

definition digit_char :: "nat \<Rightarrow> char" where
  "digit_char d = char_of (48 + d)"

fun show_nat :: "nat \<Rightarrow> string" where
  "show_nat n = (if n < 10 then [digit_char n] else show_nat (n div 10) @ [digit_char (n mod 10)])"

declare show_nat.simps [simp del]

definition show_int :: "int \<Rightarrow> string" where
  "show_int i = (if i < 0 then CHR ''-'' # show_nat (nat (- i)) else show_nat (nat i))"

subsection \<open>Lemmas\<close>

lemma code_of_digit_char [simp]: "d < 10 \<Longrightarrow> code_of (digit_char d) = 48 + d"
  by (simp add: digit_char_def)

lemma digit_val_digit_char [simp]: "d < 10 \<Longrightarrow> digit_val (digit_char d) = Some d"
  by (simp add: digit_val_def)

lemma digits_val_append:
  "digits_val b (xs @ ys) acc =
     (case digits_val b xs acc of None \<Rightarrow> None | Some n \<Rightarrow> digits_val b ys n)"
  by (induction xs arbitrary: acc) (auto split: option.splits)

lemma digits_val_show_nat: "digits_val 10 (show_nat n) 0 = Some n"
proof (induction n rule: show_nat.induct)
  case (1 n)
  show ?case
  proof (cases "n < 10")
    case True
    then show ?thesis by (simp add: show_nat.simps [of n])
  next
    case False
    with "1.IH" have "digits_val 10 (show_nat (n div 10)) 0 = Some (n div 10)" by simp
    with False show ?thesis
      by (simp add: show_nat.simps [of n] digits_val_append)
  qed
qed

lemma show_nat_digits: "c \<in> set (show_nat n) \<Longrightarrow> 48 \<le> code_of c \<and> code_of c \<le> 57"
proof (induction n rule: show_nat.induct)
  case (1 n)
  show ?case
  proof (cases "n < 10")
    case True
    with "1.prems" show ?thesis by (simp add: show_nat.simps [of n])
  next
    case False
    with "1.prems" consider "c \<in> set (show_nat (n div 10))" | "c = digit_char (n mod 10)"
      by (auto simp: show_nat.simps [of n])
    then show ?thesis
    proof cases
      case 1
      with "1.IH" False show ?thesis by simp
    qed simp
  qed
qed

lemma show_nat_nonempty [simp]: "show_nat n \<noteq> []"
  by (subst show_nat.simps) simp

lemma show_nat_no_char:
  "code_of c < 48 \<or> 57 < code_of c \<Longrightarrow> c \<notin> set (show_nat n)"
  by (auto dest: show_nat_digits)

lemma parse_int_show_nat:
  assumes "n < 2 ^ 63"
  shows "parse_int 10 (show_nat n) = Some (int n)"
proof -
  obtain c cs where s: "show_nat n = c # cs"
    by (cases "show_nat n") auto
  then have "c \<in> set (show_nat n)" by simp
  then have "c \<noteq> CHR ''-''" "c \<noteq> CHR ''+''"
    using show_nat_no_char [of "CHR ''-''" n] show_nat_no_char [of "CHR ''+''" n] by auto
  with s assms digits_val_show_nat [of n] show ?thesis
    by (simp add: parse_int_def)
qed

lemma digits_val_hex_bound:
  "digits_val b s acc = Some n \<Longrightarrow> n < (acc + 1) * b ^ length s"
proof (induction s arbitrary: acc)
  case (Cons c s)
  then obtain d where d: "digit_val c = Some d" "d < b" "digits_val b s (acc * b + d) = Some n"
    by (auto split: option.splits if_splits)
  have "n < (acc * b + d + 1) * b ^ length s" using Cons.IH [OF d(3)] .
  also have "\<dots> \<le> ((acc + 1) * b) * b ^ length s"
    using d(2) by (intro mult_right_mono) (auto simp: algebra_simps)
  finally show ?case by (simp add: algebra_simps)
qed simp

lemma parse_int_in_int64: "parse_int b s = Some i \<Longrightarrow> in_int64 i"
  by (auto simp: parse_int_def in_int64_def Let_def split: list.splits option.splits if_splits)

end
