(* ===== verification/K8s.thy ===== *)
theory K8s
  imports Go_Strings "HOL-Library.List_Lexorder" "HOL-Library.Char_ord" "HOL-Library.Multiset"
begin

text \<open>
  The Kubernetes package (\<open>services/k8s\<close>): the memoised client (\<open>client.go\<close>), the ready
  nodes with their role labels (\<open>nodes_stat.go\<close>) and the endpoints of a service
  (\<open>endpoints.go\<close>). The cluster API, the kubeconfig loaders and the \<open>lazymap\<close> package are
  arguments of the definitions that call them. A lazy map is a function that takes the key
  and the loader and runs in the same world as the loader, here the client.
\<close>

type_synonym ('v, 'w) lazymap = "string \<Rightarrow> ('w \<Rightarrow> 'v outcome \<times> 'w) \<Rightarrow> 'w \<Rightarrow> 'v outcome \<times> 'w"

section \<open>The client\<close>

text \<open>\<open>cl\<close> and \<open>err\<close> are set together by one call of \<open>get\<close>.\<close>

record 'cs Client =
  c_result :: "'cs outcome"
  c_inited :: bool

text \<open>
  What \<open>get\<close> calls: the test for the local kubeconfig, the two loaders of a configuration,
  and \<open>kubernetes.NewForConfig\<close> on the configuration with the burst and the rate set.
\<close>

record ('cfg, 'cs) KubeLib =
  k_home :: string
  k_stat :: "string \<Rightarrow> bool"
  k_BuildConfigFromFlags :: "string \<Rightarrow> 'cfg outcome"
  k_InClusterConfig :: "'cfg outcome"
  k_limits :: "int \<Rightarrow> int \<Rightarrow> 'cfg \<Rightarrow> 'cfg"
  k_NewForConfig :: "'cfg \<Rightarrow> 'cs outcome"

definition kubeconfig :: "string \<Rightarrow> string" where
  "kubeconfig home = (if home = [] then ''.kube/config'' else home @ ''/.kube/config'')"

definition client_get :: "('cfg, 'cs) KubeLib \<Rightarrow> 'cs outcome" where
  "client_get lib =
     and_then
       (wrap_err ''failed to make config''
          (if k_stat lib (kubeconfig (k_home lib))
           then k_BuildConfigFromFlags lib (kubeconfig (k_home lib)) else k_InClusterConfig lib))
       (\<lambda>config. k_NewForConfig lib (k_limits lib 100 (- 1) config))"

definition Client_Get :: "('cfg, 'cs) KubeLib \<Rightarrow> 'cs Client \<Rightarrow> 'cs outcome \<times> 'cs Client" where
  "Client_Get lib c =
     (if c_inited c then (c_result c, c)
      else let r = client_get lib in (r, c\<lparr>c_result := r, c_inited := True\<rparr>))"

section \<open>Nodes\<close>

record NodeStat =
  ns_Name :: string
  ns_RolesAllowed :: "string list"
  ns_RolesDenied :: "string list"

fun denied_loop :: "string \<Rightarrow> string list \<Rightarrow> bool \<Rightarrow> bool" where
  "denied_loop role [] allow = allow"
| "denied_loop role (r # rs) allow = denied_loop role rs (if role = r then False else allow)"

definition IsAllowed :: "NodeStat \<Rightarrow> string \<Rightarrow> bool" where
  "IsAllowed s role =
     (if 0 < length (ns_RolesAllowed s) then find (\<lambda>r. role = r) (ns_RolesAllowed s) \<noteq> None
      else if 0 < length (ns_RolesDenied s) then denied_loop role (ns_RolesDenied s) True
      else True)"

text \<open>What the code reads of a node: its name, labels and conditions (type and status).\<close>

record Node =
  n_Name :: string
  n_Labels :: "(string, string) gomap"
  n_Conditions :: "(string \<times> string) list"

definition ConditionTrue :: string where "ConditionTrue = ''True''"
definition NodeReady :: string where "NodeReady = ''Ready''"

fun ready_loop :: "(string \<times> string) list \<Rightarrow> bool \<Rightarrow> bool" where
  "ready_loop [] ready = ready"
| "ready_loop ((ty, status) # cs) ready =
     ready_loop cs (if status = ConditionTrue \<and> ty = NodeReady then True else ready)"

definition getLabelList :: "string \<Rightarrow> Node \<Rightarrow> string \<Rightarrow> string list" where
  "getLabelList labelPrefix n name =
     (case fmlookup (n_Labels n) (labelPrefix @ name) of
        Some v \<Rightarrow> map trim_space (split_all (CHR '','') v)
      | None \<Rightarrow> [])"

fun nodes_loop :: "string \<Rightarrow> Node list \<Rightarrow> NodeStat list \<Rightarrow> NodeStat list" where
  "nodes_loop pre [] res = res"
| "nodes_loop pre (n # ns) res =
     (if \<not> ready_loop (n_Conditions n) False then nodes_loop pre ns res
      else nodes_loop pre ns
        (res @ [\<lparr>ns_Name = n_Name n, ns_RolesAllowed = getLabelList pre n ''roles-allowed'',
                 ns_RolesDenied = getLabelList pre n ''roles-denied''\<rparr>]))"

text \<open>The loader passed to the lazy map.\<close>

definition nodes_load ::
  "('cfg, 'cs) KubeLib \<Rightarrow> ('cs \<Rightarrow> Node list outcome) \<Rightarrow> string \<Rightarrow> 'cs Client \<Rightarrow>
   NodeStat list outcome \<times> 'cs Client" where
  "nodes_load lib list_nodes pre c =
     (let (r, c') = Client_Get lib c in
      (and_then (wrap_err ''failed to get k8s client'' r) (\<lambda>cl.
       and_then (wrap_err ''failed to get k8s nodes'' (list_nodes cl)) (\<lambda>items.
         Ret (sort_key ns_Name (nodes_loop pre items [])))), c'))"

definition NodesStat_Get ::
  "(NodeStat list, 'cs Client) lazymap \<Rightarrow> ('cfg, 'cs) KubeLib \<Rightarrow> ('cs \<Rightarrow> Node list outcome) \<Rightarrow>
   string \<Rightarrow> 'cs Client \<Rightarrow> NodeStat list outcome \<times> 'cs Client" where
  "NodesStat_Get lazy lib list_nodes pre = lazy [] (nodes_load lib list_nodes pre)"

section \<open>Endpoints\<close>

record EndpointAddress =
  a_IP :: string
  a_NodeName :: "string option"

record EndpointPort =
  p_Name :: string
  p_Port :: int

record EndpointSubset =
  es_Addresses :: "EndpointAddress list"
  es_Ports :: "EndpointPort list"

type_synonym Endpoints = "EndpointSubset list"

definition endpoints_load ::
  "('cfg, 'cs) KubeLib \<Rightarrow> ('cs \<Rightarrow> string \<Rightarrow> string \<Rightarrow> Endpoints outcome) \<Rightarrow> string \<Rightarrow> string \<Rightarrow>
   'cs Client \<Rightarrow> Endpoints outcome \<times> 'cs Client" where
  "endpoints_load lib get_endpoints namespace name c =
     (let (r, c') = Client_Get lib c in
      (and_then (wrap_err ''failed to get k8s client'' r) (\<lambda>cl.
         wrap_err (''failed to get k8s endpoints for '' @ name) (get_endpoints cl namespace name)), c'))"

definition Endpoints_Get ::
  "(Endpoints, 'cs Client) lazymap \<Rightarrow> ('cfg, 'cs) KubeLib \<Rightarrow>
   ('cs \<Rightarrow> string \<Rightarrow> string \<Rightarrow> Endpoints outcome) \<Rightarrow> string \<Rightarrow> string \<Rightarrow>
   'cs Client \<Rightarrow> Endpoints outcome \<times> 'cs Client" where
  "Endpoints_Get lazy lib get_endpoints namespace name =
     lazy name (endpoints_load lib get_endpoints namespace name)"

section \<open>Properties\<close>

lemma denied_loop_eq: "denied_loop role rs allow \<longleftrightarrow> allow \<and> role \<notin> set rs"
  by (induction rs arbitrary: allow) auto

lemma ready_loop_eq: "ready_loop cs ready \<longleftrightarrow> ready \<or> (NodeReady, ConditionTrue) \<in> set cs"
proof (induction cs arbitrary: ready)
  case (Cons c cs)
  then show ?case by (cases c) auto
qed simp

definition node_stat :: "string \<Rightarrow> Node \<Rightarrow> NodeStat" where
  "node_stat pre n =
     \<lparr>ns_Name = n_Name n, ns_RolesAllowed = getLabelList pre n ''roles-allowed'',
      ns_RolesDenied = getLabelList pre n ''roles-denied''\<rparr>"

definition is_ready :: "Node \<Rightarrow> bool" where
  "is_ready n \<longleftrightarrow> (NodeReady, ConditionTrue) \<in> set (n_Conditions n)"

lemma nodes_loop_eq: "nodes_loop pre ns res = res @ map (node_stat pre) (filter is_ready ns)"
  by (induction ns arbitrary: res) (auto simp: ready_loop_eq node_stat_def is_ready_def)

text \<open>The rule of the role labels: a non-empty list of allowed roles decides alone (the
  list of denied roles is then not read), otherwise a role is admitted unless it is denied.\<close>

theorem IsAllowed_iff:
  "IsAllowed s role \<longleftrightarrow>
     (if ns_RolesAllowed s \<noteq> [] then role \<in> set (ns_RolesAllowed s) else role \<notin> set (ns_RolesDenied s))"
  by (simp add: IsAllowed_def denied_loop_eq find_None_iff)

text \<open>The Kubernetes client is created once: after the first call every call returns the
  result of that one, an error included, whatever the environment is by then.\<close>

theorem Client_Get_once:
  "Client_Get lib' (snd (Client_Get lib c)) = (fst (Client_Get lib c), snd (Client_Get lib c))"
  by (simp add: Client_Get_def Let_def)

text \<open>What loading the nodes returns: the ready nodes of the cluster and no other, in the
  order of their names, each with the role lists of its labels.\<close>

theorem nodes_load_ready_sorted:
  assumes "fst (nodes_load lib list_nodes pre c) = Ret ns"
  shows "\<exists>cl items. fst (Client_Get lib c) = Ret cl \<and> list_nodes cl = Ret items \<and>
     mset ns = image_mset (node_stat pre) (filter_mset is_ready (mset items)) \<and>
     sorted (map ns_Name ns)"
proof -
  obtain cl items where "fst (Client_Get lib c) = Ret cl" "list_nodes cl = Ret items"
      "ns = sort_key ns_Name (map (node_stat pre) (filter is_ready items))"
    using assms by (auto simp: nodes_load_def case_prod_beta Let_def outcome_simps nodes_loop_eq)
  then show ?thesis by simp
qed

definition sample_lib :: "(unit, unit) KubeLib" where
  "sample_lib = \<lparr>k_home = ''/root'', k_stat = (\<lambda>_. False), k_BuildConfigFromFlags = (\<lambda>_. Fail (ErrMsg ''no file'')),
     k_InClusterConfig = Ret (), k_limits = (\<lambda>_ _ c. c), k_NewForConfig = (\<lambda>_. Ret ())\<rparr>"

definition sample_nodes :: "Node list" where
  "sample_nodes =
     [\<lparr>n_Name = ''n2'', n_Labels = fmempty, n_Conditions = [(''Ready'', ''True'')]\<rparr>,
      \<lparr>n_Name = ''n3'', n_Labels = fmempty, n_Conditions = [(''Ready'', ''False'')]\<rparr>,
      \<lparr>n_Name = ''n1'', n_Labels = fmupd ''webtor.io/roles-denied'' ''free, trial'' fmempty,
       n_Conditions = [(''DiskPressure'', ''False''), (''Ready'', ''True'')]\<rparr>]"

definition new_client :: "unit Client" where
  "new_client = \<lparr>c_result = Fail (ErrMsg []), c_inited = False\<rparr>"

theorem nodes_load_ready_sorted_witness:
  "\<exists>cl items. fst (Client_Get sample_lib new_client) = Ret cl \<and> Ret sample_nodes = Ret items \<and>
     mset [\<lparr>ns_Name = ''n1'', ns_RolesAllowed = [], ns_RolesDenied = [''free'', ''trial'']\<rparr>,
           \<lparr>ns_Name = ''n2'', ns_RolesAllowed = [], ns_RolesDenied = []\<rparr>] =
       image_mset (node_stat ''webtor.io/'') (filter_mset is_ready (mset items)) \<and>
     sorted (map ns_Name [\<lparr>ns_Name = ''n1'', ns_RolesAllowed = [], ns_RolesDenied = [''free'', ''trial'']\<rparr>,
           \<lparr>ns_Name = ''n2'', ns_RolesAllowed = [], ns_RolesDenied = []\<rparr>])"
proof -
  have "fst (nodes_load sample_lib (\<lambda>_. Ret sample_nodes) ''webtor.io/'' new_client) =
      Ret [\<lparr>ns_Name = ''n1'', ns_RolesAllowed = [], ns_RolesDenied = [''free'', ''trial'']\<rparr>,
           \<lparr>ns_Name = ''n2'', ns_RolesAllowed = [], ns_RolesDenied = []\<rparr>]"
    by code_simp
  from nodes_load_ready_sorted [OF this] show ?thesis .
qed

end
