(* ===== verification/Services_Config.thy ===== *)
theory Services_Config
  imports Go_Strings
begin

text \<open>
  The services configuration (\<open>services/services_config.go\<close>): a Go map from a
  modification name to a pointer to its \<open>ServiceConfig\<close>. The order in which \<open>range\<close>
  visits the keys of a Go map is not specified, so every operation that ranges over the
  map takes the visited keys as an argument, and \<open>is_range\<close> says that they enumerate
  the map.
\<close>

type_synonym Distribution = string
type_synonym EndpointsProvider = string

definition Hash :: Distribution where "Hash = ''Hash''"
definition NodeHash :: Distribution where "NodeHash = ''NodeHash''"
definition Kubernetes :: EndpointsProvider where "Kubernetes = ''Kubernetes''"
definition Environment :: EndpointsProvider where "Environment = ''Environment''"

record ServiceConfig =
  sc_Name :: string
  sc_Distribution :: Distribution
  sc_EndpointsProvider :: EndpointsProvider
  sc_PreferLocalNode :: bool
  sc_Headers :: "(string, string) gomap"

text \<open>The pointer stored under a key may be nil (a YAML key with no value).\<close>

type_synonym ServicesConfig = "(string, ServiceConfig option) gomap"

definition is_range :: "('k, 'v) gomap \<Rightarrow> 'k list \<Rightarrow> bool" where
  "is_range m ks \<longleftrightarrow> distinct ks \<and> set ks = fmdom' m"

definition GetMods :: "string list \<Rightarrow> string list" where
  "GetMods ks = filter (\<lambda>k. k \<noteq> ''default'') ks"

definition GetMod :: "ServicesConfig \<Rightarrow> string \<Rightarrow> ServiceConfig option" where
  "GetMod s name = (case fmlookup s name of None \<Rightarrow> None | Some p \<Rightarrow> p)"

fun GetDefault :: "ServicesConfig \<Rightarrow> string list \<Rightarrow> ServiceConfig option" where
  "GetDefault s [] = None"
| "GetDefault s (k # ks) = (if k = ''default'' then GetMod s k else GetDefault s ks)"

section \<open>Loading\<close>

definition with_defaults :: "ServiceConfig \<Rightarrow> ServiceConfig" where
  "with_defaults cfg =
     (let cfg1 = (if sc_Distribution cfg = [] then cfg\<lparr>sc_Distribution := Hash\<rparr> else cfg)
      in if sc_EndpointsProvider cfg1 = [] then cfg1\<lparr>sc_EndpointsProvider := Kubernetes\<rparr> else cfg1)"

text \<open>The loop over \<open>*s\<close> writes through each pointer; a nil pointer panics.\<close>

fun default_loop :: "ServicesConfig \<Rightarrow> string list \<Rightarrow> ServicesConfig outcome" where
  "default_loop s [] = Ret s"
| "default_loop s (k # ks) =
     and_then (deref (GetMod s k))
       (\<lambda>cfg. default_loop (fmupd k (Some (with_defaults cfg)) s) ks)"

text \<open>
  \<open>os.ReadFile\<close> and \<open>yaml.Unmarshal\<close> are the arguments \<open>read_file\<close> and \<open>unmarshal\<close>;
  \<open>order\<close> is the order in which the loop visits the map.
\<close>

definition LoadServicesConfigFromYAML ::
  "string \<Rightarrow> (string \<Rightarrow> string outcome) \<Rightarrow> (string \<Rightarrow> ServicesConfig outcome) \<Rightarrow>
   (ServicesConfig \<Rightarrow> string list) \<Rightarrow> ServicesConfig outcome" where
  "LoadServicesConfigFromYAML filename read_file unmarshal order =
     (if filename = [] then Fail (ErrMsg ''no config file provided'')
      else and_then (read_file filename) (\<lambda>data.
           and_then (unmarshal data) (\<lambda>s. default_loop s (order s))))"

section \<open>The interface the URL parser and the resolver rely on\<close>

text \<open>
  A directory of modifications: the names a request may use and the configuration behind
  a name. Every listed name is configured, and \<open>default\<close> is never listed.
\<close>

locale mod_directory =
  fixes mods :: "'d \<Rightarrow> string list"
    and cfg_of :: "'d \<Rightarrow> string \<Rightarrow> ServiceConfig option"
    and invar :: "'d \<Rightarrow> bool"
  assumes mods_configured: "invar d \<Longrightarrow> v \<in> set (mods d) \<Longrightarrow> cfg_of d v \<noteq> None"
    and no_default: "''default'' \<notin> set (mods d)"
begin

lemma lookup_mod:
  assumes "invar d" "find (\<lambda>v. t = v) (mods d) = Some v"
  shows "v = t \<and> t \<noteq> ''default'' \<and> (\<exists>c. cfg_of d t = Some c)"
proof -
  from assms(2) have "v = t" "t \<in> set (mods d)"
    by (auto simp: find_Some_iff)
  with mods_configured [OF assms(1)] no_default show ?thesis by auto
qed

end

definition no_nil :: "ServicesConfig \<Rightarrow> bool" where
  "no_nil s \<longleftrightarrow> None |\<notin>| fmran s"

lemma no_nilD: "no_nil s \<Longrightarrow> fmlookup s k = Some p \<Longrightarrow> p \<noteq> None"
  by (cases p) (auto simp: no_nil_def fmlookup_ran_iff)

lemma GetMods_set: "set (GetMods ks) = set ks - {''default''}"
  by (auto simp: GetMods_def)

lemma GetMod_range: "is_range s ks \<Longrightarrow> no_nil s \<Longrightarrow> v \<in> set ks \<Longrightarrow> GetMod s v \<noteq> None"
  by (auto simp: is_range_def GetMod_def fmlookup_dom'_iff dest: no_nilD split: option.splits)

interpretation sc: mod_directory
  "\<lambda>(s, ks). GetMods ks" "\<lambda>(s, ks). GetMod s" "\<lambda>(s, ks). is_range s ks \<and> no_nil s"
proof
  show "(case d of (s, ks) \<Rightarrow> GetMod s) v \<noteq> None"
    if "case d of (s, ks) \<Rightarrow> is_range s ks \<and> no_nil s" "v \<in> set (case d of (s, ks) \<Rightarrow> GetMods ks)"
    for d v
    using that by (cases d) (auto simp: GetMods_set dest: GetMod_range)
  show "''default'' \<notin> set (case d of (s, ks) \<Rightarrow> GetMods ks)"
    for d :: "ServicesConfig \<times> string list"
    by (cases d) (simp add: GetMods_set)
qed

lemmas find_mod = sc.lookup_mod [where d = "(s, ks)" for s ks, simplified]

lemma GetDefault_eq: "is_range s ks \<Longrightarrow> GetDefault s ks = GetMod s ''default''"
proof -
  have *: "GetDefault s ks = (if ''default'' \<in> set ks then GetMod s ''default'' else None)" for ks
    by (induction ks) (auto simp: GetMod_def)
  show "is_range s ks \<Longrightarrow> GetDefault s ks = GetMod s ''default''"
    by (auto simp: * is_range_def GetMod_def fmdom'_notD split: option.splits)
qed

section \<open>What loading establishes\<close>

lemma with_defaults_set:
  "sc_Distribution (with_defaults c) \<noteq> []" "sc_EndpointsProvider (with_defaults c) \<noteq> []"
  by (simp_all add: with_defaults_def Let_def Hash_def Kubernetes_def)

lemma with_defaults_keeps:
  "sc_Name (with_defaults c) = sc_Name c"
  "sc_PreferLocalNode (with_defaults c) = sc_PreferLocalNode c"
  "sc_Headers (with_defaults c) = sc_Headers c"
  "sc_Distribution c \<noteq> [] \<Longrightarrow> sc_Distribution (with_defaults c) = sc_Distribution c"
  "sc_EndpointsProvider c \<noteq> [] \<Longrightarrow> sc_EndpointsProvider (with_defaults c) = sc_EndpointsProvider c"
  by (simp_all add: with_defaults_def Let_def)

lemma default_loop_lookup:
  assumes "default_loop s ks = Ret s'" "distinct ks"
  shows "fmlookup s' k =
    (if k \<in> set ks then Some (map_option with_defaults (GetMod s k)) else fmlookup s k)"
  using assms
proof (induction ks arbitrary: s)
  case (Cons a ks)
  then obtain c where c: "GetMod s a = Some c"
    and loop: "default_loop (fmupd a (Some (with_defaults c)) s) ks = Ret s'"
    by (auto simp: outcome_simps deref_def split: option.splits)
  from Cons.IH [OF loop] Cons.prems c show ?case
    by (auto simp: GetMod_def)
qed simp

lemma default_loop_ret_iff:
  assumes "is_range s ks"
  shows "is_ret (default_loop s ks) \<longleftrightarrow> no_nil s"
proof -
  have "is_ret (default_loop s ks) \<longleftrightarrow> (\<forall>k \<in> set ks. GetMod s k \<noteq> None)" if "distinct ks" for ks s
    using that
  proof (induction ks arbitrary: s)
    case (Cons a ks)
    then show ?case by (cases "GetMod s a") (auto simp: GetMod_def)
  qed simp
  moreover have "(\<forall>k \<in> set ks. GetMod s k \<noteq> None) \<longleftrightarrow> no_nil s"
    using assms GetMod_range [OF assms]
    by (fastforce simp: is_range_def GetMod_def no_nil_def fmlookup_ran_iff fmlookup_dom'_iff
        split: option.splits)
  ultimately show ?thesis using assms by (auto simp: is_range_def)
qed

text \<open>After a successful load every service has a distribution and an endpoints
  provider, \<open>Hash\<close> and \<open>Kubernetes\<close> where the file gave none; the other fields and the set of
  services are those of the file; and loading succeeds on exactly the files with no nil entry.\<close>

theorem Load_applies_defaults:
  assumes "filename \<noteq> []" "read_file filename = Ret data" "unmarshal data = Ret s"
    and "is_range s (order s)"
  shows "(is_ret (LoadServicesConfigFromYAML filename read_file unmarshal order) \<longleftrightarrow> no_nil s) \<and>
    (\<forall>s'. LoadServicesConfigFromYAML filename read_file unmarshal order = Ret s' \<longrightarrow>
       fmdom' s' = fmdom' s \<and>
       (\<forall>k c'. GetMod s' k = Some c' \<longrightarrow>
          sc_Distribution c' \<noteq> [] \<and> sc_EndpointsProvider c' \<noteq> [] \<and>
          (\<exists>c. GetMod s k = Some c \<and> c' = with_defaults c)))"
proof -
  have load: "LoadServicesConfigFromYAML filename read_file unmarshal order = default_loop s (order s)"
    using assms(1-3) by (simp add: LoadServicesConfigFromYAML_def)
  have "fmdom' s' = fmdom' s \<and> (\<forall>k c'. GetMod s' k = Some c' \<longrightarrow>
      sc_Distribution c' \<noteq> [] \<and> sc_EndpointsProvider c' \<noteq> [] \<and>
      (\<exists>c. GetMod s k = Some c \<and> c' = with_defaults c))"
    if "default_loop s (order s) = Ret s'" for s'
  proof -
    have look: "fmlookup s' k =
        (if k \<in> fmdom' s then Some (map_option with_defaults (GetMod s k)) else fmlookup s k)" for k
      using default_loop_lookup [OF that, of k] assms(4) by (simp add: is_range_def)
    then have "fmdom' s' = fmdom' s"
      by (auto simp: fmlookup_dom'_iff split: if_splits)
    moreover have "\<exists>c. GetMod s k = Some c \<and> c' = with_defaults c" if "GetMod s' k = Some c'" for k c'
      using that look [of k] by (auto simp: GetMod_def [of s'] fmdom'_notD split: if_splits option.splits)
    ultimately show ?thesis using with_defaults_set by metis
  qed
  with load default_loop_ret_iff [OF assms(4)] show ?thesis by simp
qed

theorem Load_applies_defaults_witness:
  "\<exists>s'. LoadServicesConfigFromYAML ''c.yaml'' Ret
      (\<lambda>_. Ret (fmupd ''default'' (Some \<lparr>sc_Name = ''tws'', sc_Distribution = [], sc_EndpointsProvider = [],
         sc_PreferLocalNode = True, sc_Headers = fmempty\<rparr>) fmempty)) (\<lambda>_. [''default'']) = Ret s'"
  (is "\<exists>s'. LoadServicesConfigFromYAML _ _ (\<lambda>_. Ret ?s) _ = Ret s'")
proof -
  have "is_range ?s [''default'']" "no_nil ?s"
    by (simp_all add: is_range_def no_nil_def fmlookup_ran_iff)
  with Load_applies_defaults [of "''c.yaml''" Ret "''c.yaml''" "\<lambda>_. Ret ?s" ?s "\<lambda>_. [''default'']"]
  show ?thesis by (auto simp: is_ret_iff)
qed

end
