(* ===== verification/Go_Paths.thy ===== *)
theory Go_Paths
  imports Go_Strings
begin

text \<open>
  \<open>filepath.Clean\<close> on Unix: the path is cut at its slashes, empty and \<open>.\<close> components are
  dropped and \<open>..\<close> removes the component before it, as the lexical rules of the
  documentation state. The component stack is kept in reverse.
\<close>

abbreviation dot :: string where "dot \<equiv> ''.''"
abbreviation dotdot :: string where "dotdot \<equiv> ''..''"

definition clean_step :: "bool \<Rightarrow> string list \<Rightarrow> string \<Rightarrow> string list" where
  "clean_step rooted st c =
     (if c = [] \<or> c = dot then st
      else if c = dotdot then
        (case st of
           [] \<Rightarrow> if rooted then [] else [dotdot]
         | x # xs \<Rightarrow> if x = dotdot then (if rooted then xs else dotdot # st) else xs)
      else c # st)"

definition clean :: "string \<Rightarrow> string" where
  "clean path =
     (if path = [] then dot
      else let rooted = (hd path = CHR ''/'');
               st = foldl (clean_step rooted) [] (split_all (CHR ''/'') path);
               body = join_with (CHR ''/'') (rev st)
           in if rooted then CHR ''/'' # body else if body = [] then dot else body)"

text \<open>A plain component: what a cleaned rooted path is made of.\<close>

definition plain_component :: "string \<Rightarrow> bool" where
  "plain_component c \<longleftrightarrow> c \<noteq> [] \<and> c \<noteq> dot \<and> c \<noteq> dotdot \<and> CHR ''/'' \<notin> set c"

definition clean_rooted :: "string \<Rightarrow> bool" where
  "clean_rooted p \<longleftrightarrow>
     (\<exists>cs. p = CHR ''/'' # join_with (CHR ''/'') cs \<and> (\<forall>c \<in> set cs. plain_component c))"

lemma clean_step_plain:
  assumes "\<forall>c \<in> set st. plain_component c" and "CHR ''/'' \<notin> set x"
  shows "\<forall>c \<in> set (clean_step True st x). plain_component c"
proof -
  consider "x = [] \<or> x = dot" | "x = dotdot" | "x \<noteq> []" "x \<noteq> dot" "x \<noteq> dotdot" by blast
  then show ?thesis
  proof cases
    case 1
    with assms(1) show ?thesis by (simp add: clean_step_def)
  next
    case 2
    with assms(1) show ?thesis by (cases st) (simp_all add: clean_step_def)
  next
    case 3
    with assms show ?thesis by (simp add: clean_step_def plain_component_def)
  qed
qed

lemma foldl_clean_plain:
  assumes "\<forall>c \<in> set st. plain_component c" and "\<forall>x \<in> set xs. CHR ''/'' \<notin> set x"
  shows "\<forall>c \<in> set (foldl (clean_step True) st xs). plain_component c"
  using assms
proof (induction xs arbitrary: st)
  case (Cons x xs)
  then show ?case using clean_step_plain [of st x] by simp
qed simp

lemma foldl_clean_fixed:
  "\<forall>x \<in> set xs. plain_component x \<Longrightarrow> foldl (clean_step r) st xs = rev xs @ st"
  by (induction xs arbitrary: st) (auto simp: clean_step_def plain_component_def)

lemma clean_is_rooted:
  assumes "p = CHR ''/'' # q"
  shows "clean_rooted (clean p)"
proof -
  let ?st = "foldl (clean_step True) [] (split_all (CHR ''/'') p)"
  have "\<forall>c \<in> set ?st. plain_component c"
    by (rule foldl_clean_plain) (auto dest: split_all_no_sep)
  then have "\<forall>c \<in> set (rev ?st). plain_component c" by simp
  moreover have "clean p = CHR ''/'' # join_with (CHR ''/'') (rev ?st)"
    using assms by (simp add: clean_def Let_def)
  ultimately show ?thesis unfolding clean_rooted_def by blast
qed

lemma clean_fixed:
  assumes "clean_rooted p"
  shows "clean p = p"
proof -
  obtain cs where p: "p = CHR ''/'' # join_with (CHR ''/'') cs"
    and cs: "\<forall>c \<in> set cs. plain_component c"
    using assms by (auto simp: clean_rooted_def)
  show ?thesis
  proof (cases "cs = []")
    case True
    with p show ?thesis by (simp add: clean_def clean_step_def)
  next
    case False
    with cs have "split_all (CHR ''/'') (join_with (CHR ''/'') cs) = cs"
      by (intro split_join) (auto simp: plain_component_def)
    with p have "split_all (CHR ''/'') p = [] # cs" by simp
    with p cs show ?thesis
      by (simp add: clean_def Let_def clean_step_def foldl_clean_fixed)
  qed
qed

lemma clean_idem: "clean (clean (CHR ''/'' # q)) = clean (CHR ''/'' # q)"
  by (rule clean_fixed) (rule clean_is_rooted, rule refl)

end
