(* ===== verification/Go_URL.thy ===== *)
theory Go_URL
  imports Go_Strings
begin

text \<open>
  What the program uses of \<open>net/url\<close>: a URL's decoded path and raw query, and
  \<open>url.Query().Get(key)\<close>, the first value of a key in the query.
\<close>

record URL =
  u_Path :: string
  u_RawQuery :: string
  u_Host :: string

definition hex_val :: "char \<Rightarrow> nat option" where
  "hex_val c = (case digit_val c of None \<Rightarrow> None | Some d \<Rightarrow> if d < 16 then Some d else None)"

text \<open>\<open>url.QueryUnescape\<close>: an ill-formed escape is an error.\<close>

fun query_unescape :: "string \<Rightarrow> string option" where
  "query_unescape [] = Some []"
| "query_unescape (c # r) =
     (if c = CHR ''%'' then
        (case r of
           a # b # r' \<Rightarrow>
             (case (hex_val a, hex_val b) of
                (Some x, Some y) \<Rightarrow> map_option (\<lambda>s. char_of (16 * x + y) # s) (query_unescape r')
              | _ \<Rightarrow> None)
         | _ \<Rightarrow> None)
      else map_option (\<lambda>s. (if c = CHR ''+'' then CHR '' '' else c) # s) (query_unescape r))"

text \<open>One \<open>key=value\<close> item of the query; an item that does not parse is skipped.\<close>

definition query_item :: "string \<Rightarrow> (string \<times> string) option" where
  "query_item it =
     (if CHR '';'' \<in> set it \<or> it = [] then None
      else let kv = split2 (CHR ''='') it in
           (case (query_unescape (hd kv),
                  query_unescape (if 1 < length kv then kv ! 1 else [])) of
              (Some k, Some v) \<Rightarrow> Some (k, v)
            | _ \<Rightarrow> None))"

definition query_get :: "string \<Rightarrow> string \<Rightarrow> string" where
  "query_get raw key =
     (case map_of (List.map_filter query_item (split_all (CHR ''&'') raw)) key of
        None \<Rightarrow> [] | Some v \<Rightarrow> v)"

end
