(* ===== verification/URL_Parser.thy ===== *)
theory URL_Parser
  imports Services_Config Go_Paths Go_URL
begin

text \<open>
  The URL parser (\<open>services/url_parser.go\<close>). A request path is
  \<open>/<hash>/<path>~<type>[:<extra>]/<mod path>\<close>, possibly with several modifications
  nested; \<open>Parse\<close> cuts the last configured modification off and also finds the path
  under all of them.
\<close>

record Mod =
  m_Type :: string
  m_Path :: string
  m_Extra :: string
  m_Name :: string

record Source =
  s_Type :: string
  s_Name :: string
  s_InfoHash :: string
  s_Path :: string
  s_OriginPath :: string
  s_Token :: string
  s_ApiKey :: string
  s_Query :: string
  s_Mod :: "Mod option"

definition GetKey :: "Source \<Rightarrow> string" where
  "GetKey s =
     (let key = s_InfoHash s @ s_Type s
      in case s_Mod s of None \<Rightarrow> key | Some m \<Rightarrow> key @ s_Path s @ m_Type m @ m_Extra m)"

definition GetEdgeType :: "Source \<Rightarrow> string" where
  "GetEdgeType s = (case s_Mod s of Some m \<Rightarrow> m_Type m | None \<Rightarrow> s_Type s)"

definition GetEdgeName :: "Source \<Rightarrow> string" where
  "GetEdgeName s = (case s_Mod s of Some m \<Rightarrow> m_Name m | None \<Rightarrow> s_Name s)"

text \<open>
  \<open>regexp.MatchString("[0-9a-f]{5,40}", hash)\<close>: the pattern is not anchored, so it matches
  when some five consecutive bytes are lower-case hexadecimal digits.
\<close>

definition is_hex :: "char \<Rightarrow> bool" where
  "is_hex c \<longleftrightarrow> c \<in> set ''0123456789abcdef''"

fun checkHash :: "string \<Rightarrow> bool" where
  "checkHash [] = False"
| "checkHash (c # cs) = (5 \<le> length (takeWhile is_hex (c # cs)) \<or> checkHash cs)"

section \<open>extractMod\<close>

text \<open>The inner loop over \<open>GetMods()\<close>: the name of the mod called \<open>t\<close>, if there is one.\<close>

definition match_mod :: "ServicesConfig \<Rightarrow> string list \<Rightarrow> string \<Rightarrow> string option outcome" where
  "match_mod cfg ks t =
     (case find (\<lambda>v. t = v) (GetMods ks) of
        None \<Rightarrow> Ret None
      | Some v \<Rightarrow> and_then (deref (GetMod cfg v)) (\<lambda>c. Ret (Some (sc_Name c))))"

text \<open>
  The outer loop, from the position \<open>index\<close> down. It carries \<open>e\<close>, which an iteration
  sets only when its segment has a colon; the result is the prefix, the pieces \<open>p\<close>, the
  type, the extra and the name of the last match.
\<close>

function extract_loop ::
  "ServicesConfig \<Rightarrow> string list \<Rightarrow> string \<Rightarrow> nat \<Rightarrow> string \<Rightarrow>
   (string \<times> string list \<times> string \<times> string \<times> string) option outcome" where
  "extract_loop cfg ks path index e =
     (case last_index (CHR ''~'') (take index path) of
        None \<Rightarrow> Ret None
      | Some i \<Rightarrow>
          (let first = take i path;
               last = drop (Suc i) path;
               p = split2 (CHR ''/'') last;
               ee = split2 (CHR '':'') (hd p);
               e' = (if 1 < length ee then ee ! 1 else e);
               t = (if 1 < length ee then ee ! 0 else hd p)
           in case match_mod cfg ks t of
                Ret (Some name) \<Rightarrow> Ret (Some (first, p, t, e', name))
              | Ret None \<Rightarrow> extract_loop cfg ks path i e'
              | Fail x \<Rightarrow> Fail x
              | Panic k \<Rightarrow> Panic k))"
  by pat_completeness auto
termination
  by (relation "measure (\<lambda>(cfg, ks, path, index, e). index)") (auto dest: last_index_Some)

declare extract_loop.simps [simp del]

definition extractMod ::
  "ServicesConfig \<Rightarrow> string list \<Rightarrow> string \<Rightarrow> (string \<times> Mod option) outcome" where
  "extractMod cfg ks path =
     (if CHR ''~'' \<notin> set path then Ret (path, None)
      else and_then (extract_loop cfg ks path (length path) []) (\<lambda>r.
        case r of
          None \<Rightarrow> Ret (path, None)
        | Some (newPath, p, t, e, name) \<Rightarrow>
            (let modPath = CHR ''/'' # (if 1 < length p then p ! 1 else [])
             in Ret (newPath,
                  Some \<lparr>m_Type = t, m_Path = clean modPath, m_Extra = e, m_Name = name\<rparr>))))"

lemma extract_loop_prefix:
  "extract_loop cfg ks path index e = Ret (Some (q, r)) \<Longrightarrow>
   \<exists>i < length path. q = take i path \<and> path ! i = CHR ''~''"
proof (induction cfg ks path index e rule: extract_loop.induct)
  case (1 cfg ks path index e)
  from "1.prems" obtain i where i: "last_index (CHR ''~'') (take index path) = Some i"
    by (auto simp: extract_loop.simps [of cfg ks path index e] split: option.splits)
  from last_index_Some [OF i] have "i < length path" "path ! i = CHR ''~''" by auto
  with "1.prems" i "1.IH" [OF i refl refl refl refl refl refl] show ?case
    by (auto simp: extract_loop.simps [of cfg ks path index e] Let_def
        split: outcome.splits option.splits)
qed

lemma extractMod_Some:
  assumes "extractMod cfg ks path = Ret (q, Some m)"
  obtains p t e name where
    "extract_loop cfg ks path (length path) [] = Ret (Some (q, p, t, e, name))"
    "m = \<lparr>m_Type = t, m_Path = clean (CHR ''/'' # (if 1 < length p then p ! 1 else [])),
          m_Extra = e, m_Name = name\<rparr>"
proof -
  have tilde: "CHR ''~'' \<in> set path"
    using assms by (cases "CHR ''~'' \<in> set path") (simp_all add: extractMod_def)
  with assms obtain w where loop: "extract_loop cfg ks path (length path) [] = Ret w"
    by (cases "extract_loop cfg ks path (length path) []") (auto simp: extractMod_def)
  with assms tilde obtain r where r: "extract_loop cfg ks path (length path) [] = Ret (Some r)"
    by (cases w) (auto simp: extractMod_def)
  obtain q' p t e name where "r = (q', p, t, e, name)" by (cases r)
  with assms r tilde that show ?thesis
    by (auto simp: extractMod_def Let_def split: if_splits)
qed

lemma extractMod_shrinks:
  "extractMod cfg ks path = Ret (q, Some m) \<Longrightarrow> length q < length path"
  by (elim extractMod_Some) (auto dest!: extract_loop_prefix)

section \<open>Parse\<close>

text \<open>The loop that strips every modification: it ends because each round shortens the path.\<close>

function origin_loop :: "ServicesConfig \<Rightarrow> string list \<Rightarrow> string \<Rightarrow> string outcome" where
  "origin_loop cfg ks path =
     (case extractMod cfg ks path of
        Ret r \<Rightarrow> if snd r = None then Ret (fst r) else origin_loop cfg ks (fst r)
      | Fail x \<Rightarrow> Fail x
      | Panic k \<Rightarrow> Panic k)"
  by pat_completeness auto
termination
  by (relation "measure (\<lambda>(cfg, ks, path). length path)") (auto dest: extractMod_shrinks)

declare origin_loop.simps [simp del]

definition source_type :: "string list \<Rightarrow> string \<Rightarrow> string" where
  "source_type ks hash =
     (case find (\<lambda>v. hash = v) (GetMods ks) of None \<Rightarrow> ''default'' | Some v \<Rightarrow> v)"

definition extract_msg :: "string \<Rightarrow> string" where
  "extract_msg path = ''failed to extract mod from path='' @ path"

definition Parse :: "ServicesConfig \<Rightarrow> string list \<Rightarrow> URL \<Rightarrow> Source outcome" where
  "Parse cfg ks url =
     (let urlPath = u_Path url in
      if urlPath = [] then Fail (ErrMsg ''Empty url'')
      else let p = split2 (CHR ''/'') (drop 1 urlPath); hash = hd p in
      if hash = [] then Fail (ErrMsg ''Empty hash'')
      else let sourceType = source_type ks hash in
      and_then (deref (GetMod cfg sourceType)) (\<lambda>sc.
      if sourceType = ''default'' \<and> \<not> checkHash hash
      then Fail (ErrMsg (''Wrong hash='' @ hash))
      else let path = CHR ''/'' # (if 1 < length p then p ! 1 else []) in
      and_then (wrap_err (extract_msg path) (extractMod cfg ks path)) (\<lambda>(newPath, m).
      and_then (wrap_err (extract_msg path) (origin_loop cfg ks newPath)) (\<lambda>originPath.
      Ret \<lparr>s_Type = sourceType, s_Name = sc_Name sc, s_InfoHash = hash, s_Path = newPath,
           s_OriginPath = originPath,
           s_Token = query_get (u_RawQuery url) ''token'',
           s_ApiKey = query_get (u_RawQuery url) ''api-key'',
           s_Query = u_RawQuery url, s_Mod = m\<rparr>))))"

section \<open>Correctness of extractMod\<close>

text \<open>The type a tilde introduces: up to the next slash, and in that up to the first colon.\<close>

definition tilde_type :: "string \<Rightarrow> string" where
  "tilde_type rest = hd (split2 (CHR '':'') (hd (split2 (CHR ''/'') rest)))"

definition mod_tilde :: "string list \<Rightarrow> string \<Rightarrow> nat \<Rightarrow> bool" where
  "mod_tilde ks path i \<longleftrightarrow>
     i < length path \<and> path ! i = CHR ''~'' \<and> tilde_type (drop (Suc i) path) \<in> set (GetMods ks)"

lemma segment_type:
  "(if 1 < length (split2 (CHR '':'') (hd p)) then split2 (CHR '':'') (hd p) ! 0 else hd p)
     = hd (split2 (CHR '':'') (hd p))"
  by (auto simp: split2_def split: option.splits)

lemma match_mod_eq:
  "match_mod cfg ks t =
     (if t \<in> set (GetMods ks)
      then (case GetMod cfg t of None \<Rightarrow> Panic NilDeref | Some c \<Rightarrow> Ret (Some (sc_Name c)))
      else Ret None)"
  by (simp add: match_mod_def find_eq deref_def split: option.splits)

text \<open>One unfolding of the loop, in terms of \<open>tilde_type\<close>.\<close>

lemma extract_loop_unfold:
  "extract_loop cfg ks path index e =
     (case last_index (CHR ''~'') (take index path) of
        None \<Rightarrow> Ret None
      | Some i \<Rightarrow>
          (let p = split2 (CHR ''/'') (drop (Suc i) path);
               ee = split2 (CHR '':'') (hd p);
               e' = (if 1 < length ee then ee ! 1 else e);
               t = tilde_type (drop (Suc i) path)
           in if t \<in> set (GetMods ks)
              then (case GetMod cfg t of
                      None \<Rightarrow> Panic NilDeref
                    | Some c \<Rightarrow> Ret (Some (take i path, p, t, e', sc_Name c)))
              else extract_loop cfg ks path i e'))"
  unfolding extract_loop.simps [of cfg ks path index e] Let_def segment_type match_mod_eq tilde_type_def
  by (simp split: option.split)

lemma extract_loop_None:
  "extract_loop cfg ks path index e = Ret None \<Longrightarrow> i < index \<Longrightarrow> \<not> mod_tilde ks path i"
proof (induction index arbitrary: e rule: less_induct)
  case (less index)
  show ?case
  proof (cases "last_index (CHR ''~'') (take index path)")
    case None
    with less.prems(2) show ?thesis
      by (auto simp: mod_tilde_def dest: last_index_take_None)
  next
    case (Some k)
    note k = last_index_take_Some [OF Some]
    from less.prems Some have notmod: "tilde_type (drop (Suc k) path) \<notin> set (GetMods ks)"
      and rest: "\<exists>e'. extract_loop cfg ks path k e' = Ret None"
      by (auto simp: extract_loop_unfold [of cfg ks path index e] Let_def split: if_splits option.splits)
    consider "i < k" | "i = k" | "k < i" by linarith
    then show ?thesis
    proof cases
      case 1
      with less.IH [OF k(1)] rest show ?thesis by blast
    next
      case 2
      with notmod show ?thesis by (simp add: mod_tilde_def)
    next
      case 3
      with k(4) less.prems(2) show ?thesis by (auto simp: mod_tilde_def)
    qed
  qed
qed

lemma extract_loop_Some:
  "extract_loop cfg ks path index e = Ret (Some (q, p, t, x, name)) \<Longrightarrow>
   \<exists>i. i < index \<and> mod_tilde ks path i \<and> q = take i path \<and>
     p = split2 (CHR ''/'') (drop (Suc i) path) \<and> t = tilde_type (drop (Suc i) path) \<and>
     (\<exists>c. GetMod cfg t = Some c \<and> name = sc_Name c) \<and>
     (\<forall>j. i < j \<and> j < index \<longrightarrow> \<not> mod_tilde ks path j)"
proof (induction index arbitrary: e rule: less_induct)
  case (less index)
  then obtain k where k: "last_index (CHR ''~'') (take index path) = Some k"
    by (auto simp: extract_loop_unfold [of cfg ks path index e] split: option.splits)
  note facts = last_index_take_Some [OF k]
  show ?case
  proof (cases "tilde_type (drop (Suc k) path) \<in> set (GetMods ks)")
    case True
    with less.prems k have "q = take k path" "p = split2 (CHR ''/'') (drop (Suc k) path)"
      "t = tilde_type (drop (Suc k) path)" "\<exists>c. GetMod cfg t = Some c \<and> name = sc_Name c"
      by (auto simp: extract_loop_unfold [of cfg ks path index e] Let_def split: option.splits)
    with True facts show ?thesis by (auto simp: mod_tilde_def)
  next
    case False
    with less.prems k obtain e' where "extract_loop cfg ks path k e' = Ret (Some (q, p, t, x, name))"
      by (auto simp: extract_loop_unfold [of cfg ks path index e] Let_def)
    from less.IH [OF facts(1) this] obtain i where i: "i < k" "mod_tilde ks path i"
      "q = take i path" "p = split2 (CHR ''/'') (drop (Suc i) path)"
      "t = tilde_type (drop (Suc i) path)" "\<exists>c. GetMod cfg t = Some c \<and> name = sc_Name c"
      "\<forall>j. i < j \<and> j < k \<longrightarrow> \<not> mod_tilde ks path j" by blast
    moreover have "\<not> mod_tilde ks path j" if "i < j" "j < index" for j
      using that i(7) False facts(4) [of j] by (cases j k rule: linorder_cases) (auto simp: mod_tilde_def)
    ultimately show ?thesis using facts(1) by (intro exI [of _ i]) auto
  qed
qed

lemma extract_loop_returns:
  assumes "is_range cfg ks" "no_nil cfg"
  shows "is_ret (extract_loop cfg ks path index e)"
proof (induction index arbitrary: e rule: less_induct)
  case (less index)
  have named: "\<exists>c. GetMod cfg t = Some c" if "t \<in> set (GetMods ks)" for t
    using that GetMod_range [OF assms] by (auto simp: GetMods_set)
  show ?case
  proof (cases "last_index (CHR ''~'') (take index path)")
    case None
    then show ?thesis by (simp add: extract_loop_unfold [of cfg ks path index e])
  next
    case (Some k)
    with less.IH [OF last_index_take_Some(1) [OF Some]] named [of "tilde_type (drop (Suc k) path)"]
    show ?thesis by (auto simp: extract_loop_unfold [of cfg ks path index e] Let_def)
  qed
qed

lemma extractMod_returns:
  assumes "is_range cfg ks" "no_nil cfg"
  shows "\<exists>q m. extractMod cfg ks path = Ret (q, m)"
proof -
  obtain w where "extract_loop cfg ks path (length path) [] = Ret w"
    using extract_loop_returns [OF assms, of path "length path" "[]"] by (auto simp: is_ret_iff)
  then show ?thesis
    by (auto simp: extractMod_def Let_def split: option.splits)
qed

lemma extractMod_None:
  assumes "extractMod cfg ks path = Ret (q, None)"
  shows "q = path" and "\<not> mod_tilde ks path i"
proof -
  have "q = path \<and> (\<forall>i. \<not> mod_tilde ks path i)"
  proof (cases "CHR ''~'' \<in> set path")
    case False
    with assms show ?thesis by (auto simp: extractMod_def mod_tilde_def dest: nth_mem)
  next
    case True
    show ?thesis
    proof (cases "extract_loop cfg ks path (length path) []")
      case (Ret w)
      with True assms have "w = None" by (cases w) (auto simp: extractMod_def Let_def)
      with Ret True assms show ?thesis
        by (auto simp: extractMod_def mod_tilde_def dest: extract_loop_None)
    qed (use assms True in \<open>auto simp: extractMod_def\<close>)
  qed
  then show "q = path" "\<not> mod_tilde ks path i" by auto
qed

text \<open>C17: \<open>extractMod\<close> cuts the path at the last tilde that introduces a configured
  modification: what is before it is the new path, the type and the name are those of that
  modification, its path is the cleaned rest of the segment, and no later tilde of the path
  introduces a configured modification.\<close>

theorem extractMod_cuts_last_mod:
  assumes "extractMod cfg ks path = Ret (q, Some m)"
  shows "\<exists>rest. path = q @ CHR ''~'' # rest \<and> m_Type m = tilde_type rest \<and>
      m_Type m \<in> set (GetMods ks) \<and> (\<exists>c. GetMod cfg (m_Type m) = Some c \<and> m_Name m = sc_Name c) \<and>
      m_Path m = clean (CHR ''/'' # (let p = split2 (CHR ''/'') rest in if 1 < length p then p ! 1 else [])) \<and>
      (\<forall>j. length q < j \<longrightarrow> \<not> mod_tilde ks path j)"
proof -
  obtain p t e name where
    loop: "extract_loop cfg ks path (length path) [] = Ret (Some (q, p, t, e, name))"
    and m: "m = \<lparr>m_Type = t, m_Path = clean (CHR ''/'' # (if 1 < length p then p ! 1 else [])),
        m_Extra = e, m_Name = name\<rparr>"
    using assms by (rule extractMod_Some)
  from extract_loop_Some [OF loop] obtain i where i: "i < length path" "mod_tilde ks path i"
    "q = take i path" "p = split2 (CHR ''/'') (drop (Suc i) path)"
    "t = tilde_type (drop (Suc i) path)" "\<exists>c. GetMod cfg t = Some c \<and> name = sc_Name c"
    "\<forall>j. i < j \<and> j < length path \<longrightarrow> \<not> mod_tilde ks path j" by blast
  have "path = q @ CHR ''~'' # drop (Suc i) path"
    using i(1,2,3) id_take_nth_drop [of i path] by (simp add: mod_tilde_def)
  moreover have "\<forall>j. length q < j \<longrightarrow> \<not> mod_tilde ks path j"
    using i(1,3,7) by (auto simp: mod_tilde_def)
  ultimately show ?thesis
    using i m by (intro exI [of _ "drop (Suc i) path"]) (simp add: Let_def mod_tilde_def)
qed

subsection \<open>A small configuration\<close>

text \<open>The default service and one modification, for evaluating the definitions.\<close>

definition small_service :: "string \<Rightarrow> ServiceConfig" where
  "small_service n = \<lparr>sc_Name = n, sc_Distribution = Hash, sc_EndpointsProvider = Kubernetes,
     sc_PreferLocalNode = False, sc_Headers = fmempty\<rparr>"

definition small_config :: ServicesConfig where
  "small_config = fmupd ''default'' (Some (small_service ''torrent-web-seeder''))
     (fmupd ''hls'' (Some (small_service ''content-transcoder'')) fmempty)"

definition small_range :: "string list" where
  "small_range = [''hls'', ''default'']"

lemma small_config_ok:
  "is_range small_config small_range" "no_nil small_config" "GetMod small_config ''default'' \<noteq> None"
  by (auto simp: is_range_def small_config_def small_range_def no_nil_def fmlookup_ran_iff GetMod_def)

theorem extractMod_cuts_last_mod_witness:
  "\<exists>rest. ''/Sintel.mp4~hls/index.m3u8'' = ''/Sintel.mp4'' @ CHR ''~'' # rest \<and>
     tilde_type rest = ''hls'' \<and> ''hls'' \<in> set (GetMods small_range)"
proof -
  have "extractMod small_config small_range ''/Sintel.mp4~hls/index.m3u8'' =
      Ret (''/Sintel.mp4'', Some \<lparr>m_Type = ''hls'', m_Path = ''/index.m3u8'', m_Extra = [],
        m_Name = ''content-transcoder''\<rparr>)"
    by code_simp
  from extractMod_cuts_last_mod [OF this] show ?thesis by (auto simp: Let_def)
qed

subsection \<open>Printing and parsing a modification\<close>

definition mod_suffix :: "Mod \<Rightarrow> string" where
  "mod_suffix m =
     CHR ''~'' # m_Type m @ (if m_Extra m = [] then [] else CHR '':'' # m_Extra m) @ m_Path m"

definition printable_mod :: "Mod \<Rightarrow> bool" where
  "printable_mod m \<longleftrightarrow>
     CHR ''/'' \<notin> set (m_Type m) \<and> CHR ''~'' \<notin> set (m_Type m) \<and> CHR '':'' \<notin> set (m_Type m) \<and>
     CHR ''/'' \<notin> set (m_Extra m) \<and> CHR ''~'' \<notin> set (m_Extra m) \<and>
     CHR ''~'' \<notin> set (m_Path m) \<and> clean_rooted (m_Path m)"

lemma extract_loop_last:
  assumes "CHR ''~'' \<notin> set rest"
  shows "extract_loop cfg ks (q @ CHR ''~'' # rest) (length (q @ CHR ''~'' # rest)) e =
    (let p = split2 (CHR ''/'') rest; ee = split2 (CHR '':'') (hd p);
         e' = (if 1 < length ee then ee ! 1 else e); t = tilde_type rest
     in if t \<in> set (GetMods ks)
        then (case GetMod cfg t of None \<Rightarrow> Panic NilDeref
              | Some c \<Rightarrow> Ret (Some (q, p, t, e', sc_Name c)))
        else extract_loop cfg ks (q @ CHR ''~'' # rest) (length q) e')"
  using last_index_append [OF assms, of q] by (subst extract_loop_unfold) (simp add: Let_def split: option.split)

text \<open>C18: Appending a modification to any path and parsing it back gives the path and the
  modification again, whatever the path itself contains: type, extra and modification path
  survive the round trip when the type and the extra have no separator in them and the path
  is already clean.\<close>

theorem extractMod_roundtrip:
  assumes "printable_mod m" "m_Type m \<in> set (GetMods ks)"
    and "GetMod cfg (m_Type m) = Some c" "m_Name m = sc_Name c"
  shows "extractMod cfg ks (q @ mod_suffix m) = Ret (q, Some m)"
proof -
  obtain r where path: "m_Path m = CHR ''/'' # r"
    using assms(1) by (auto simp: printable_mod_def clean_rooted_def)
  define seg where "seg = m_Type m @ (if m_Extra m = [] then [] else CHR '':'' # m_Extra m)"
  define rest where "rest = seg @ CHR ''/'' # r"
  have suffix: "mod_suffix m = CHR ''~'' # rest"
    by (simp add: mod_suffix_def rest_def seg_def path)
  have clear: "CHR ''~'' \<notin> set rest" "CHR ''/'' \<notin> set seg"
    using assms(1) path by (auto simp: rest_def seg_def printable_mod_def)
  then have p: "split2 (CHR ''/'') rest = [seg, r]"
    by (simp add: rest_def split2_sep)
  have ee: "split2 (CHR '':'') seg =
      (if m_Extra m = [] then [m_Type m] else [m_Type m, m_Extra m])"
    using assms(1) by (simp add: seg_def printable_mod_def split2_no_sep split2_sep)
  then have t: "tilde_type rest = m_Type m"
    by (simp add: tilde_type_def p)
  have "extract_loop cfg ks (q @ mod_suffix m) (length (q @ mod_suffix m)) [] =
      Ret (Some (q, [seg, r], m_Type m, m_Extra m, m_Name m))"
    unfolding suffix extract_loop_last [OF clear(1)] using assms(2-4) p ee t
    by (simp add: Let_def)
  moreover have "clean (CHR ''/'' # r) = CHR ''/'' # r"
    using assms(1) path clean_fixed by (simp add: printable_mod_def)
  ultimately show ?thesis
    using path suffix by (simp add: extractMod_def)
qed

theorem extractMod_roundtrip_witness:
  "extractMod small_config small_range (''/a~b/c'' @ mod_suffix \<lparr>m_Type = ''hls'',
     m_Path = ''/v/0.ts'', m_Extra = ''480'', m_Name = ''content-transcoder''\<rparr>) =
   Ret (''/a~b/c'', Some \<lparr>m_Type = ''hls'', m_Path = ''/v/0.ts'', m_Extra = ''480'',
     m_Name = ''content-transcoder''\<rparr>)"
proof -
  have "clean_rooted ''/v/0.ts''"
    unfolding clean_rooted_def by (rule exI [of _ "[''v'', ''0.ts'']"]) (simp add: plain_component_def)
  then show ?thesis
    by (intro extractMod_roundtrip [where c = "small_service ''content-transcoder''"])
      (simp_all add: printable_mod_def small_range_def GetMods_def small_config_def GetMod_def
        small_service_def)
qed

text \<open>The \<open>Extra\<close> of a modification can come from a later tilde that is no modification:
  the loop variable \<open>e\<close> keeps the extra of a segment it has already rejected.\<close>

theorem extractMod_stale_extra:
  assumes "t \<in> set (GetMods ks)" "GetMod cfg t = Some c" "u \<notin> set (GetMods ks)"
    and "set t \<inter> {CHR ''/'', CHR ''~'', CHR '':''} = {}" "CHR ''~'' \<notin> set r"
    and "set u \<inter> {CHR ''/'', CHR ''~'', CHR '':''} = {}" "set y \<inter> {CHR ''/'', CHR ''~''} = {}"
  shows "\<exists>m. extractMod cfg ks (q @ ''~'' @ t @ ''/'' @ r @ ''~'' @ u @ '':'' @ y) = Ret (q, Some m) \<and>
           m_Type m = t \<and> m_Extra m = y"
proof -
  define q1 where "q1 = q @ CHR ''~'' # t @ CHR ''/'' # r"
  define rest where "rest = u @ CHR '':'' # y"
  have rest: "CHR ''~'' \<notin> set rest" "split2 (CHR ''/'') rest = [rest]"
    "split2 (CHR '':'') rest = [u, y]" "tilde_type rest = u"
    using assms(6,7) by (auto simp: rest_def tilde_type_def split2_no_sep split2_sep)
  have first: "extract_loop cfg ks (q1 @ CHR ''~'' # rest) (length (q1 @ CHR ''~'' # rest)) [] =
      extract_loop cfg ks (q1 @ CHR ''~'' # rest) (length q1) y"
    unfolding extract_loop_last [OF rest(1)] using rest assms(3) by (simp add: Let_def)
  have "CHR ''~'' \<notin> set (t @ CHR ''/'' # r)" using assms(4,5) by auto
  from last_index_append [OF this, of q]
  have last: "last_index (CHR ''~'') (take (length q1) (q1 @ CHR ''~'' # rest)) = Some (length q)"
    by (simp add: q1_def)
  have seg: "split2 (CHR ''/'') (t @ CHR ''/'' # r @ CHR ''~'' # rest) = [t, r @ CHR ''~'' # rest]"
    "split2 (CHR '':'') t = [t]"
    using assms(4) by (auto simp: split2_sep split2_no_sep)
  have "extract_loop cfg ks (q1 @ CHR ''~'' # rest) (length q1) y =
      Ret (Some (q, [t, r @ CHR ''~'' # rest], t, y, sc_Name c))"
    using last seg assms(1,2) by (subst extract_loop_unfold) (simp add: q1_def tilde_type_def Let_def)
  with first show ?thesis by (simp add: extractMod_def q1_def rest_def)
qed

theorem extractMod_stale_extra_witness:
  "\<exists>m. extractMod small_config small_range (''/a'' @ ''~'' @ ''hls'' @ ''/'' @ ''x'' @ ''~'' @ ''v'' @ '':'' @ ''2'')
     = Ret (''/a'', Some m) \<and> m_Type m = ''hls'' \<and> m_Extra m = ''2''"
  by (rule extractMod_stale_extra [where c = "small_service ''content-transcoder''"])
    (simp_all add: small_range_def GetMods_def small_config_def GetMod_def)

section \<open>Correctness of Parse\<close>

text \<open>The path of a modification is a clean absolute path: it is \<open>/\<close> followed by
  components that are neither empty nor \<open>.\<close> nor \<open>..\<close>, so a request cannot climb out of the
  root of the service it is sent to.\<close>

theorem mod_path_no_traversal:
  assumes "extractMod cfg ks path = Ret (q, Some m)"
  shows "clean_rooted (m_Path m) \<and> clean (m_Path m) = m_Path m"
  using assms
  by (elim extractMod_Some) (auto intro: clean_is_rooted clean_idem)

theorem mod_path_no_traversal_witness:
  "clean_rooted ''/x'' \<and> clean ''/x'' = ''/x''"
proof -
  have "extractMod small_config small_range ''/a~hls/../../x/.'' =
      Ret (''/a'', Some \<lparr>m_Type = ''hls'', m_Path = ''/x'', m_Extra = [], m_Name = ''content-transcoder''\<rparr>)"
    by code_simp
  from mod_path_no_traversal [OF this] show ?thesis by simp
qed

lemma origin_loop_correct:
  assumes "is_range cfg ks" "no_nil cfg"
  shows "\<exists>q r. origin_loop cfg ks path = Ret q \<and> path = q @ r \<and> (\<forall>i. \<not> mod_tilde ks q i)"
proof (induction path rule: length_induct)
  case (1 path)
  obtain q m where qm: "extractMod cfg ks path = Ret (q, m)"
    using extractMod_returns [OF assms] by blast
  show ?case
  proof (cases m)
    case None
    with qm have cut: "extractMod cfg ks path = Ret (path, None)" and bare: "\<not> mod_tilde ks path i" for i
      using extractMod_None [of cfg ks path q] by auto
    show ?thesis
      by (rule exI [of _ path], rule exI [of _ "[]"])
        (subst origin_loop.simps, simp add: cut bare)
  next
    case (Some m')
    with qm have cut: "extractMod cfg ks path = Ret (q, Some m')" by simp
    from extractMod_shrinks [OF cut] "1" obtain q' r where
      rec: "origin_loop cfg ks q = Ret q'" "q = q' @ r" "\<forall>i. \<not> mod_tilde ks q' i" by blast
    obtain rest where "path = q @ CHR ''~'' # rest"
      using extractMod_Some [OF cut] extract_loop_prefix id_take_nth_drop by metis
    with rec(2) have "path = q' @ (r @ CHR ''~'' # rest)" by simp
    moreover have "origin_loop cfg ks path = Ret q'"
      by (subst origin_loop.simps) (simp add: cut rec(1))
    ultimately show ?thesis using rec(3) by blast
  qed
qed

definition url_hash :: "URL \<Rightarrow> string" where
  "url_hash u = hd (split2 (CHR ''/'') (drop 1 (u_Path u)))"

lemma source_type_eq:
  "source_type ks h = (if h \<in> set (GetMods ks) then h else ''default'')"
  by (simp add: source_type_def find_eq)

lemma Parse_ok:
  assumes "is_range cfg ks" "no_nil cfg" "GetMod cfg ''default'' \<noteq> None"
    and "u_Path u \<noteq> []" "url_hash u \<noteq> []" "url_hash u \<in> set (GetMods ks) \<or> checkHash (url_hash u)"
  obtains q m r sc where "GetMod cfg (source_type ks (url_hash u)) = Some sc"
    "extractMod cfg ks (CHR ''/'' # (let p = split2 (CHR ''/'') (drop 1 (u_Path u)) in
       if 1 < length p then p ! 1 else [])) = Ret (q, m)"
    "origin_loop cfg ks q = Ret r"
    "Parse cfg ks u = Ret \<lparr>s_Type = source_type ks (url_hash u), s_Name = sc_Name sc,
       s_InfoHash = url_hash u, s_Path = q, s_OriginPath = r,
       s_Token = query_get (u_RawQuery u) ''token'', s_ApiKey = query_get (u_RawQuery u) ''api-key'',
       s_Query = u_RawQuery u, s_Mod = m\<rparr>"
proof -
  obtain sc where sc: "GetMod cfg (source_type ks (url_hash u)) = Some sc"
  proof (cases "url_hash u \<in> set (GetMods ks)")
    case True
    then obtain sc where "GetMod cfg (url_hash u) = Some sc"
      using GetMod_range [OF assms(1,2), of "url_hash u"] by (auto simp: GetMods_set)
    with True that show ?thesis by (simp add: source_type_eq)
  qed (use assms(3) that in \<open>auto simp: source_type_eq\<close>)
  have guard: "\<not> (source_type ks (url_hash u) = ''default'' \<and> \<not> checkHash (url_hash u))"
    using assms(6) by (auto simp: source_type_eq GetMods_set)
  obtain q m where qm: "extractMod cfg ks (CHR ''/'' # (let p = split2 (CHR ''/'') (drop 1 (u_Path u)) in
       if 1 < length p then p ! 1 else [])) = Ret (q, m)"
    using extractMod_returns [OF assms(1,2)] by blast
  obtain r where r: "origin_loop cfg ks q = Ret r"
    using origin_loop_correct [OF assms(1,2), of q] by blast
  have "Parse cfg ks u = Ret \<lparr>s_Type = source_type ks (url_hash u), s_Name = sc_Name sc,
       s_InfoHash = url_hash u, s_Path = q, s_OriginPath = r,
       s_Token = query_get (u_RawQuery u) ''token'', s_ApiKey = query_get (u_RawQuery u) ''api-key'',
       s_Query = u_RawQuery u, s_Mod = m\<rparr>"
    using assms(4,5) sc guard qm r by (simp add: Parse_def url_hash_def Let_def)
  with sc qm r that show ?thesis by blast
qed

lemma Parse_refuses:
  assumes "GetMod cfg ''default'' \<noteq> None"
    and "\<not> (u_Path u \<noteq> [] \<and> url_hash u \<noteq> [] \<and> (url_hash u \<in> set (GetMods ks) \<or> checkHash (url_hash u)))"
  shows "\<exists>x. Parse cfg ks u = Fail x"
  using assms by (auto simp: Parse_def url_hash_def Let_def source_type_eq)

lemma Parse_Ret:
  assumes "is_range cfg ks" "no_nil cfg" "GetMod cfg ''default'' \<noteq> None" "Parse cfg ks u = Ret src"
  obtains q m r sc path where "GetMod cfg (source_type ks (url_hash u)) = Some sc"
    "extractMod cfg ks path = Ret (q, m)" "origin_loop cfg ks q = Ret r"
    "s_Type src = source_type ks (url_hash u)" "s_Path src = q" "s_OriginPath src = r" "s_Mod src = m"
proof -
  have ok: "u_Path u \<noteq> []" "url_hash u \<noteq> []" "url_hash u \<in> set (GetMods ks) \<or> checkHash (url_hash u)"
    using Parse_refuses [OF assms(3), of u ks] assms(4) by fastforce+
  show thesis
    by (rule Parse_ok [OF assms(1-3) ok], rule that) (use assms(4) in auto)
qed

text \<open>C12: With a configuration that has a default service and no nil entry, \<open>Parse\<close> never
  panics, and it accepts a URL exactly when the path and its first segment are non-empty and
  that segment is a configured modification or passes \<open>checkHash\<close>.\<close>

theorem Parse_accepts_iff:
  assumes "is_range cfg ks" "no_nil cfg" "GetMod cfg ''default'' \<noteq> None"
  shows "(is_ret (Parse cfg ks u) \<longleftrightarrow>
      u_Path u \<noteq> [] \<and> url_hash u \<noteq> [] \<and> (url_hash u \<in> set (GetMods ks) \<or> checkHash (url_hash u))) \<and>
    \<not> is_panic (Parse cfg ks u)"
proof (cases "u_Path u \<noteq> [] \<and> url_hash u \<noteq> [] \<and> (url_hash u \<in> set (GetMods ks) \<or> checkHash (url_hash u))")
  case True
  then show ?thesis
    by (elim conjE, elim Parse_ok [OF assms]) simp_all
next
  case False
  then show ?thesis
    using Parse_refuses [OF assms(3) False] by fastforce
qed

theorem Parse_accepts_iff_witness:
  "is_ret (Parse small_config small_range \<lparr>u_Path = ''/08ada5a7a6/Sintel.mp4'', u_RawQuery = [], u_Host = []\<rparr>)"
  using Parse_accepts_iff [OF small_config_ok, of "\<lparr>u_Path = ''/08ada5a7a6/Sintel.mp4'', u_RawQuery = [], u_Host = []\<rparr>"]
  by (simp add: url_hash_def split2_def is_hex_def)

text \<open>The origin path of a parsed source is a prefix of its path and carries no configured
  modification any more, however many were nested in the URL.\<close>

theorem Parse_origin_is_bare:
  assumes "is_range cfg ks" "no_nil cfg" "GetMod cfg ''default'' \<noteq> None"
    and "Parse cfg ks u = Ret src"
  shows "(\<exists>r. s_Path src = s_OriginPath src @ r) \<and> (\<forall>i. \<not> mod_tilde ks (s_OriginPath src) i)"
proof (rule Parse_Ret [OF assms])
  fix q r
  assume "origin_loop cfg ks q = Ret r" "s_Path src = q" "s_OriginPath src = r"
  with origin_loop_correct [OF assms(1,2), of q] show ?thesis by auto
qed

theorem Parse_origin_is_bare_witness:
  "(\<exists>r. ''/v~hls/a'' = ''/v'' @ r) \<and> (\<forall>i. \<not> mod_tilde small_range ''/v'' i)"
proof -
  have parsed: "Parse small_config small_range
      \<lparr>u_Path = ''/08ada5a7a6/v~hls/a~hls/i'', u_RawQuery = ''token=t'', u_Host = []\<rparr> =
    Ret \<lparr>s_Type = ''default'', s_Name = ''torrent-web-seeder'', s_InfoHash = ''08ada5a7a6'',
      s_Path = ''/v~hls/a'', s_OriginPath = ''/v'', s_Token = ''t'', s_ApiKey = [],
      s_Query = ''token=t'', s_Mod = Some \<lparr>m_Type = ''hls'', m_Path = ''/i'', m_Extra = [],
        m_Name = ''content-transcoder''\<rparr>\<rparr>"
    by code_simp
  from Parse_origin_is_bare [OF small_config_ok parsed] show ?thesis by simp
qed

text \<open>The order in which \<open>range\<close> visits the configuration does not matter.\<close>

lemma extract_loop_order:
  "set ks = set ks' \<Longrightarrow> extract_loop cfg ks path index e = extract_loop cfg ks' path index e"
proof (induction index arbitrary: e rule: less_induct)
  case (less index)
  show ?case
  proof (cases "last_index (CHR ''~'') (take index path)")
    case None
    then show ?thesis by (simp add: extract_loop_unfold [of _ _ _ index])
  next
    case (Some k)
    with less.IH [OF last_index_take_Some(1) [OF Some] less.prems] less.prems show ?thesis
      by (simp add: extract_loop_unfold [of _ _ _ index] GetMods_set Let_def)
  qed
qed

lemma extractMod_order: "set ks = set ks' \<Longrightarrow> extractMod cfg ks path = extractMod cfg ks' path"
  unfolding extractMod_def by (simp only: extract_loop_order [of ks ks'])

lemma origin_loop_order:
  assumes "set ks = set ks'"
  shows "origin_loop cfg ks path = origin_loop cfg ks' path"
proof (induction path rule: length_induct)
  case (1 path)
  have eq: "extractMod cfg ks path = extractMod cfg ks' path" by (rule extractMod_order [OF assms])
  show ?case
  proof (cases "extractMod cfg ks' path")
    case (Ret x)
    obtain q m where x: "x = (q, m)" by (cases x)
    with Ret "1" extractMod_shrinks [of cfg ks' path q] show ?thesis
      by (subst (1 2) origin_loop.simps) (cases m, auto simp: eq)
  qed (subst (1 2) origin_loop.simps, simp add: eq)+
qed

text \<open>The result of \<open>Parse\<close> does not depend on the order in which Go's map iteration
  visits the configured services.\<close>

theorem Parse_order_independent:
  assumes "is_range cfg ks" "is_range cfg ks'"
  shows "Parse cfg ks u = Parse cfg ks' u"
proof -
  have eq: "set ks = set ks'" using assms by (simp add: is_range_def)
  then have "source_type ks h = source_type ks' h" for h
    by (simp add: source_type_eq GetMods_set)
  then show ?thesis
    unfolding Parse_def by (simp only: extractMod_order [OF eq] origin_loop_order [OF eq])
qed

theorem Parse_order_independent_witness:
  "Parse small_config [''hls'', ''default''] \<lparr>u_Path = ''/08ada5a7a6/a~hls'', u_RawQuery = [], u_Host = []\<rparr> =
   Parse small_config [''default'', ''hls''] \<lparr>u_Path = ''/08ada5a7a6/a~hls'', u_RawQuery = [], u_Host = []\<rparr>"
  by (rule Parse_order_independent) (auto simp: is_range_def small_config_def)

subsection \<open>The hash check\<close>

lemma takeWhile_long:
  "5 \<le> length (takeWhile P s) \<longleftrightarrow> (\<exists>h r. s = h @ r \<and> length h = 5 \<and> list_all P h)"
proof
  assume long: "5 \<le> length (takeWhile P s)"
  let ?h = "take 5 (takeWhile P s)"
  have "s = ?h @ (drop 5 (takeWhile P s) @ dropWhile P s)"
    by (metis append.assoc append_take_drop_id takeWhile_dropWhile_id)
  moreover have "list_all P ?h" by (auto simp: list_all_iff dest: in_set_takeD set_takeWhileD)
  ultimately show "\<exists>h r. s = h @ r \<and> length h = 5 \<and> list_all P h"
    using long by (intro exI [of _ ?h] exI [of _ "drop 5 (takeWhile P s) @ dropWhile P s"]) auto
next
  assume "\<exists>h r. s = h @ r \<and> length h = 5 \<and> list_all P h"
  then show "5 \<le> length (takeWhile P s)"
    by (auto simp: list_all_iff takeWhile_append)
qed

text \<open>\<open>checkHash\<close> accepts exactly the strings that contain five consecutive hexadecimal
  digits anywhere: the pattern is not anchored, so neither the length nor the other bytes of
  the hash are checked.\<close>

theorem checkHash_iff:
  "checkHash s \<longleftrightarrow> (\<exists>a h b. s = a @ h @ b \<and> length h = 5 \<and> list_all is_hex h)"
proof (induction s)
  case (Cons c cs)
  show ?case
  proof
    assume "checkHash (c # cs)"
    then consider "5 \<le> length (takeWhile is_hex (c # cs))" | "checkHash cs"
      unfolding checkHash.simps by blast
    then show "\<exists>a h b. c # cs = a @ h @ b \<and> length h = 5 \<and> list_all is_hex h"
    proof cases
      case 1
      then show ?thesis unfolding takeWhile_long by (metis append_Nil)
    next
      case 2
      with Cons.IH show ?thesis by (metis append_Cons)
    qed
  next
    assume "\<exists>a h b. c # cs = a @ h @ b \<and> length h = 5 \<and> list_all is_hex h"
    then obtain a h b where s: "c # cs = a @ h @ b" and h: "length h = 5" "list_all is_hex h" by blast
    show "checkHash (c # cs)"
    proof (cases a)
      case Nil
      with s h have "5 \<le> length (takeWhile is_hex (c # cs))" unfolding takeWhile_long by auto
      then show ?thesis by simp
    next
      case (Cons _ a')
      with s h have "\<exists>a h b. cs = a @ h @ b \<and> length h = 5 \<and> list_all is_hex h" by auto
      with Cons.IH show ?thesis by simp
    qed
  qed
qed auto

end
