(* ===== verification/Claims.thy ===== *)
theory Claims
  imports Complex_Main Go_Strings
begin

text \<open>
  Token authentication (\<open>services/claims.go\<close>): the claims of a JWT as decoded JSON, the
  \<open>Claims.Get\<close> check every request passes through, and the typed view of the optional
  \<open>rules\<close> claim.
\<close>

section \<open>Claims as JSON\<close>

text \<open>A number is the exact value of the float64 it was decoded to.\<close>

datatype json =
    JNull
  | JBool bool
  | JNum rat
  | JStr string
  | JArr "json list"
  | JObj "(string, json) fmap"

text \<open>\<open>jwt.MapClaims\<close> is a Go map and may be nil; reading a nil map finds nothing.\<close>

type_synonym MapClaims = "(string, json) gomap option"

definition claim :: "MapClaims \<Rightarrow> string \<Rightarrow> json option" where
  "claim mc k = (case mc of None \<Rightarrow> None | Some m \<Rightarrow> fmlookup m k)"

text \<open>The type assertions \<open>v.(string)\<close>, \<open>v.(bool)\<close>, \<open>v.(float64)\<close>.\<close>

fun as_string :: "json option \<Rightarrow> string option" where
  "as_string (Some (JStr s)) = Some s"
| "as_string _ = None"

fun as_bool :: "json option \<Rightarrow> bool option" where
  "as_bool (Some (JBool b)) = Some b"
| "as_bool _ = None"

fun as_float :: "json option \<Rightarrow> rat option" where
  "as_float (Some (JNum q)) = Some q"
| "as_float _ = None"

definition claim_str :: "MapClaims \<Rightarrow> string \<Rightarrow> string option" where
  "claim_str mc k = as_string (claim mc k)"

text \<open>
  The conversion \<open>int(v)\<close> of a float64: truncation towards zero, and the smallest integer
  when the value does not fit (the conversion instruction of amd64).
\<close>

definition float_to_int :: "rat \<Rightarrow> int" where
  "float_to_int q =
     (let i = (if 0 \<le> q then \<lfloor>q\<rfloor> else \<lceil>q\<rceil>) in if in_int64 i then i else - (2 ^ 63))"

section \<open>Rules\<close>

record Rule =
  r_Kind :: string
  r_Scope :: string
  r_DurationSec :: int
  r_Token :: string

definition rule_of :: "(string, json) fmap \<Rightarrow> Rule" where
  "rule_of m =
     \<lparr>r_Kind = (case as_string (fmlookup m ''kind'') of Some v \<Rightarrow> v | None \<Rightarrow> []),
      r_Scope = (case as_string (fmlookup m ''scope'') of Some v \<Rightarrow> v | None \<Rightarrow> []),
      r_DurationSec = (case as_float (fmlookup m ''duration_sec'') of
                         Some v \<Rightarrow> float_to_int v | None \<Rightarrow> 0),
      r_Token = (case as_string (fmlookup m ''token'') of Some v \<Rightarrow> v | None \<Rightarrow> [])\<rparr>"

text \<open>Items that are not objects are skipped; a missing or malformed claim gives no rules.\<close>

fun rules_loop :: "json list \<Rightarrow> Rule list" where
  "rules_loop [] = []"
| "rules_loop (JObj m # items) = rule_of m # rules_loop items"
| "rules_loop (_ # items) = rules_loop items"

definition ExtractRules :: "MapClaims \<Rightarrow> Rule list" where
  "ExtractRules claims =
     (case claim claims ''rules'' of
        None \<Rightarrow> []
      | Some raw \<Rightarrow> (case raw of JArr arr \<Rightarrow> rules_loop arr | _ \<Rightarrow> []))"

section \<open>Claims.Get\<close>

record ClaimsCfg =
  c_apiKey :: string
  c_apiSecret :: string

text \<open>
  What the program reads of a parsed \<open>jwt.Token\<close>: whether its method is an HMAC method, its
  algorithm header, its claims (\<open>None\<close> when they are not \<open>MapClaims\<close>) and its \<open>Valid\<close> flag.
\<close>

record Token =
  t_HMAC :: bool
  t_Alg :: string
  t_Claims :: "MapClaims option"
  t_Valid :: bool

type_synonym Keyfunc = "Token \<Rightarrow> string outcome"

definition key_func :: "ClaimsCfg \<Rightarrow> Keyfunc" where
  "key_func s tok =
     (if \<not> t_HMAC tok then Fail (ErrMsg (''Unexpected signing method='' @ t_Alg tok))
      else Ret (c_apiSecret s))"

text \<open>
  \<open>jwt.Parse\<close> is the argument \<open>jwt_parse\<close>, and \<open>errors.Wrapf\<close> of \<open>github.com/pkg/errors\<close>
  the argument \<open>wrapf\<close>, which matters where it is applied to a nil error. The result
  \<open>Ret None\<close> is a nil map with a nil error.
\<close>

definition Get ::
  "ClaimsCfg \<Rightarrow> (string \<Rightarrow> Keyfunc \<Rightarrow> Token outcome) \<Rightarrow> (gerror option \<Rightarrow> string \<Rightarrow> gerror option) \<Rightarrow>
   string \<Rightarrow> string \<Rightarrow> MapClaims outcome" where
  "Get s jwt_parse wrapf tokenString apiKey =
     (if c_apiKey s = [] \<and> c_apiSecret s = [] then Ret (Some fmempty)
      else if tokenString = [] then Fail (ErrMsg ''failed to get token'')
      else if c_apiKey s \<noteq> apiKey then Fail (ErrMsg ''wrong api key'')
      else and_then (wrap_err ''failed to parse token'' (jwt_parse tokenString (key_func s))) (\<lambda>token.
        case t_Claims token of
          Some claims \<Rightarrow>
            if t_Valid token then Ret claims
            else (case wrapf None ''failed to validate token'' of Some e \<Rightarrow> Fail e | None \<Rightarrow> Ret None)
        | None \<Rightarrow>
            (case wrapf None ''failed to validate token'' of Some e \<Rightarrow> Fail e | None \<Rightarrow> Ret None)))"

section \<open>Correctness\<close>

text \<open>
  The documented contract of \<open>jwt.Parse\<close>: a token is returned without an error only when it
  is valid, and that means that the key function accepted it and that the signature
  verifies under the key it returned.
\<close>

definition jwt_contract ::
  "(string \<Rightarrow> Keyfunc \<Rightarrow> Token outcome) \<Rightarrow> (string \<Rightarrow> string \<Rightarrow> bool) \<Rightarrow> bool" where
  "jwt_contract jwt_parse verifies \<longleftrightarrow>
     (\<forall>ts kf tok. jwt_parse ts kf = Ret tok \<longrightarrow>
        t_Valid tok \<and> t_Claims tok \<noteq> None \<and> (\<exists>key. kf tok = Ret key \<and> verifies key ts))"

lemma Get_sound:
  assumes "jwt_contract jwt_parse verifies"
    and "Get s jwt_parse wrapf ts k = Ret mc"
  shows "(c_apiKey s = [] \<and> c_apiSecret s = [] \<and> mc = Some fmempty) \<or>
    (c_apiKey s = k \<and> ts \<noteq> [] \<and>
     (\<exists>tok. jwt_parse ts (key_func s) = Ret tok \<and> t_HMAC tok \<and> verifies (c_apiSecret s) ts \<and>
        t_Claims tok = Some mc))"
proof (cases "c_apiKey s = [] \<and> c_apiSecret s = []")
  case True
  with assms(2) show ?thesis by (simp add: Get_def)
next
  case False
  with assms(2) obtain tok where tok: "jwt_parse ts (key_func s) = Ret tok"
    and req: "ts \<noteq> []" "c_apiKey s = k"
    by (auto simp: Get_def and_then_Ret_iff split: if_splits)
  from assms(1) tok obtain key mc' where "t_Valid tok" "t_Claims tok = Some mc'"
    "key_func s tok = Ret key" "verifies key ts"
    unfolding jwt_contract_def not_None_eq by blast
  with False assms(2) tok req show ?thesis
    by (auto simp: Get_def key_func_def split: if_splits)
qed

definition sample_parse :: "string \<Rightarrow> Keyfunc \<Rightarrow> Token outcome" where
  "sample_parse ts kf =
     (let tok = \<lparr>t_HMAC = True, t_Alg = ''HS256'', t_Claims = Some (Some (fmupd ''role'' (JStr ts) fmempty)),
                 t_Valid = True\<rparr>
      in case kf tok of
           Ret key \<Rightarrow> if key = ts then Ret tok else Fail (ErrMsg ''signature is invalid'')
         | Fail e \<Rightarrow> Fail e
         | Panic p \<Rightarrow> Panic p)"

lemma sample_parse_contract: "jwt_contract sample_parse (=)"
  by (auto simp: jwt_contract_def sample_parse_def Let_def split: outcome.splits if_splits)

text \<open>With authentication configured, \<open>Get\<close> lets a request through only when it carries
  the configured API key and a non-empty token, signed with an HMAC method, whose signature
  verifies under the configured secret, and then returns that token's claims. With neither
  key nor secret configured every request passes with empty claims.\<close>

theorem Get_authenticates:
  assumes "jwt_contract jwt_parse verifies"
    and "Get s jwt_parse wrapf ts k = Ret mc"
  shows "(c_apiKey s = [] \<and> c_apiSecret s = [] \<and> mc = Some fmempty) \<or>
    (c_apiKey s = k \<and> ts \<noteq> [] \<and>
     (\<exists>tok. jwt_parse ts (key_func s) = Ret tok \<and> t_HMAC tok \<and> verifies (c_apiSecret s) ts \<and>
        t_Claims tok = Some mc))"
  by (rule Get_sound [OF assms])

theorem Get_authenticates_witness:
  "''secret'' \<noteq> [] \<and> (\<exists>tok. sample_parse ''secret'' (key_func \<lparr>c_apiKey = ''k'', c_apiSecret = ''secret''\<rparr>) = Ret tok \<and> t_HMAC tok)"
proof -
  let ?s = "\<lparr>c_apiKey = ''k'', c_apiSecret = ''secret''\<rparr>"
  have "Get ?s sample_parse (\<lambda>e m. e) ''secret'' ''k'' = Ret (Some (fmupd ''role'' (JStr ''secret'') fmempty))"
    by (simp add: Get_def sample_parse_def key_func_def Let_def)
  from Get_authenticates [OF sample_parse_contract this] show ?thesis by auto
qed

text \<open>The final validity check of \<open>Get\<close> cannot reject anything: \<open>errors.Wrapf\<close> of
  \<open>pkg/errors\<close> returns nil for a nil error, so a token that parses but is not valid is
  answered with nil claims and a nil error, which the callers take for success.\<close>

theorem Get_invalid_token_passes:
  assumes "\<And>m. wrapf None m = None" "\<not> (c_apiKey s = [] \<and> c_apiSecret s = [])"
    and "ts \<noteq> []" "jwt_parse ts (key_func s) = Ret tok" "\<not> t_Valid tok"
  shows "Get s jwt_parse wrapf ts (c_apiKey s) = Ret None"
  using assms by (auto simp: Get_def split: option.splits)

theorem Get_invalid_token_passes_witness:
  "Get \<lparr>c_apiKey = ''k'', c_apiSecret = ''x''\<rparr>
     (\<lambda>ts kf. Ret \<lparr>t_HMAC = True, t_Alg = ''HS256'', t_Claims = Some None, t_Valid = False\<rparr>)
     (\<lambda>e m. e) ''t'' (c_apiKey \<lparr>c_apiKey = ''k'', c_apiSecret = ''x''\<rparr>) = Ret None"
  by (rule Get_invalid_token_passes
      [where tok = "\<lparr>t_HMAC = True, t_Alg = ''HS256'', t_Claims = Some None, t_Valid = False\<rparr>"]) simp_all

text \<open>\<open>ExtractRules\<close> returns one rule per object of the \<open>rules\<close> array, in order, with the
  zero value for every field that is missing or has another JSON type, and no rule for any
  other item or any other shape of the claim.\<close>

theorem ExtractRules_spec:
  "ExtractRules mc =
     (case claim mc ''rules'' of
        Some (JArr arr) \<Rightarrow> map rule_of [m. JObj m \<leftarrow> arr]
      | _ \<Rightarrow> [])"
proof -
  have "rules_loop arr = map rule_of [m. JObj m \<leftarrow> arr]" for arr
    by (induction arr rule: rules_loop.induct) auto
  then show ?thesis
    by (simp add: ExtractRules_def split: option.split json.split)
qed

end
