(* ===== verification/Subnets.thy ===== *)
theory Subnets
  imports Go_Strings "HOL-Library.Word"
begin

text \<open>
  Client addresses: \<open>sameSubnet\<close> and \<open>parseClientIP\<close> of \<open>services/web.go\<close> and \<open>subnetKey\<close> of
  \<open>services/session_limiter.go\<close>, over the byte representation of \<open>net.IP\<close>. The textual
  parser \<open>net.ParseIP\<close> and the printer \<open>IP.String\<close> are arguments, collected in a record;
  splitting off a port, the conversion to four bytes and masking are modelled.
\<close>

unbundle bit_operations_syntax

type_synonym IP = "8 word list"

record NetLib =
  n_ParseIP :: "string \<Rightarrow> IP option"
  n_String :: "IP \<Rightarrow> string"

section \<open>Package net\<close>

text \<open>\<open>net.SplitHostPort\<close>: the host, or \<open>None\<close> for an error.\<close>

definition SplitHost :: "string \<Rightarrow> string option" where
  "SplitHost hp =
     (case last_index (CHR '':'') hp of
        None \<Rightarrow> None
      | Some i \<Rightarrow>
          if hp \<noteq> [] \<and> hd hp = CHR ''['' then
            (case index_byte (CHR '']'') hp of
               None \<Rightarrow> None
             | Some e \<Rightarrow>
                 if Suc e = i \<and> CHR ''['' \<notin> set (drop 1 hp) \<and> CHR '']'' \<notin> set (drop (Suc e) hp)
                 then Some (drop 1 (take e hp)) else None)
          else let host = take i hp in
            if CHR '':'' \<in> set host \<or> CHR ''['' \<in> set hp \<or> CHR '']'' \<in> set hp then None
            else Some host)"

definition v4InV6Prefix :: IP where
  "v4InV6Prefix = replicate 10 0 @ [0xff, 0xff]"

definition To4 :: "IP \<Rightarrow> IP option" where
  "To4 ip =
     (if length ip = 4 then Some ip
      else if length ip = 16 \<and> take 12 ip = v4InV6Prefix then Some (drop 12 ip)
      else None)"

text \<open>\<open>net.CIDRMask(ones, bits)\<close> for a number of ones that is a multiple of eight.\<close>

definition CIDRMask :: "nat \<Rightarrow> nat \<Rightarrow> IP" where
  "CIDRMask ones bits = replicate (ones div 8) 0xff @ replicate (bits div 8 - ones div 8) 0"

definition Mask :: "IP \<Rightarrow> IP \<Rightarrow> IP option" where
  "Mask ip msk =
     (let msk1 = (if length msk = 16 \<and> length ip = 4 \<and> take 12 msk = replicate 12 0xff
                   then drop 12 msk else msk);
          ip1 = (if length msk1 = 4 \<and> length ip = 16 \<and> take 12 ip = v4InV6Prefix
                 then drop 12 ip else ip)
      in if length ip1 \<noteq> length msk1 then None
         else Some (map2 (\<lambda>x y. x AND y) ip1 msk1))"

definition EqualIP :: "IP \<Rightarrow> IP \<Rightarrow> bool" where
  "EqualIP a b \<longleftrightarrow>
     a = b \<or>
     (length a = 4 \<and> length b = 16 \<and> take 12 b = v4InV6Prefix \<and> a = drop 12 b) \<or>
     (length a = 16 \<and> length b = 4 \<and> take 12 a = v4InV6Prefix \<and> drop 12 a = b)"

text \<open>A nil address is the empty slice.\<close>

definition bytes_of :: "IP option \<Rightarrow> IP" where
  "bytes_of ip = (case ip of None \<Rightarrow> [] | Some b \<Rightarrow> b)"

section \<open>The functions of the program\<close>

definition parseClientIP :: "NetLib \<Rightarrow> string \<Rightarrow> IP option" where
  "parseClientIP net s0 =
     (let s = trim_space s0;
          s1 = (case SplitHost s of Some host \<Rightarrow> host | None \<Rightarrow> s)
      in n_ParseIP net s1)"

definition sameSubnet :: "NetLib \<Rightarrow> string \<Rightarrow> string \<Rightarrow> bool" where
  "sameSubnet net a b =
     (case (parseClientIP net a, parseClientIP net b) of
        (Some ipA, Some ipB) \<Rightarrow>
          (case (To4 ipA, To4 ipB) of
             (Some v4a, Some v4b) \<Rightarrow>
               EqualIP (bytes_of (Mask v4a (CIDRMask 24 32))) (bytes_of (Mask v4b (CIDRMask 24 32)))
           | (None, None) \<Rightarrow>
               EqualIP (bytes_of (Mask ipA (CIDRMask 64 128))) (bytes_of (Mask ipB (CIDRMask 64 128)))
           | _ \<Rightarrow> False)
      | _ \<Rightarrow> True)"

definition subnetKey :: "NetLib \<Rightarrow> string \<Rightarrow> string" where
  "subnetKey net raw =
     (let s = trim_space raw;
          s1 = (case SplitHost s of Some host \<Rightarrow> host | None \<Rightarrow> s)
      in case n_ParseIP net s1 of
           None \<Rightarrow> raw
         | Some ip \<Rightarrow>
             (case To4 ip of
                Some v4 \<Rightarrow> n_String net (bytes_of (Mask v4 (CIDRMask 24 32)))
              | None \<Rightarrow> n_String net (bytes_of (Mask ip (CIDRMask 64 128)))))"

section \<open>Subnets\<close>

text \<open>The documented behaviour of the two library functions: an address parses to 16 bytes,
  and canonical addresses that are equal as text are equal.\<close>

definition canonical :: "IP \<Rightarrow> bool" where
  "canonical ip \<longleftrightarrow> length ip = 4 \<or> (length ip = 16 \<and> take 12 ip \<noteq> v4InV6Prefix)"

definition net_contract :: "NetLib \<Rightarrow> bool" where
  "net_contract net \<longleftrightarrow>
     (\<forall>s ip. n_ParseIP net s = Some ip \<longrightarrow> length ip = 16) \<and>
     (\<forall>a b. canonical a \<longrightarrow> canonical b \<longrightarrow> n_String net a = n_String net b \<longrightarrow> a = b)"

lemma word_and_ff [simp]: "(x :: 8 word) AND 255 = x"
proof -
  have "(255 :: 8 word) = - 1" by simp
  then show ?thesis by (metis and.right_neutral)
qed

lemma map2_and_prefix:
  "length ip = m + n \<Longrightarrow> map2 (\<lambda>x y. x AND y) ip (replicate m 255 @ replicate n 0) =
     take m ip @ replicate n (0 :: 8 word)"
proof (induction m arbitrary: ip)
  case 0
  then show ?case by (induction n arbitrary: ip) (auto simp: length_Suc_conv)
next
  case (Suc m)
  then show ?case by (auto simp: length_Suc_conv)
qed

lemma Mask_same_length:
  "length ip = length msk \<Longrightarrow> length msk = 4 \<or> length msk = 16 \<Longrightarrow>
   Mask ip msk = Some (map2 (\<lambda>x y. x AND y) ip msk)"
  by (auto simp: Mask_def Let_def)

lemma Mask_v4: "length ip = 4 \<Longrightarrow> Mask ip (CIDRMask 24 32) = Some (take 3 ip @ [0])"
  using map2_and_prefix [of ip 3 1] by (subst Mask_same_length) (simp_all add: CIDRMask_def)

lemma Mask_v6:
  "length ip = 16 \<Longrightarrow> Mask ip (CIDRMask 64 128) = Some (take 8 ip @ replicate 8 0)"
  using map2_and_prefix [of ip 8 8] by (subst Mask_same_length) (simp_all add: CIDRMask_def)

lemma To4_length: "To4 ip = Some v4 \<Longrightarrow> length v4 = 4"
  by (auto simp: To4_def split: if_splits)

lemma EqualIP_same_length: "length a = length b \<Longrightarrow> EqualIP a b \<longleftrightarrow> a = b"
  by (auto simp: EqualIP_def)

text \<open>The masked form of a parsed address: what both functions compare.\<close>

definition subnet :: "IP \<Rightarrow> IP" where
  "subnet ip = (case To4 ip of Some v4 \<Rightarrow> take 3 v4 @ [0] | None \<Rightarrow> take 8 ip @ replicate 8 0)"

lemma subnet_canonical: "length ip = 16 \<Longrightarrow> canonical (subnet ip)"
proof (cases "To4 ip")
  case None
  have "nth v4InV6Prefix 10 = 0xff" by (simp add: v4InV6Prefix_def nth_append)
  moreover assume "length ip = 16"
  then have "nth (take 12 (take 8 ip @ replicate 8 0)) 10 = 0" by (simp add: nth_append)
  ultimately have "take 12 (take 8 ip @ replicate 8 0) \<noteq> v4InV6Prefix" by force
  with None \<open>length ip = 16\<close> show ?thesis by (simp add: canonical_def subnet_def)
qed (simp add: canonical_def subnet_def To4_length)

lemma subnetKey_subnet:
  assumes "net_contract net" "parseClientIP net a = Some ip"
  shows "subnetKey net a = n_String net (subnet ip) \<and> length ip = 16"
proof -
  have len: "length ip = 16"
    using assms by (auto simp: net_contract_def parseClientIP_def Let_def)
  then show ?thesis
    using assms(2)
    by (auto simp: subnetKey_def parseClientIP_def Let_def subnet_def Mask_v4 [OF To4_length]
        Mask_v6 bytes_of_def split: option.splits)
qed

lemma lengths_differ: "length xs \<noteq> length ys \<Longrightarrow> xs \<noteq> ys"
  by auto

lemma sameSubnet_subnet:
  assumes "parseClientIP net a = Some ipA" "parseClientIP net b = Some ipB"
    and "length ipA = 16" "length ipB = 16"
  shows "sameSubnet net a b \<longleftrightarrow> subnet ipA = subnet ipB"
proof (cases "To4 ipA"; cases "To4 ipB")
  fix x y
  assume "To4 ipA = Some x" "To4 ipB = Some y"
  with assms show ?thesis
    by (simp add: sameSubnet_def subnet_def bytes_of_def Mask_v4 To4_length EqualIP_same_length)
next
  fix x
  assume "To4 ipA = Some x" "To4 ipB = None"
  moreover from this(1) have "length x = 4" by (rule To4_length)
  then have "take 3 x @ [0] \<noteq> take 8 ipB @ replicate 8 0"
    using assms(4) by (intro lengths_differ) simp
  ultimately show ?thesis using assms by (auto simp: sameSubnet_def subnet_def)
next
  fix y
  assume "To4 ipA = None" "To4 ipB = Some y"
  moreover from this(2) have "length y = 4" by (rule To4_length)
  then have "take 3 y @ [0] \<noteq> take 8 ipA @ replicate 8 0"
    using assms(3) by (intro lengths_differ) simp
  ultimately show ?thesis using assms by (auto simp: sameSubnet_def subnet_def)
next
  assume "To4 ipA = None" "To4 ipB = None"
  with assms show ?thesis
    by (simp add: sameSubnet_def subnet_def bytes_of_def Mask_v6 EqualIP_same_length)
qed

text \<open>C33: The limiter's notion of a distinct client and the session check's notion of the same
  subnet agree: for two addresses that parse, the subnet keys are equal exactly when
  \<open>sameSubnet\<close> holds.\<close>

theorem subnetKey_iff_sameSubnet:
  assumes "net_contract net" "parseClientIP net a \<noteq> None" "parseClientIP net b \<noteq> None"
  shows "subnetKey net a = subnetKey net b \<longleftrightarrow> sameSubnet net a b"
proof -
  obtain ipA ipB where ips: "parseClientIP net a = Some ipA" "parseClientIP net b = Some ipB"
    using assms(2,3) by auto
  note keyA = subnetKey_subnet [OF assms(1) ips(1)] and keyB = subnetKey_subnet [OF assms(1) ips(2)]
  from assms(1) have inj: "canonical x \<Longrightarrow> canonical y \<Longrightarrow> n_String net x = n_String net y \<Longrightarrow> x = y"
    for x y by (simp add: net_contract_def)
  have "n_String net (subnet ipA) = n_String net (subnet ipB) \<longleftrightarrow> subnet ipA = subnet ipB"
    using inj [OF subnet_canonical subnet_canonical, of ipA ipB] keyA keyB by auto
  with keyA keyB sameSubnet_subnet [OF ips] show ?thesis by simp
qed

definition sample_net :: NetLib where
  "sample_net = \<lparr>n_ParseIP = (\<lambda>s. if length s = 4 then Some (v4InV6Prefix @ map (\<lambda>c. of_nat (code_of c)) s) else None),
                 n_String = map (\<lambda>w. char_of (unat w))\<rparr>"

lemma sample_net_contract: "net_contract sample_net"
proof -
  have "inj (\<lambda>w :: 8 word. char_of (unat w) :: char)"
  proof (rule injI)
    fix x y :: "8 word"
    assume "(char_of (unat x) :: char) = char_of (unat y)"
    then have "code_of (char_of (unat x)) = code_of (char_of (unat y))" by simp
    then have "unat x mod 256 = unat y mod 256" by simp
    moreover have "unat x < 256" "unat y < 256" using unsigned_less [of x] unsigned_less [of y] by simp_all
    ultimately show "x = y" by (simp add: word_unat_eq_iff)
  qed
  then have "a = b" if "map (\<lambda>w. char_of (unat w) :: char) a = map (\<lambda>w. char_of (unat w)) b" for a b :: IP
    using that by (metis map_injective)
  then show ?thesis
    by (auto simp: net_contract_def sample_net_def v4InV6Prefix_def split: if_splits)
qed

theorem subnetKey_iff_sameSubnet_witness:
  "subnetKey sample_net ''abcd'' = subnetKey sample_net ''abcx'' \<longleftrightarrow> sameSubnet sample_net ''abcd'' ''abcx''"
  by (rule subnetKey_iff_sameSubnet [OF sample_net_contract])
    (simp_all add: parseClientIP_def sample_net_def trim_space_def is_space_def SplitHost_def)

end
