(* ===== verification/Service_Location.thy ===== *)
theory Service_Location
  imports K8s URL_Parser Claims Subnets
begin

text \<open>
  Locating a backend (\<open>services/service_location.go\<close>): the endpoints of the service, less the
  ignored addresses, are distributed over the info hashes, by address or by node and address;
  a location is probed, and an address that fails its probe is ignored and another one tried.

  What the code calls outside this file (the endpoint and node caches, the HTTP client, the
  random numbers, the environment and the \<open>lazymap\<close> package) is the record \<open>SLib\<close>. These calls
  run in a world that every operation threads through, as the caches change with time.

  Indices and interval products are at most \<open>1048575000\<close> in absolute value, so the 64-bit
  arithmetic of the source does not wrap and is written over \<open>int\<close>.
\<close>

record Location =
  lo_HTTP :: int
  lo_Probe :: int
  lo_IP :: "IP option"
  lo_Unavailable :: bool

definition unavailable :: Location where
  "unavailable = \<lparr>lo_HTTP = 0, lo_Probe = 0, lo_IP = None, lo_Unavailable = True\<rparr>"

record 'w SLib =
  e_net :: NetLib
  e_ignore_get :: "string \<Rightarrow> bool outcome \<Rightarrow> 'w \<Rightarrow> bool outcome \<times> 'w"
  e_ignore_status :: "string \<Rightarrow> 'w \<Rightarrow> bool"
  e_endpoints :: "string \<Rightarrow> 'w \<Rightarrow> Endpoints outcome \<times> 'w"
  e_nodes :: "'w \<Rightarrow> NodeStat list outcome \<times> 'w"
  e_nn :: string
  e_rand :: "nat \<Rightarrow> 'w \<Rightarrow> nat \<times> 'w"
  e_probe_map :: "(bool, 'w) lazymap"
  e_NewRequest :: "string \<Rightarrow> unit outcome"
  e_Do :: "string \<Rightarrow> 'w \<Rightarrow> int outcome \<times> 'w"
  e_Getenv :: "string \<Rightarrow> string"
  e_loc_map :: "(Location, 'w) lazymap"

text \<open>\<open>net.IP.String\<close> of the nil address is \<open>"<nil>"\<close>.\<close>

definition ip_string :: "'w SLib \<Rightarrow> IP option \<Rightarrow> string" where
  "ip_string e ip = (case ip of None \<Rightarrow> ''<nil>'' | Some a \<Rightarrow> n_String (e_net e) a)"

section \<open>Probing and ignoring\<close>

definition probe_load :: "'w SLib \<Rightarrow> Location \<Rightarrow> 'w \<Rightarrow> bool outcome \<times> 'w" where
  "probe_load e l w =
     (let probePort = (if lo_Probe l = 0 then lo_HTTP l else lo_Probe l);
          url = ''http://'' @ ip_string e (lo_IP l) @ '':'' @ show_int probePort
      in case e_NewRequest e url of
           Ret _ \<Rightarrow>
             (let (r, w') = e_Do e url w in
              (and_then r (\<lambda>status.
                 if 500 \<le> status then Fail (ErrMsg (''unexpected status code: '' @ show_int status))
                 else Ret True), w'))
         | Fail x \<Rightarrow> (Fail x, w)
         | Panic k \<Rightarrow> (Panic k, w))"

definition ProbeChecker_Get :: "'w SLib \<Rightarrow> Location \<Rightarrow> 'w \<Rightarrow> bool outcome \<times> 'w" where
  "ProbeChecker_Get e l = e_probe_map e (ip_string e (lo_IP l)) (probe_load e l)"

definition Ignore :: "'w SLib \<Rightarrow> string \<Rightarrow> 'w \<Rightarrow> bool \<times> 'w" where
  "Ignore e ip w =
     (let (r, w') = e_ignore_get e ip (Ret True) w in
      (case r of Ret b \<Rightarrow> b | _ \<Rightarrow> False, w'))"

definition IsIgnored :: "'w SLib \<Rightarrow> string \<Rightarrow> 'w \<Rightarrow> bool" where
  "IsIgnored e ip w = e_ignore_status e ip w"

fun filter_ignored_loop ::
  "'w SLib \<Rightarrow> 'w \<Rightarrow> EndpointAddress list \<Rightarrow> EndpointAddress list \<Rightarrow> EndpointAddress list" where
  "filter_ignored_loop e w [] res = res"
| "filter_ignored_loop e w (a # ads) res =
     (if IsIgnored e (ip_string e (n_ParseIP (e_net e) (a_IP a))) w
      then filter_ignored_loop e w ads res else filter_ignored_loop e w ads (res @ [a]))"

definition filterAddressesByIgnore ::
  "'w SLib \<Rightarrow> 'w \<Rightarrow> EndpointAddress list \<Rightarrow> EndpointAddress list" where
  "filterAddressesByIgnore e w ads = filter_ignored_loop e w ads []"

fun getPort :: "EndpointPort list \<Rightarrow> string \<Rightarrow> int" where
  "getPort [] name = 0"
| "getPort (p # ps) name = (if p_Name p = name then p_Port p else getPort ps name)"

definition addressToLocation :: "NetLib \<Rightarrow> EndpointAddress option \<Rightarrow> EndpointSubset \<Rightarrow> Location" where
  "addressToLocation net a sub =
     (case a of
        None \<Rightarrow> unavailable
      | Some a' \<Rightarrow>
          \<lparr>lo_HTTP = getPort (es_Ports sub) ''http'', lo_Probe = getPort (es_Ports sub) ''httpprobe'',
           lo_IP = n_ParseIP net (a_IP a'), lo_Unavailable = False\<rparr>)"

section \<open>Distribution\<close>

text \<open>\<open>sha1R\<close>, anchored at both ends.\<close>

definition sha1R :: "string \<Rightarrow> bool" where
  "sha1R s \<longleftrightarrow> 5 \<le> length s \<and> length s \<le> 40 \<and> list_all is_hex s"

text \<open>\<open>src.InfoHash[0:5]\<close> parsed as a hexadecimal number, times 1000.\<close>

definition hash_num :: "string \<Rightarrow> int outcome" where
  "hash_num infoHash =
     (if length infoHash < 5 then Panic IndexOutOfRange
      else case parse_int 16 (take 5 infoHash) of
             None \<Rightarrow> Fail (ErrWrap (''failed to parse hex from infohash='' @ infoHash) (ErrMsg ''invalid syntax''))
           | Some num64 \<Rightarrow> Ret (num64 * 1000))"

definition hash_total :: int where
  "hash_total = 1048575 * 1000"

text \<open>The first address whose interval ends after \<open>num\<close>; \<open>base\<close> is where the intervals start.\<close>

fun addr_loop :: "int \<Rightarrow> int \<Rightarrow> int \<Rightarrow> nat \<Rightarrow> EndpointAddress list \<Rightarrow> EndpointAddress option" where
  "addr_loop num base interval i [] = None"
| "addr_loop num base interval i (a # ads) =
     (if num < base + (int i + 1) * interval then Some a else addr_loop num base interval (Suc i) ads)"

text \<open>The addresses are sorted by IP; where two addresses have the same IP the order of
  \<open>sort.Slice\<close> is not specified and the stable one is taken.\<close>

definition distributeByHash ::
  "string \<Rightarrow> EndpointAddress list \<Rightarrow> EndpointAddress option outcome" where
  "distributeByHash infoHash ads =
     (let sads = sort_key a_IP ads in
      and_then (hash_num infoHash) (\<lambda>num.
        if length sads = 0 then Panic DivideByZero
        else Ret (addr_loop num 0 (quot hash_total (int (length sads))) 0 sads)))"

fun node_names :: "EndpointAddress list \<Rightarrow> string list outcome" where
  "node_names [] = Ret []"
| "node_names (a # ads) =
     and_then (deref (a_NodeName a)) (\<lambda>n. and_then (node_names ads) (\<lambda>ns. Ret (n # ns)))"

fun role_loop :: "string \<Rightarrow> NodeStat list \<Rightarrow> string list \<Rightarrow> string list \<Rightarrow> string list" where
  "role_loop role ns [] res = res"
| "role_loop role ns (n # nodes) res =
     role_loop role ns nodes
       (res @ map (\<lambda>_. n) (filter (\<lambda>nss. n = ns_Name nss \<and> IsAllowed nss role) ns))"

definition filterNodesByRole ::
  "'w SLib \<Rightarrow> string list \<Rightarrow> MapClaims \<Rightarrow> 'w \<Rightarrow> string list outcome \<times> 'w" where
  "filterNodesByRole e nodes claims w =
     (if claims = None then (Ret nodes, w)
      else case claim_str claims ''role'' of
             None \<Rightarrow> (Ret nodes, w)
           | Some role \<Rightarrow>
               if role = [] then (Ret nodes, w)
               else let (r, w') = e_nodes e w in
                 (and_then (wrap_err ''failed to get nodes'' r) (\<lambda>ns. Ret (role_loop role ns nodes [])), w'))"

fun node_loop ::
  "int \<Rightarrow> int \<Rightarrow> EndpointAddress list \<Rightarrow> nat \<Rightarrow> string list \<Rightarrow> EndpointAddress option outcome" where
  "node_loop num nodeInterval sads i [] = Ret None"
| "node_loop num nodeInterval sads i (n # ns) =
     (let nas = filter (\<lambda>a. a_NodeName a = Some n) sads in
      if length nas = 0 then Panic DivideByZero
      else let aInterval = quot nodeInterval (int (length nas)) in
        case addr_loop num (int i * nodeInterval) aInterval 0 nas of
          Some a \<Rightarrow> Ret (Some a)
        | None \<Rightarrow> node_loop num nodeInterval sads (Suc i) ns)"

text \<open>With no node left, \<open>errors.Wrapf\<close> is applied to a nil error and returns nil: the result is
  no address and no error.\<close>

definition distributeByNodeHash ::
  "'w SLib \<Rightarrow> string \<Rightarrow> EndpointAddress list \<Rightarrow> MapClaims \<Rightarrow> 'w \<Rightarrow>
   EndpointAddress option outcome \<times> 'w" where
  "distributeByNodeHash e infoHash ads claims w =
     (let sads = sort_key a_IP ads in
      case node_names sads of
        Panic k \<Rightarrow> (Panic k, w)
      | Fail x \<Rightarrow> (Fail x, w)
      | Ret names \<Rightarrow>
          (let (r, w') = filterNodesByRole e (sort (remdups names)) claims w in
           (and_then (wrap_err ''failed to filter nodes by role'' r) (\<lambda>nodes.
            and_then (hash_num infoHash) (\<lambda>num.
              if length nodes = 0 then Ret None
              else node_loop num (quot hash_total (int (length nodes))) sads 0 nodes)), w')))"

section \<open>Resolution\<close>

definition pick_address ::
  "'w SLib \<Rightarrow> ServiceConfig \<Rightarrow> string \<Rightarrow> MapClaims \<Rightarrow> EndpointAddress list \<Rightarrow> 'w \<Rightarrow>
   EndpointAddress option outcome \<times> 'w" where
  "pick_address e cfg infoHash claims ads w =
     (if \<not> sha1R infoHash then
        (let (i, w') = e_rand e (length ads) w in
         (if i < length ads then Ret (Some (ads ! i)) else Panic IndexOutOfRange, w'))
      else if sc_Distribution cfg = Hash then (distributeByHash infoHash ads, w)
      else if sc_Distribution cfg = NodeHash then distributeByNodeHash e infoHash ads claims w
      else (Ret None, w))"

text \<open>\<open>*a.NodeName == s.nn\<close> over the addresses; a nil name panics.\<close>

fun local_addresses :: "string \<Rightarrow> EndpointAddress list \<Rightarrow> EndpointAddress list outcome" where
  "local_addresses nn [] = Ret []"
| "local_addresses nn (a # ads) =
     and_then (deref (a_NodeName a)) (\<lambda>n.
     and_then (local_addresses nn ads) (\<lambda>las. Ret (if n = nn then a # las else las)))"

text \<open>The node name is compared before \<open>PreferLocalNode\<close> is tested.\<close>

definition prefer_local ::
  "string \<Rightarrow> ServiceConfig \<Rightarrow> string \<Rightarrow> EndpointAddress list \<Rightarrow> EndpointAddress option \<Rightarrow>
   EndpointAddress option outcome" where
  "prefer_local nn cfg infoHash ads a =
     (case a of
        None \<Rightarrow> Ret None
      | Some a' \<Rightarrow>
          if nn = [] then Ret a
          else and_then (deref (a_NodeName a')) (\<lambda>n.
            if n \<noteq> nn \<and> sc_PreferLocalNode cfg then
              and_then (local_addresses nn ads) (\<lambda>las.
                if 0 < length las then wrap_err ''failed to distribute locally'' (distributeByHash infoHash las)
                else Ret a)
            else Ret a))"

definition getKubernetes ::
  "'w SLib \<Rightarrow> ServiceConfig \<Rightarrow> string \<Rightarrow> MapClaims \<Rightarrow> 'w \<Rightarrow> Location outcome \<times> 'w" where
  "getKubernetes e cfg infoHash claims w =
     (let (r, w1) = e_endpoints e (sc_Name cfg) w in
      case wrap_err ''failed to get endpoints'' r of
        Fail x \<Rightarrow> (Fail x, w1)
      | Panic k \<Rightarrow> (Panic k, w1)
      | Ret subsets \<Rightarrow>
          (case subsets of
             [] \<Rightarrow> (Panic IndexOutOfRange, w1)
           | sub # _ \<Rightarrow>
               (let ads = filterAddressesByIgnore e w1 (es_Addresses sub) in
                if length ads = 0 then (Ret unavailable, w1)
                else let (q, w2) = pick_address e cfg infoHash claims ads w1 in
                  (and_then (wrap_err ''failed to distribute'' q) (\<lambda>a.
                   and_then (prefer_local (e_nn e) cfg infoHash ads a) (\<lambda>a'.
                     Ret (addressToLocation (e_net e) a' sub))), w2))))"

function probe_loop ::
  "'w SLib \<Rightarrow> ServiceConfig \<Rightarrow> string \<Rightarrow> MapClaims \<Rightarrow> nat \<Rightarrow> 'w \<Rightarrow> Location outcome \<times> 'w" where
  "probe_loop e cfg infoHash claims i w =
     (if 2 < i then (Ret unavailable, w)
      else case getKubernetes e cfg infoHash claims w of
        (Fail x, w1) \<Rightarrow> (Fail x, w1)
      | (Panic k, w1) \<Rightarrow> (Panic k, w1)
      | (Ret l, w1) \<Rightarrow>
          (if lo_Unavailable l then (Ret l, w1)
           else case ProbeChecker_Get e l w1 of
             (Ret _, w2) \<Rightarrow> (Ret l, w2)
           | (Panic k, w2) \<Rightarrow> (Panic k, w2)
           | (Fail x, w2) \<Rightarrow>
               probe_loop e cfg infoHash claims (Suc i) (snd (Ignore e (ip_string e (lo_IP l)) w2))))"
  by pat_completeness auto

termination
  by (relation "measure (\<lambda>(e, cfg, infoHash, claims, i, w). 3 - i)") auto

declare probe_loop.simps [simp del]

definition getKubernetesWithProbeCheck ::
  "'w SLib \<Rightarrow> ServiceConfig \<Rightarrow> string \<Rightarrow> MapClaims \<Rightarrow> 'w \<Rightarrow> Location outcome \<times> 'w" where
  "getKubernetesWithProbeCheck e cfg infoHash claims w = probe_loop e cfg infoHash claims 0 w"

definition env_name :: "ServiceConfig \<Rightarrow> string" where
  "env_name cfg = replace_byte (CHR ''-'') (CHR ''_'') (to_upper (sc_Name cfg))"

definition getEnvironment :: "'w SLib \<Rightarrow> ServiceConfig \<Rightarrow> Location outcome" where
  "getEnvironment e cfg =
     (let portName = env_name cfg @ ''_SERVICE_PORT''; hostName = env_name cfg @ ''_SERVICE_HOST'' in
      case parse_int 10 (e_Getenv e portName) of
        None \<Rightarrow> Fail (ErrWrap (''failed to parse environment variable '' @ portName) (ErrMsg ''invalid syntax''))
      | Some port \<Rightarrow>
          (case n_ParseIP (e_net e) (e_Getenv e hostName) of
             None \<Rightarrow> Fail (ErrMsg (''failed to parse environment variable '' @ hostName))
           | Some ip \<Rightarrow>
               Ret \<lparr>lo_HTTP = port, lo_Probe = 0, lo_IP = Some ip, lo_Unavailable = False\<rparr>))"

definition location_load ::
  "'w SLib \<Rightarrow> ServiceConfig \<Rightarrow> string \<Rightarrow> MapClaims \<Rightarrow> 'w \<Rightarrow> Location outcome \<times> 'w" where
  "location_load e cfg infoHash claims w =
     (if sc_EndpointsProvider cfg = Kubernetes then getKubernetesWithProbeCheck e cfg infoHash claims w
      else if sc_EndpointsProvider cfg = Environment then (getEnvironment e cfg, w)
      else (Fail (ErrMsg (''unknown endpoints provider: '' @ sc_EndpointsProvider cfg)), w))"

definition location_key :: "ServiceConfig \<Rightarrow> string \<Rightarrow> MapClaims \<Rightarrow> string" where
  "location_key cfg infoHash claims =
     sc_Name cfg @ infoHash @ (case claim_str claims ''role'' of Some role \<Rightarrow> role | None \<Rightarrow> [])"

definition ServiceLocation_Get ::
  "'w SLib \<Rightarrow> ServiceConfig option \<Rightarrow> Source \<Rightarrow> MapClaims \<Rightarrow> 'w \<Rightarrow> Location outcome \<times> 'w" where
  "ServiceLocation_Get e cfg src claims w =
     (case cfg of
        None \<Rightarrow> (Panic NilDeref, w)
      | Some c \<Rightarrow> e_loc_map e (location_key c (s_InfoHash src) claims)
                   (location_load e c (s_InfoHash src) claims) w)"

definition GetFallback ::
  "'w SLib \<Rightarrow> ServiceConfig option \<Rightarrow> Source \<Rightarrow> IP option \<Rightarrow> MapClaims \<Rightarrow> 'w \<Rightarrow> Location outcome \<times> 'w" where
  "GetFallback e cfg src excludeIP claims w =
     (case cfg of
        None \<Rightarrow> (Panic NilDeref, w)
      | Some c \<Rightarrow>
          if sc_EndpointsProvider c = Environment then (getEnvironment e c, w)
          else let (_, w1) = Ignore e (ip_string e excludeIP) w;
                   (r, w2) = getKubernetes e c (s_InfoHash src) claims w1 in
            (and_then (wrap_err ''failed to resolve fallback'' r) (\<lambda>loc.
               if lo_Unavailable loc
               then Fail (ErrMsg (''no available pods after excluding '' @ ip_string e excludeIP))
               else Ret loc), w2))"

section \<open>Address pickers\<close>

text \<open>
  What the resolution relies on in a distribution: an address that is picked is one of the
  addresses it was given.
\<close>

locale address_picker =
  fixes pick :: "EndpointAddress list \<Rightarrow> EndpointAddress option outcome"
  assumes pick_in: "pick ads = Ret (Some a) \<Longrightarrow> a \<in> set ads"
begin

lemma located:
  assumes "pick ads = Ret a" "set ads \<subseteq> S"
  shows "addressToLocation net a sub = unavailable \<or>
     (\<exists>x\<in>S. addressToLocation net a sub = addressToLocation net (Some x) sub)"
  using assms by (cases a) (auto simp: addressToLocation_def dest: pick_in)

lemma pick_from: "pick ads = Ret (Some a) \<Longrightarrow> set ads \<subseteq> S \<Longrightarrow> a \<in> S"
  using pick_in by blast

end

lemma addr_loop_in: "addr_loop num base iv i ads = Some a \<Longrightarrow> a \<in> set ads"
  by (induction num base iv i ads rule: addr_loop.induct) (auto split: if_splits)

lemma node_loop_in:
  "node_loop num nI sads i ns = Ret (Some a) \<Longrightarrow> a \<in> set sads \<and> (\<exists>n. n \<in> set ns \<and> a_NodeName a = Some n)"
  by (induction num nI sads i ns rule: node_loop.induct)
    (auto simp: Let_def split: if_splits option.splits dest!: addr_loop_in)

interpretation dh: address_picker "distributeByHash infoHash" for infoHash
  by unfold_locales (auto simp: distributeByHash_def Let_def outcome_simps split: if_splits dest: addr_loop_in)

lemma distributeByNodeHash_cases:
  assumes "fst (distributeByNodeHash e infoHash ads claims w) = Ret (Some a)"
  obtains names nodes where "node_names (sort_key a_IP ads) = Ret names"
    "fst (filterNodesByRole e (sort (remdups names)) claims w) = Ret nodes"
    "a \<in> set ads" "\<exists>n. n \<in> set nodes \<and> a_NodeName a = Some n"
  using assms
  by (auto simp: distributeByNodeHash_def Let_def case_prod_beta outcome_simps
      split: outcome.splits if_splits dest!: node_loop_in)

interpretation dn: address_picker "\<lambda>ads. fst (distributeByNodeHash e infoHash ads claims w)"
  for e infoHash claims w
  by unfold_locales (auto elim: distributeByNodeHash_cases)

lemma local_addresses_eq:
  "local_addresses nn ads = Ret las \<Longrightarrow> las = filter (\<lambda>a. a_NodeName a = Some nn) ads"
proof (induction ads arbitrary: las)
  case (Cons a ads)
  then show ?case by (cases "a_NodeName a") (auto simp: outcome_simps split: if_splits)
qed simp

interpretation pl: address_picker
  "\<lambda>ads. and_then (fst (pick_address e cfg infoHash claims ads w)) (prefer_local nn cfg infoHash ads)"
  for e cfg infoHash claims w nn
proof
  fix ads :: "EndpointAddress list" and a
  assume "and_then (fst (pick_address e cfg infoHash claims ads w)) (prefer_local nn cfg infoHash ads) = Ret (Some a)"
  then obtain a0 where a0: "fst (pick_address e cfg infoHash claims ads w) = Ret a0"
      "prefer_local nn cfg infoHash ads a0 = Ret (Some a)"
    by (auto simp: outcome_simps)
  have "x \<in> set ads" if "a0 = Some x" for x
    using a0(1) that dh.pick_in dn.pick_in
    by (auto simp: pick_address_def case_prod_beta Let_def split: if_splits)
  then show "a \<in> set ads"
    using a0(2) dh.pick_from
    by (auto simp: prefer_local_def outcome_simps split: option.splits if_splits
        dest!: local_addresses_eq dh.pick_in)
qed

lemma filterAddressesByIgnore_eq:
  "filterAddressesByIgnore e w ads =
     filter (\<lambda>a. \<not> IsIgnored e (ip_string e (n_ParseIP (e_net e) (a_IP a))) w) ads"
proof -
  have "filter_ignored_loop e w ads res =
      res @ filter (\<lambda>a. \<not> IsIgnored e (ip_string e (n_ParseIP (e_net e) (a_IP a))) w) ads" for res
    by (induction ads arbitrary: res) auto
  then show ?thesis by (simp add: filterAddressesByIgnore_def)
qed

lemma getKubernetes_cases:
  assumes "getKubernetes e cfg infoHash claims w = (Ret l, w')"
  obtains "l = unavailable"
  | sub rest w1 x where "e_endpoints e (sc_Name cfg) w = (Ret (sub # rest), w1)"
      "x \<in> set (es_Addresses sub)" "\<not> IsIgnored e (ip_string e (n_ParseIP (e_net e) (a_IP x))) w1"
      "l = addressToLocation (e_net e) (Some x) sub"
proof -
  obtain subsets w1 where ep: "e_endpoints e (sc_Name cfg) w = (Ret subsets, w1)"
    using assms by (auto simp: getKubernetes_def case_prod_beta Let_def prod_eq_iff split: outcome.splits)
  obtain sub rest where sub: "subsets = sub # rest"
    using assms ep by (cases subsets) (auto simp: getKubernetes_def)
  let ?ads = "filterAddressesByIgnore e w1 (es_Addresses sub)"
  show thesis
  proof (cases "?ads = []")
    case True
    then show thesis using assms that(1) by (simp add: getKubernetes_def ep sub)
  next
    case False
    then obtain a where a: "and_then (fst (pick_address e cfg infoHash claims ?ads w1))
        (prefer_local (e_nn e) cfg infoHash ?ads) = Ret a" "l = addressToLocation (e_net e) a sub"
      using assms by (auto simp: getKubernetes_def ep sub case_prod_beta Let_def outcome_simps)
    show thesis
      using pl.located [OF a(1) subset_refl, of "e_net e" sub] a(2) that ep sub
      by (auto simp: filterAddressesByIgnore_eq)
  qed
qed

text \<open>A location that \<open>getKubernetes\<close> returns is either marked unavailable or belongs to an
  address of the first subset of the service's endpoints that is not on the ignore list,
  with the ports of that subset.\<close>

theorem getKubernetes_listed:
  assumes "getKubernetes e cfg infoHash claims w = (Ret l, w')" "\<not> lo_Unavailable l"
  shows "\<exists>sub rest w1 x. e_endpoints e (sc_Name cfg) w = (Ret (sub # rest), w1) \<and>
     x \<in> set (es_Addresses sub) \<and>
     \<not> IsIgnored e (ip_string e (n_ParseIP (e_net e) (a_IP x))) w1 \<and>
     l = \<lparr>lo_HTTP = getPort (es_Ports sub) ''http'', lo_Probe = getPort (es_Ports sub) ''httpprobe'',
          lo_IP = n_ParseIP (e_net e) (a_IP x), lo_Unavailable = False\<rparr>"
  using assms(1)
proof (cases rule: getKubernetes_cases)
  case 1
  then show ?thesis using assms(2) by (simp add: unavailable_def)
next
  case (2 sub rest w1 x)
  then show ?thesis by (auto simp: addressToLocation_def)
qed

section \<open>Distribution by hash\<close>

lemma is_hex_digit: "is_hex c \<Longrightarrow> \<exists>d. digit_val c = Some d \<and> d < 16 \<and> (d = 15 \<longleftrightarrow> c = CHR ''f'')"
  by (auto simp: is_hex_def digit_val_def)

lemma digits_val_hex:
  assumes "list_all is_hex s"
  shows "\<exists>n. digits_val 16 s acc = Some n \<and> (n + 1 = (acc + 1) * 16 ^ length s \<longleftrightarrow> s = replicate (length s) (CHR ''f''))"
  using assms
proof (induction s arbitrary: acc)
  case (Cons c s)
  then obtain d where d: "digit_val c = Some d" "d < 16" "d = 15 \<longleftrightarrow> c = CHR ''f''"
    using is_hex_digit by auto
  obtain n where n: "digits_val 16 s (acc * 16 + d) = Some n"
      "n + 1 = (acc * 16 + d + 1) * 16 ^ length s \<longleftrightarrow> s = replicate (length s) (CHR ''f'')"
    using Cons.IH [of "acc * 16 + d"] Cons.prems by auto
  have "n < (acc * 16 + d + 1) * 16 ^ length s" by (rule digits_val_hex_bound [OF n(1)])
  then have "d = 15" if "n + 1 = (acc + 1) * 16 ^ length (c # s)"
  proof -
    have "n + 1 = (acc * 16 + 16) * 16 ^ length s" using that by (simp add: algebra_simps)
    moreover have "n + 1 \<le> (acc * 16 + d + 1) * 16 ^ length s" using \<open>n < _\<close> by simp
    ultimately have "(acc * 16 + 16) * 16 ^ length s \<le> (acc * 16 + d + 1) * 16 ^ length s" by metis
    then have "acc * 16 + 16 \<le> acc * 16 + d + 1" by (rule mult_right_le_imp_le) simp
    then show ?thesis using d(2) by simp
  qed
  then show ?case using d n by (auto simp: algebra_simps)
qed simp

lemma hash_num_sha1:
  assumes "sha1R h"
  obtains n where "hash_num h = Ret (int n * 1000)" "n < 16 ^ 5" "n = 1048575 \<longleftrightarrow> take 5 h = ''fffff''"
    "digits_val 16 (take 5 h) 0 = Some n"
proof -
  have len: "length (take 5 h) = 5" and hex: "list_all is_hex (take 5 h)"
    using assms by (auto simp: sha1R_def list_all_iff dest: in_set_takeD)
  obtain n where n: "digits_val 16 (take 5 h) 0 = Some n"
      "n + 1 = 16 ^ 5 \<longleftrightarrow> take 5 h = replicate 5 (CHR ''f'')"
    using digits_val_hex [OF hex, of 0] len by auto
  have lt: "n < 16 ^ 5" using digits_val_hex_bound [OF n(1)] len by simp
  obtain c cs where c: "take 5 h = c # cs" using len by (cases "take 5 h") auto
  then have "is_hex c" using hex by simp
  then have "c \<noteq> CHR ''-''" "c \<noteq> CHR ''+''" by (auto simp: is_hex_def)
  then have "parse_int 16 (take 5 h) = Some (int n)"
    using n(1) lt by (simp add: parse_int_def c)
  then have num: "hash_num h = Ret (int n * 1000)" using assms by (simp add: hash_num_def sha1R_def)
  have "replicate 5 (CHR ''f'') = ''fffff''" by code_simp
  moreover have "n + 1 = 16 ^ 5 \<longleftrightarrow> n = 1048575" by simp
  ultimately have "n = 1048575 \<longleftrightarrow> take 5 h = ''fffff''" using n(2) by metis
  then show thesis using that num lt n(1) by blast
qed

lemma div_less_mult_int: "0 < b \<Longrightarrow> a < c * b \<Longrightarrow> a div b < (c :: int)"
  by (smt (verit) div_mult_mod_eq mult_right_less_imp_less pos_mod_sign)

lemma addr_loop_eq:
  assumes "0 < iv" "base + int i * iv \<le> num"
  shows "addr_loop num base iv i ads =
    (let k = nat ((num - base) div iv) in if k < i + length ads then Some (ads ! (k - i)) else None)"
  using assms
proof (induction ads arbitrary: i)
  case Nil
  have "int i \<le> (num - base) div iv"
    using Nil.prems zdiv_mono1 [of "int i * iv" "num - base" iv] by simp
  then show ?case by (simp add: Let_def)
next
  case (Cons a ads)
  have ge: "int i \<le> (num - base) div iv"
    using Cons.prems zdiv_mono1 [of "int i * iv" "num - base" iv] by simp
  show ?case
  proof (cases "num < base + (int i + 1) * iv")
    case True
    then have "(num - base) div iv < int i + 1"
      using Cons.prems(1) by (intro div_less_mult_int) simp_all
    with ge have "(num - base) div iv = int i" by simp
    with True show ?thesis by (simp add: Let_def)
  next
    case False
    then have "base + int (Suc i) * iv \<le> num" by (simp add: algebra_simps)
    from Cons.IH [OF Cons.prems(1) this] False show ?thesis
      using zdiv_mono1 [of "int (Suc i) * iv" "num - base" iv] Cons.prems(1) \<open>base + int (Suc i) * iv \<le> num\<close>
      by (auto simp: Let_def nth_Cons' Suc_diff_le algebra_simps)
  qed
qed

text \<open>C20: Distribution by hash is total on info hashes: with one to a thousand addresses every
  hash whose first five digits are not \<open>fffff\<close> is given the address of its interval, in the order
  of the IPs, so that the choice depends on the set of addresses only. The hashes that start
  with \<open>fffff\<close> are given none, and are answered as if the service had no pods.\<close>

theorem distributeByHash_total:
  assumes "sha1R h" "0 < length ads" "length ads \<le> 1000"
  shows "\<exists>n. digits_val 16 (take 5 h) 0 = Some n \<and>
    (let k = nat (int n * 1000 div (hash_total div int (length ads))) in
     distributeByHash h ads =
       (if take 5 h = ''fffff'' then Ret None else Ret (Some (sort_key a_IP ads ! k))) \<and>
     (k < length ads \<longleftrightarrow> take 5 h \<noteq> ''fffff''))"
proof -
  obtain n where n: "hash_num h = Ret (int n * 1000)" "n < 16 ^ 5"
      "n = 1048575 \<longleftrightarrow> take 5 h = ''fffff''" "digits_val 16 (take 5 h) 0 = Some n"
    using assms(1) by (rule hash_num_sha1)
  define m iv where "m = int (length ads)" and "iv = hash_total div m"
  have m: "0 < m" "m \<le> 1000" using assms by (simp_all add: m_def)
  have "m * iv = hash_total - hash_total mod m" by (simp add: iv_def minus_mod_eq_mult_div)
  then have "m * iv \<le> hash_total" "hash_total - 1000 < m * iv"
    using m pos_mod_bound [of m hash_total] pos_mod_sign [of m hash_total] by linarith+
  moreover have "0 < iv" using m zdiv_mono2 [of hash_total m 1000] by (simp add: iv_def hash_total_def)
  ultimately have iv: "0 < iv" "m * iv \<le> hash_total" "hash_total - 1000 < m * iv" by simp_all
  define k where "k = nat (int n * 1000 div iv)"
  have "int n * 1000 div iv < m \<longleftrightarrow> int n * 1000 < m * iv"
    using iv(1) div_less_mult_int [of iv "int n * 1000" m] zdiv_mono1 [of "m * iv" "int n * 1000" iv]
    by fastforce
  also have "\<dots> \<longleftrightarrow> n \<noteq> 1048575" using iv(2,3) n(2) by (auto simp: hash_total_def)
  finally have k: "k < length ads \<longleftrightarrow> take 5 h \<noteq> ''fffff''"
    using n(3) m iv(1) by (simp add: k_def m_def nat_less_iff pos_imp_zdiv_nonneg_iff)
  have "distributeByHash h ads = Ret (addr_loop (int n * 1000) 0 iv 0 (sort_key a_IP ads))"
  proof -
    have "quot hash_total (int (length ads)) = iv"
      using m by (simp add: quot_pos hash_total_def iv_def m_def)
    moreover have "sort_key a_IP ads \<noteq> []" using assms(2) by (metis length_greater_0_conv length_sort)
    ultimately show ?thesis using n(1) by (simp add: distributeByHash_def Let_def)
  qed
  also have "\<dots> = Ret (if k < length ads then Some (sort_key a_IP ads ! k) else None)"
    using iv(1) by (simp add: addr_loop_eq k_def Let_def)
  finally have "distributeByHash h ads =
      (if take 5 h = ''fffff'' then Ret None else Ret (Some (sort_key a_IP ads ! k)))"
    using k by simp
  then show ?thesis using k n(4) by (simp add: k_def iv_def m_def Let_def)
qed

definition small_address :: "string \<Rightarrow> string \<Rightarrow> EndpointAddress" where
  "small_address ip node = \<lparr>a_IP = ip, a_NodeName = Some node\<rparr>"

theorem distributeByHash_total_witness:
  "\<exists>n. digits_val 16 (take 5 ''c0ffee'') 0 = Some n \<and>
    (let k = nat (int n * 1000 div (hash_total div int (length [small_address ''10.0.0.2'' ''b'', small_address ''10.0.0.1'' ''a'']))) in
     distributeByHash ''c0ffee'' [small_address ''10.0.0.2'' ''b'', small_address ''10.0.0.1'' ''a''] =
       (if take 5 ''c0ffee'' = ''fffff'' then Ret None
        else Ret (Some (sort_key a_IP [small_address ''10.0.0.2'' ''b'', small_address ''10.0.0.1'' ''a''] ! k))) \<and>
     (k < length [small_address ''10.0.0.2'' ''b'', small_address ''10.0.0.1'' ''a''] \<longleftrightarrow> take 5 ''c0ffee'' \<noteq> ''fffff''))"
proof (rule distributeByHash_total)
  show "sha1R ''c0ffee''" by code_simp
qed simp_all

section \<open>Distribution by node\<close>

lemma role_loop_set:
  "n \<in> set (role_loop role ns nodes res) \<longleftrightarrow>
     n \<in> set res \<or> n \<in> set nodes \<and> (\<exists>nss\<in>set ns. ns_Name nss = n \<and> IsAllowed nss role)"
  by (induction nodes arbitrary: res) auto

text \<open>C21: Distribution by node respects the roles: for a token with a role, an address it picks is
  on a node of the cluster that admits the role.\<close>

theorem distributeByNodeHash_respects_role:
  assumes "fst (distributeByNodeHash e h ads claims w) = Ret (Some a)"
    and "claim_str claims ''role'' = Some role" "role \<noteq> []"
  shows "\<exists>ns nss. fst (e_nodes e w) = Ret ns \<and> nss \<in> set ns \<and> a_NodeName a = Some (ns_Name nss) \<and>
     IsAllowed nss role \<and> a \<in> set ads"
proof -
  obtain names nodes where *: "node_names (sort_key a_IP ads) = Ret names"
      "fst (filterNodesByRole e (sort (remdups names)) claims w) = Ret nodes"
      "a \<in> set ads" "\<exists>n. n \<in> set nodes \<and> a_NodeName a = Some n"
    using assms(1) by (rule distributeByNodeHash_cases)
  have "claims \<noteq> None" using assms(2) by (cases claims) (auto simp: claim_str_def claim_def)
  then obtain ns where "fst (e_nodes e w) = Ret ns" "nodes = role_loop role ns (sort (remdups names)) []"
    using *(2) assms(2,3) by (auto simp: filterNodesByRole_def case_prod_beta Let_def outcome_simps)
  with *(3,4) show ?thesis by (auto simp: role_loop_set)
qed

text \<open>The preference for the local node is applied after the distribution and looks at the
  node name only: if the picked address is on another node and the service has addresses on
  this node, the location is one of these, found by hash among them, whether or not the role
  of the token is admitted here.\<close>

theorem prefer_local_overrides:
  assumes "nn \<noteq> []" "sc_PreferLocalNode cfg" "a_NodeName a = Some n" "n \<noteq> nn"
    and "\<forall>x. x \<in> set ads \<longrightarrow> a_NodeName x \<noteq> None" "\<exists>x. x \<in> set ads \<and> a_NodeName x = Some nn"
  shows "prefer_local nn cfg h ads (Some a) =
    wrap_err ''failed to distribute locally''
      (distributeByHash h (filter (\<lambda>x. a_NodeName x = Some nn) ads))"
proof -
  have "local_addresses nn ads = Ret (filter (\<lambda>x. a_NodeName x = Some nn) ads)"
    using assms(5) by (induction ads) auto
  moreover have "filter (\<lambda>x. a_NodeName x = Some nn) ads \<noteq> []"
    using assms(6) by (auto simp: filter_empty_conv)
  ultimately show ?thesis using assms(1-4) by (simp add: prefer_local_def)
qed

theorem prefer_local_overrides_witness:
  "prefer_local ''a'' ((small_service ''hls'')\<lparr>sc_PreferLocalNode := True\<rparr>) ''00000''
     [small_address ''10.0.0.2'' ''b'', small_address ''10.0.0.1'' ''a''] (Some (small_address ''10.0.0.2'' ''b'')) =
   wrap_err ''failed to distribute locally''
     (distributeByHash ''00000'' (filter (\<lambda>x. a_NodeName x = Some ''a'')
        [small_address ''10.0.0.2'' ''b'', small_address ''10.0.0.1'' ''a'']))"
proof (rule prefer_local_overrides [where n = "''b''"])
  show "\<exists>x. x \<in> set [small_address ''10.0.0.2'' ''b'', small_address ''10.0.0.1'' ''a''] \<and> a_NodeName x = Some ''a''"
    by (rule exI [of _ "small_address ''10.0.0.1'' ''a''"]) (simp add: small_address_def)
qed (simp_all add: small_address_def)

section \<open>Retries\<close>

text \<open>A library for the witnesses: two pods on two nodes, of which \<open>a\<close> denies the role \<open>free\<close>.
  The world is the list of ignored addresses; a pod answers its probe unless it is at \<open>10.1\<close>.\<close>

definition demo_subset :: EndpointSubset where
  "demo_subset = \<lparr>es_Addresses = [small_address ''10.1'' ''a'', small_address ''10.2'' ''b''],
     es_Ports = [\<lparr>p_Name = ''http'', p_Port = 80\<rparr>]\<rparr>"

definition demo_nodes :: "NodeStat list" where
  "demo_nodes = [\<lparr>ns_Name = ''a'', ns_RolesAllowed = [], ns_RolesDenied = [''free'']\<rparr>,
     \<lparr>ns_Name = ''b'', ns_RolesAllowed = [], ns_RolesDenied = []\<rparr>]"

definition demo_net :: NetLib where
  "demo_net = \<lparr>n_ParseIP = (\<lambda>s. if s = [] then None else Some (map of_char s)), n_String = map (\<lambda>b. char_of (unat b))\<rparr>"

definition demo_lib :: "string list SLib" where
  "demo_lib = \<lparr>e_net = demo_net, e_ignore_get = (\<lambda>ip r w. (r, ip # w)),
     e_ignore_status = (\<lambda>ip w. ip \<in> set w),
     e_endpoints = (\<lambda>name w. (Ret [demo_subset], w)), e_nodes = (\<lambda>w. (Ret demo_nodes, w)),
     e_nn = [], e_rand = (\<lambda>n w. (0, w)), e_probe_map = (\<lambda>key load w. load w),
     e_NewRequest = (\<lambda>url. Ret ()),
     e_Do = (\<lambda>url w. (if url = ''http://10.1:80'' then Fail (ErrMsg ''refused'') else Ret 200, w)),
     e_Getenv = (\<lambda>name. []), e_loc_map = (\<lambda>key load w. load w)\<rparr>"

definition free_claims :: MapClaims where
  "free_claims = Some (fmupd ''role'' (JStr ''free'') fmempty)"

definition demo_service :: ServiceConfig where
  "demo_service = (small_service ''seeder'')\<lparr>sc_Distribution := NodeHash\<rparr>"

theorem distributeByNodeHash_respects_role_witness:
  "\<exists>ns nss. fst (e_nodes demo_lib []) = Ret ns \<and> nss \<in> set ns \<and>
     a_NodeName (small_address ''10.2'' ''b'') = Some (ns_Name nss) \<and> IsAllowed nss ''free'' \<and>
     small_address ''10.2'' ''b'' \<in> set (es_Addresses demo_subset)"
proof (rule distributeByNodeHash_respects_role)
  show "fst (distributeByNodeHash demo_lib ''00000'' (es_Addresses demo_subset) free_claims []) =
      Ret (Some (small_address ''10.2'' ''b''))"
    by code_simp
  show "claim_str free_claims ''role'' = Some ''free''" by code_simp
qed simp

theorem getKubernetes_listed_witness:
  "\<exists>sub rest w1 x. e_endpoints demo_lib (sc_Name demo_service) [''10.1''] = (Ret (sub # rest), w1) \<and>
     x \<in> set (es_Addresses sub) \<and>
     \<not> IsIgnored demo_lib (ip_string demo_lib (n_ParseIP (e_net demo_lib) (a_IP x))) w1 \<and>
     \<lparr>lo_HTTP = 80, lo_Probe = 0, lo_IP = n_ParseIP demo_net ''10.2'', lo_Unavailable = False\<rparr> =
     \<lparr>lo_HTTP = getPort (es_Ports sub) ''http'', lo_Probe = getPort (es_Ports sub) ''httpprobe'',
      lo_IP = n_ParseIP (e_net demo_lib) (a_IP x), lo_Unavailable = False\<rparr>"
proof (rule getKubernetes_listed)
  show "getKubernetes demo_lib demo_service ''00000'' None [''10.1''] =
      (Ret \<lparr>lo_HTTP = 80, lo_Probe = 0, lo_IP = n_ParseIP demo_net ''10.2'', lo_Unavailable = False\<rparr>, [''10.1''])"
    by code_simp
qed simp

text \<open>A location that the probing resolution returns is unavailable or has passed its probe:
  the last call before the return asked the probe checker about this location and got no
  error. The loop ends after three addresses at most, each of which is ignored from then on.\<close>

theorem probed_location_passed:
  assumes "getKubernetesWithProbeCheck e cfg h claims w = (Ret l, w')" "\<not> lo_Unavailable l"
  shows "\<exists>w1 b. ProbeChecker_Get e l w1 = (Ret b, w') \<and>
     (\<exists>w0. getKubernetes e cfg h claims w0 = (Ret l, w1))"
proof -
  have "\<exists>w1 b. ProbeChecker_Get e l w1 = (Ret b, w') \<and> (\<exists>w0. getKubernetes e cfg h claims w0 = (Ret l, w1))"
    if "probe_loop e cfg h claims i w = (Ret l, w')" for i
    using that
  proof (induction e cfg h claims i w rule: probe_loop.induct)
    case (1 e cfg h claims i w)
    from "1.prems" assms(2) have i: "\<not> 2 < i"
      by (auto simp: unavailable_def split: if_splits simp: probe_loop.simps [of e cfg h claims i w])
    obtain r w1 where g: "getKubernetes e cfg h claims w = (r, w1)" by fastforce
    from "1.prems" i g obtain k where r: "r = Ret k"
      by (cases r) (auto simp: probe_loop.simps [of e cfg h claims i w])
    show ?case
    proof (cases "lo_Unavailable k")
      case True
      with "1.prems" i g r assms(2) show ?thesis
        by (auto simp: probe_loop.simps [of e cfg h claims i w])
    next
      case False
      obtain b w2 where b: "ProbeChecker_Get e k w1 = (b, w2)" by fastforce
      show ?thesis
      proof (cases b)
        case (Ret x)
        with "1.prems" i g r b False show ?thesis
          by (auto simp: probe_loop.simps [of e cfg h claims i w])
      next
        case (Fail x)
        with "1.prems" i g r b False have
          "probe_loop e cfg h claims (Suc i) (snd (Ignore e (ip_string e (lo_IP k)) w2)) = (Ret l, w')"
          by (simp add: probe_loop.simps [of e cfg h claims i w])
        with "1.IH" i g r b False Fail show ?thesis by auto
      next
        case (Panic x)
        with "1.prems" i g r b False show ?thesis
          by (auto simp: probe_loop.simps [of e cfg h claims i w])
      qed
    qed
  qed
  then show ?thesis using assms(1) by (simp add: getKubernetesWithProbeCheck_def)
qed

text \<open>The entries of the ignore list do not expire while an endpoint lookup runs.\<close>

definition ignore_contract :: "'w SLib \<Rightarrow> bool" where
  "ignore_contract e \<longleftrightarrow>
     (\<forall>ip w. e_ignore_status e ip (snd (e_ignore_get e ip (Ret True) w))) \<and>
     (\<forall>ip name w. e_ignore_status e ip w \<longrightarrow> e_ignore_status e ip (snd (e_endpoints e name w)))"

text \<open>A fallback found through Kubernetes was listed and not ignored when the endpoints were looked up.\<close>

lemma fallback_listed:
  assumes "sc_EndpointsProvider c \<noteq> Environment" "GetFallback e (Some c) src ip claims w = (Ret loc, w')"
  obtains sub rest w1 x where "e_endpoints e (sc_Name c) (snd (Ignore e (ip_string e ip) w)) = (Ret (sub # rest), w1)"
    "x \<in> set (es_Addresses sub)" "\<not> IsIgnored e (ip_string e (n_ParseIP (e_net e) (a_IP x))) w1"
    "loc = addressToLocation (e_net e) (Some x) sub" "\<not> lo_Unavailable loc"
proof -
  have avail: "\<not> lo_Unavailable loc" and g: "getKubernetes e c (s_InfoHash src) claims (snd (Ignore e (ip_string e ip) w)) = (Ret loc, w')"
    using assms by (auto simp: GetFallback_def case_prod_beta Let_def outcome_simps prod_eq_iff split: if_splits)
  from g show thesis
  proof (cases rule: getKubernetes_cases)
    case 1
    then show thesis using avail by (simp add: unavailable_def)
  next
    case (2 sub rest w1 x)
    then show thesis using that avail by blast
  qed
qed

lemma fallback_excludes:
  assumes "ignore_contract e" "sc_EndpointsProvider c \<noteq> Environment"
    and "GetFallback e (Some c) src ip claims w = (Ret loc, w')"
  shows "\<not> lo_Unavailable loc \<and> ip_string e (lo_IP loc) \<noteq> ip_string e ip"
proof -
  have ign: "IsIgnored e (ip_string e ip) (snd (e_endpoints e (sc_Name c) (snd (Ignore e (ip_string e ip) w))))"
    using assms(1) by (simp add: ignore_contract_def Ignore_def IsIgnored_def case_prod_beta Let_def)
  from assms(2,3) show ?thesis
    by (rule fallback_listed) (use ign in \<open>auto simp: addressToLocation_def\<close>)
qed

text \<open>C23: Where a retry goes. For a service located by environment variables the fallback is the same configured host again,
  whether or not it is the one that failed. For any other provider it is available, at an address that the
  cluster lists for the service, that is not on the ignore list, and, as long as the list keeps the entry just made
  while the endpoints are looked up, that differs from the excluded one; the port is the one the endpoints name \<open>http\<close>.\<close>

theorem GetFallback_excludes:
  assumes "ignore_contract e" "GetFallback e (Some c) src ip claims w = (Ret loc, w')"
  shows "if sc_EndpointsProvider c = Environment then getEnvironment e c = Ret loc \<and> w' = w
    else \<not> lo_Unavailable loc \<and> ip_string e (lo_IP loc) \<noteq> ip_string e ip \<and>
      (\<exists>sub rest w1 x. e_endpoints e (sc_Name c) (snd (Ignore e (ip_string e ip) w)) = (Ret (sub # rest), w1) \<and>
         x \<in> set (es_Addresses sub) \<and> \<not> IsIgnored e (ip_string e (lo_IP loc)) w1 \<and>
         lo_IP loc = n_ParseIP (e_net e) (a_IP x) \<and> lo_HTTP loc = getPort (es_Ports sub) ''http'')"
proof (cases "sc_EndpointsProvider c = Environment")
  case True
  then show ?thesis using assms(2) by (simp add: GetFallback_def)
next
  case False
  from False assms(2) show ?thesis
    by (rule fallback_listed) (use False fallback_excludes [OF assms(1) False assms(2)] in \<open>auto simp: addressToLocation_def\<close>)
qed

theorem GetFallback_excludes_witness:
  "\<not> lo_Unavailable \<lparr>lo_HTTP = 80, lo_Probe = 0, lo_IP = n_ParseIP demo_net ''10.2'', lo_Unavailable = False\<rparr> \<and>
   ip_string demo_lib (n_ParseIP demo_net ''10.2'') \<noteq> ip_string demo_lib (n_ParseIP demo_net ''10.1'')"
proof -
  have "ignore_contract demo_lib" by (simp add: ignore_contract_def demo_lib_def)
  moreover have "sc_EndpointsProvider demo_service \<noteq> Environment" by code_simp
  moreover have "GetFallback demo_lib (Some demo_service) \<lparr>s_Type = ''default'', s_Name = [], s_InfoHash = ''00000'',
      s_Path = ''/'', s_OriginPath = ''/'', s_Token = [], s_ApiKey = [], s_Query = [], s_Mod = None\<rparr>
      (n_ParseIP demo_net ''10.1'') None [] =
    (Ret \<lparr>lo_HTTP = 80, lo_Probe = 0, lo_IP = n_ParseIP demo_net ''10.2'', lo_Unavailable = False\<rparr>, [''10.1''])"
    by code_simp
  ultimately show ?thesis using GetFallback_excludes by fastforce
qed

theorem probed_location_passed_witness:
  "\<exists>w1 b. ProbeChecker_Get demo_lib
       \<lparr>lo_HTTP = 80, lo_Probe = 0, lo_IP = n_ParseIP demo_net ''10.2'', lo_Unavailable = False\<rparr> w1 = (Ret b, [''10.1'']) \<and>
     (\<exists>w0. getKubernetes demo_lib demo_service ''00000'' None w0 =
       (Ret \<lparr>lo_HTTP = 80, lo_Probe = 0, lo_IP = n_ParseIP demo_net ''10.2'', lo_Unavailable = False\<rparr>, w1))"
proof (rule probed_location_passed)
  show "getKubernetesWithProbeCheck demo_lib demo_service ''00000'' None [] =
      (Ret \<lparr>lo_HTTP = 80, lo_Probe = 0, lo_IP = n_ParseIP demo_net ''10.2'', lo_Unavailable = False\<rparr>, [''10.1''])"
    by code_simp
qed simp

end
