(* ===== verification/Resolver.thy ===== *)
theory Resolver
  imports Service_Location
begin

text \<open>
  The resolver (\<open>services/resolver.go\<close>): it chooses the service configuration of a source, the
  one of the token's role if there is one, and asks the service location for a backend.
\<close>

definition resolve_cfg :: "ServicesConfig \<Rightarrow> Source \<Rightarrow> MapClaims \<Rightarrow> ServiceConfig option" where
  "resolve_cfg cfgs src claims =
     (let edgeType = GetEdgeType src;
          cfg = (case claim_str claims ''role'' of
                   Some role \<Rightarrow> GetMod cfgs (edgeType @ ''-'' @ role)
                 | None \<Rightarrow> None)
      in if cfg = None then GetMod cfgs edgeType else cfg)"

definition Resolve ::
  "'w SLib \<Rightarrow> ServicesConfig \<Rightarrow> Source \<Rightarrow> MapClaims \<Rightarrow> 'w \<Rightarrow> Location outcome \<times> 'w" where
  "Resolve e cfgs src claims w =
     (let (r, w') = ServiceLocation_Get e (resolve_cfg cfgs src claims) src claims w
      in (wrap_err ''failed to resolve location'' r, w'))"

text \<open>The configuration behind the edge type of a parsed source.\<close>

lemma edge_type_configured:
  assumes "is_range cfgs ks" "no_nil cfgs" "GetMod cfgs ''default'' \<noteq> None" "Parse cfgs ks u = Ret src"
  shows "GetMod cfgs (GetEdgeType src) \<noteq> None"
proof (rule Parse_Ret [OF assms])
  fix q m sc path
  assume sc: "GetMod cfgs (source_type ks (url_hash u)) = Some sc" "s_Type src = source_type ks (url_hash u)"
    and m: "extractMod cfgs ks path = Ret (q, m)" "s_Mod src = m"
  show ?thesis
  proof (cases m)
    case None
    then show ?thesis using sc m by (simp add: GetEdgeType_def)
  next
    case (Some x)
    then have "extractMod cfgs ks path = Ret (q, Some x)" using m by simp
    then have "GetMod cfgs (m_Type x) \<noteq> None"
    proof (rule extractMod_Some)
      fix p t e name
      assume "extract_loop cfgs ks path (length path) [] = Ret (Some (q, p, t, e, name))"
        "x = \<lparr>m_Type = t, m_Path = clean (CHR ''/'' # (if 1 < length p then p ! 1 else [])),
          m_Extra = e, m_Name = name\<rparr>"
      then show ?thesis using extract_loop_Some [of cfgs ks path "length path" "[]" q p t e name] by auto
    qed
    then show ?thesis using Some m by (simp add: GetEdgeType_def)
  qed
qed

text \<open>C19: For a request that \<open>Parse\<close> accepted, the resolver always finds a configuration, so the
  nil configuration that \<open>GetMod\<close> may return is never dereferenced: it is the configuration of
  the edge type and role if that is configured, and the one of the edge type otherwise.
  The result is what the location map returns for it, with the error wrapped.\<close>

theorem Resolve_parsed_source:
  assumes "is_range cfgs ks" "no_nil cfgs" "GetMod cfgs ''default'' \<noteq> None" "Parse cfgs ks u = Ret src"
  shows "\<exists>c. resolve_cfg cfgs src claims = Some c \<and>
    (\<forall>role c'. claim_str claims ''role'' = Some role \<longrightarrow>
       GetMod cfgs (GetEdgeType src @ ''-'' @ role) = Some c' \<longrightarrow> c = c') \<and>
    ((\<forall>role. claim_str claims ''role'' = Some role \<longrightarrow>
       GetMod cfgs (GetEdgeType src @ ''-'' @ role) = None) \<longrightarrow> GetMod cfgs (GetEdgeType src) = Some c) \<and>
    Resolve e cfgs src claims w =
      (case e_loc_map e (location_key c (s_InfoHash src) claims) (location_load e c (s_InfoHash src) claims) w of
         (r, w') \<Rightarrow> (wrap_err ''failed to resolve location'' r, w'))"
proof -
  obtain c0 where c0: "GetMod cfgs (GetEdgeType src) = Some c0"
    using edge_type_configured [OF assms] by blast
  then obtain c where c: "resolve_cfg cfgs src claims = Some c"
    by (cases "resolve_cfg cfgs src claims") (auto simp: resolve_cfg_def Let_def split: if_splits)
  have "Resolve e cfgs src claims w =
      (case e_loc_map e (location_key c (s_InfoHash src) claims) (location_load e c (s_InfoHash src) claims) w of
         (r, w') \<Rightarrow> (wrap_err ''failed to resolve location'' r, w'))"
    by (simp add: Resolve_def ServiceLocation_Get_def c)
  with c c0 show ?thesis
    by (auto simp: resolve_cfg_def Let_def split: option.splits if_splits)
qed

theorem Resolve_parsed_source_witness:
  "\<exists>c. resolve_cfg small_config \<lparr>s_Type = ''default'', s_Name = ''torrent-web-seeder'', s_InfoHash = ''08ada5a7a6'',
      s_Path = ''/v'', s_OriginPath = ''/v'', s_Token = [], s_ApiKey = [], s_Query = [],
      s_Mod = Some \<lparr>m_Type = ''hls'', m_Path = ''/i'', m_Extra = [], m_Name = ''content-transcoder''\<rparr>\<rparr> free_claims = Some c"
proof -
  have "Parse small_config small_range \<lparr>u_Path = ''/08ada5a7a6/v~hls/i'', u_RawQuery = [], u_Host = []\<rparr> =
    Ret \<lparr>s_Type = ''default'', s_Name = ''torrent-web-seeder'', s_InfoHash = ''08ada5a7a6'',
      s_Path = ''/v'', s_OriginPath = ''/v'', s_Token = [], s_ApiKey = [], s_Query = [],
      s_Mod = Some \<lparr>m_Type = ''hls'', m_Path = ''/i'', m_Extra = [], m_Name = ''content-transcoder''\<rparr>\<rparr>"
    by code_simp
  from Resolve_parsed_source [OF small_config_ok this, of free_claims demo_lib "[]"] show ?thesis by (elim exE conjE) (rule exI)
qed

end
