(* ===== verification/Go_HTTP.thy ===== *)
theory Go_HTTP
  imports Go_URL
begin

text \<open>
  What the proxy uses of \<open>net/http\<close>: headers with canonical keys, requests, responses, a
  round tripper as a function on requests that runs in a world, and the errors of reading a
  body with the tests of the \<open>errors\<close> package.
\<close>

section \<open>Headers\<close>

definition token_byte :: "char \<Rightarrow> bool" where
  "token_byte c \<longleftrightarrow> c \<in> set ''etoainsrhdlucmfygwpbvkxqjz-ETOAINSRHDLUCMFYGWPBVKXQJZ0123456789!#$%&'*+.^_`|~''"

fun canon_from :: "bool \<Rightarrow> string \<Rightarrow> string" where
  "canon_from up [] = []"
| "canon_from up (c # cs) = (if up then upper_char c else lower_char c) # canon_from (c = CHR ''-'') cs"

text \<open>\<open>textproto.CanonicalMIMEHeaderKey\<close>\<close>

definition canonical_key :: "string \<Rightarrow> string" where
  "canonical_key k = (if list_all token_byte k then canon_from True k else k)"

type_synonym Header = "(string, string list) gomap"

definition header_get :: "Header \<Rightarrow> string \<Rightarrow> string" where
  "header_get h k =
     (case fmlookup h (canonical_key k) of None \<Rightarrow> [] | Some vs \<Rightarrow> (case vs of [] \<Rightarrow> [] | v # _ \<Rightarrow> v))"

definition header_set :: "string \<Rightarrow> string \<Rightarrow> Header \<Rightarrow> Header" where
  "header_set k v h = fmupd (canonical_key k) [v] h"

definition header_del :: "string \<Rightarrow> Header \<Rightarrow> Header" where
  "header_del k h = fmdrop (canonical_key k) h"

lemma header_get_empty [simp]: "header_get fmempty k = []"
  by (simp add: header_get_def)

lemma header_get_set [simp]:
  "header_get (header_set k v h) k' = (if canonical_key k' = canonical_key k then v else header_get h k')"
  by (simp add: header_get_def header_set_def)

lemma header_get_del [simp]:
  "header_get (header_del k h) k' = (if canonical_key k' = canonical_key k then [] else header_get h k')"
  by (simp add: header_get_def header_del_def)

section \<open>Requests and responses\<close>

record Request =
  rq_Method :: string
  rq_URL :: URL
  rq_Header :: Header

record 'b Response =
  rs_StatusCode :: int
  rs_Header :: Header
  rs_ContentLength :: int
  rs_Body :: "'b option"

type_synonym ('b, 'w) RoundTripper = "Request \<Rightarrow> 'w \<Rightarrow> 'b Response outcome \<times> 'w"

definition StatusOK :: int where "StatusOK = 200"
definition StatusPartialContent :: int where "StatusPartialContent = 206"
definition StatusFound :: int where "StatusFound = 302"
definition StatusTemporaryRedirect :: int where "StatusTemporaryRedirect = 307"
definition StatusRequestedRangeNotSatisfiable :: int where "StatusRequestedRangeNotSatisfiable = 416"

lemmas status_defs = StatusOK_def StatusPartialContent_def StatusFound_def
  StatusTemporaryRedirect_def StatusRequestedRangeNotSatisfiable_def

section \<open>Errors of a body\<close>

datatype errno = ECONNRESET | EPIPE | ECONNREFUSED | EOther string

datatype ioerr =
    IoEOF | IoErrUnexpectedEOF | IoErrClosedPipe
  | CtxCanceled | CtxDeadlineExceeded
  | Errno errno
  | OpError string ioerr
  | Wrapped string ioerr
  | Plain string

fun errno_msg :: "errno \<Rightarrow> string" where
  "errno_msg ECONNRESET = ''connection reset by peer''"
| "errno_msg EPIPE = ''broken pipe''"
| "errno_msg ECONNREFUSED = ''connection refused''"
| "errno_msg (EOther s) = s"

fun err_msg :: "ioerr \<Rightarrow> string" where
  "err_msg IoEOF = ''EOF''"
| "err_msg IoErrUnexpectedEOF = ''unexpected EOF''"
| "err_msg IoErrClosedPipe = ''io: read/write on closed pipe''"
| "err_msg CtxCanceled = ''context canceled''"
| "err_msg CtxDeadlineExceeded = ''context deadline exceeded''"
| "err_msg (Errno e) = errno_msg e"
| "err_msg (OpError op e) = op @ '': '' @ err_msg e"
| "err_msg (Wrapped m e) = m @ '': '' @ err_msg e"
| "err_msg (Plain s) = s"

text \<open>\<open>errors.Is\<close> and \<open>errors.As\<close> follow the chain of wrapped errors.\<close>

fun err_is :: "ioerr \<Rightarrow> ioerr \<Rightarrow> bool" where
  "err_is (OpError op e) t \<longleftrightarrow> OpError op e = t \<or> err_is e t"
| "err_is (Wrapped m e) t \<longleftrightarrow> Wrapped m e = t \<or> err_is e t"
| "err_is e t \<longleftrightarrow> e = t"

fun err_as_OpError :: "ioerr \<Rightarrow> bool" where
  "err_as_OpError (OpError op e) \<longleftrightarrow> True"
| "err_as_OpError (Wrapped m e) \<longleftrightarrow> err_as_OpError e"
| "err_as_OpError e \<longleftrightarrow> False"

end
