(* ===== verification/Transports.thy ===== *)
theory Transports
  imports Go_HTTP
begin

text \<open>
  The transports of \<open>services/http_proxy.go\<close>: the stub that answers for an unavailable location
  and the transport that follows redirects. The two \<open>http.Transport\<close> values, \<open>http.NewRequest\<close>
  and closing a body are the record \<open>HLib\<close>.
\<close>

record ('b, 'w) HLib =
  h_transport :: "('b, 'w) RoundTripper"
  h_external :: "('b, 'w) RoundTripper"
  h_NewRequest :: "string \<Rightarrow> string \<Rightarrow> Request outcome"
  h_Close :: "'b \<Rightarrow> 'w \<Rightarrow> 'w"
  h_empty_body :: 'b

definition stub_RoundTrip :: "('b, 'w) HLib \<Rightarrow> ('b, 'w) RoundTripper" where
  "stub_RoundTrip h req w =
     (Ret \<lparr>rs_StatusCode = 503, rs_Header = fmempty, rs_ContentLength = 0,
           rs_Body = Some (h_empty_body h)\<rparr>, w)"

definition is_redirect :: "'b Response \<Rightarrow> bool" where
  "is_redirect resp \<longleftrightarrow>
     rs_StatusCode resp = StatusFound \<or> rs_StatusCode resp = StatusTemporaryRedirect"

text \<open>The request of the next hop: the method of the original request, the target of the
  redirect, and the original \<open>Range\<close>.\<close>

definition hop_request :: "('b, 'w) HLib \<Rightarrow> Request \<Rightarrow> string \<Rightarrow> Request outcome" where
  "hop_request h req loc =
     and_then (h_NewRequest h (rq_Method req) loc) (\<lambda>newReq.
       let rng = header_get (rq_Header req) ''Range'' in
       Ret (if rng \<noteq> [] then newReq\<lparr>rq_Header := header_set ''Range'' rng (rq_Header newReq)\<rparr> else newReq))"

text \<open>The loop; \<open>n\<close> counts the rounds that are left of the ten.\<close>

fun redirect_loop ::
  "('b, 'w) HLib \<Rightarrow> Request \<Rightarrow> nat \<Rightarrow> 'b Response \<Rightarrow> 'w \<Rightarrow> 'b Response outcome \<times> 'w" where
  "redirect_loop h req 0 resp w = (Ret resp, w)"
| "redirect_loop h req (Suc n) resp w =
     (if \<not> is_redirect resp then (Ret resp, w)
      else let loc = header_get (rs_Header resp) ''Location'' in
      if loc = [] then (Ret resp, w)
      else case rs_Body resp of
        None \<Rightarrow> (Panic NilDeref, w)
      | Some b \<Rightarrow>
          (let w1 = h_Close h b w in
           case hop_request h req loc of
             Fail x \<Rightarrow> (Fail x, w1)
           | Panic k \<Rightarrow> (Panic k, w1)
           | Ret newReq \<Rightarrow>
               (case h_external h newReq w1 of
                  (Ret resp', w2) \<Rightarrow> redirect_loop h req n resp' w2
                | (Fail x, w2) \<Rightarrow> (Fail x, w2)
                | (Panic k, w2) \<Rightarrow> (Panic k, w2))))"

definition redirect_RoundTrip :: "('b, 'w) HLib \<Rightarrow> ('b, 'w) RoundTripper" where
  "redirect_RoundTrip h req w =
     (case h_transport h req w of
        (Ret resp, w1) \<Rightarrow> redirect_loop h req 10 resp w1
      | (Fail x, w1) \<Rightarrow> (Fail x, w1)
      | (Panic k, w1) \<Rightarrow> (Panic k, w1))"

section \<open>Properties\<close>

text \<open>The chain of requests a redirect takes: each hop carries the \<open>Range\<close> of the original.\<close>

inductive hops :: "('b, 'w) HLib \<Rightarrow> Request \<Rightarrow> nat \<Rightarrow> 'b Response \<Rightarrow> 'w \<Rightarrow> 'b Response \<Rightarrow> 'w \<Rightarrow> bool"
  for h req where
  stay: "hops h req 0 resp w resp w"
| hop: "is_redirect resp \<Longrightarrow> header_get (rs_Header resp) ''Location'' = loc \<Longrightarrow> loc \<noteq> [] \<Longrightarrow>
    rs_Body resp = Some b \<Longrightarrow> hop_request h req loc = Ret newReq \<Longrightarrow>
    h_external h newReq (h_Close h b w) = (Ret resp', w2) \<Longrightarrow>
    hops h req n resp' w2 resp'' w'' \<Longrightarrow> hops h req (Suc n) resp w resp'' w''"

inductive_cases hops_SucE: "hops h req (Suc n) resp w resp'' w''"

lemma redirect_loop_hops:
  "redirect_loop h req n resp w = (Ret resp', w') \<Longrightarrow>
   \<exists>k \<le> n. hops h req k resp w resp' w' \<and>
     (is_redirect resp' \<and> header_get (rs_Header resp') ''Location'' \<noteq> [] \<longrightarrow> k = n)"
proof (induction n arbitrary: resp w)
  case 0
  then show ?case by (auto intro: hops.stay)
next
  case (Suc n)
  show ?case
  proof (cases "is_redirect resp \<and> header_get (rs_Header resp) ''Location'' \<noteq> []")
    case False
    then have "resp' = resp" "w' = w" using Suc.prems by (auto simp: Let_def split: if_splits)
    with False show ?thesis by (intro exI [of _ 0]) (auto intro: hops.stay)
  next
    case True
    then obtain b newReq resp1 w2 where hop: "rs_Body resp = Some b"
        "hop_request h req (header_get (rs_Header resp) ''Location'') = Ret newReq"
        "h_external h newReq (h_Close h b w) = (Ret resp1, w2)"
        "redirect_loop h req n resp1 w2 = (Ret resp', w')"
      using Suc.prems by (auto simp: Let_def split: option.splits outcome.splits prod.splits)
    from Suc.IH [OF hop(4)] obtain k where "k \<le> n" "hops h req k resp1 w2 resp' w'"
        "is_redirect resp' \<and> header_get (rs_Header resp') ''Location'' \<noteq> [] \<longrightarrow> k = n" by auto
    with True hop show ?thesis by (intro exI [of _ "Suc k"]) (auto intro: hops.hop)
  qed
qed

lemma hop_request_range:
  assumes "hop_request h req loc = Ret newReq" "header_get (rq_Header req) ''Range'' \<noteq> []"
  shows "header_get (rq_Header newReq) ''Range'' = header_get (rq_Header req) ''Range''"
  using assms by (auto simp: hop_request_def outcome_simps Let_def)

text \<open>A redirect is followed through at most ten hops. The response returned is the one at
  the end of the chain: it is not a redirect with a target any more, unless the ten hops are
  used up, in which case that redirect is handed to the client.\<close>

theorem redirect_RoundTrip_follows:
  assumes "redirect_RoundTrip h req w = (Ret resp, w')"
  shows "\<exists>resp0 w0 k. h_transport h req w = (Ret resp0, w0) \<and> k \<le> 10 \<and>
     hops h req k resp0 w0 resp w' \<and>
     (is_redirect resp \<and> header_get (rs_Header resp) ''Location'' \<noteq> [] \<longrightarrow> k = 10)"
proof -
  obtain resp0 w0 where r: "h_transport h req w = (Ret resp0, w0)"
      "redirect_loop h req 10 resp0 w0 = (Ret resp, w')"
    using assms by (auto simp: redirect_RoundTrip_def split: outcome.splits prod.splits)
  from redirect_loop_hops [OF r(2)] show ?thesis using r(1) by auto
qed

text \<open>A library whose inner transport redirects once; the world counts the closed bodies.\<close>

definition sample_hlib :: "(string, nat) HLib" where
  "sample_hlib = \<lparr>h_transport = (\<lambda>req w. (Ret \<lparr>rs_StatusCode = 302,
       rs_Header = header_set ''Location'' ''http://s3/f'' fmempty, rs_ContentLength = 0, rs_Body = Some []\<rparr>, w)),
     h_external = (\<lambda>req w. (Ret \<lparr>rs_StatusCode = 206, rs_Header = fmempty, rs_ContentLength = 3,
       rs_Body = Some ''abc''\<rparr>, w)),
     h_NewRequest = (\<lambda>m u. Ret \<lparr>rq_Method = m, rq_URL = \<lparr>u_Path = ''/f'', u_RawQuery = [], u_Host = ''s3''\<rparr>,
       rq_Header = fmempty\<rparr>),
     h_Close = (\<lambda>b w. Suc w), h_empty_body = []\<rparr>"

definition sample_request :: Request where
  "sample_request = \<lparr>rq_Method = ''GET'', rq_URL = \<lparr>u_Path = ''/f'', u_RawQuery = [], u_Host = ''10.1:80''\<rparr>,
     rq_Header = header_set ''Range'' ''bytes=0-'' fmempty\<rparr>"

theorem redirect_RoundTrip_follows_witness:
  "\<exists>resp0 w0 k. h_transport sample_hlib sample_request 0 = (Ret resp0, w0) \<and> k \<le> 10 \<and>
     hops sample_hlib sample_request k resp0 w0
       \<lparr>rs_StatusCode = 206, rs_Header = fmempty, rs_ContentLength = 3, rs_Body = Some ''abc''\<rparr> 1 \<and>
     (is_redirect \<lparr>rs_StatusCode = 206, rs_Header = fmempty, rs_ContentLength = 3, rs_Body = Some ''abc''\<rparr> \<and>
      header_get (rs_Header \<lparr>rs_StatusCode = 206, rs_Header = fmempty, rs_ContentLength = 3, rs_Body = Some ''abc''\<rparr>)
        ''Location'' \<noteq> [] \<longrightarrow> k = 10)"
proof (rule redirect_RoundTrip_follows)
  show "redirect_RoundTrip sample_hlib sample_request 0 =
      (Ret \<lparr>rs_StatusCode = 206, rs_Header = fmempty, rs_ContentLength = 3, rs_Body = Some ''abc''\<rparr>, 1)"
    by (simp add: redirect_RoundTrip_def sample_hlib_def sample_request_def hop_request_def is_redirect_def
        status_defs Let_def numeral_eq_Suc)
qed

text \<open>Every hop of a redirect asks for the same bytes as the original request: its \<open>Range\<close> is
  that of the request.\<close>

theorem redirect_keeps_range:
  assumes "hops h req (Suc n) resp w resp' w'" "header_get (rq_Header req) ''Range'' \<noteq> []"
  shows "\<exists>newReq w1 resp1 w2. h_external h newReq w1 = (Ret resp1, w2) \<and> hops h req n resp1 w2 resp' w' \<and>
     header_get (rq_Header newReq) ''Range'' = header_get (rq_Header req) ''Range''"
  using assms(1) by (rule hops_SucE) (use hop_request_range [OF _ assms(2)] in blast)

theorem redirect_keeps_range_witness:
  "\<exists>newReq w1 resp1 w2. h_external sample_hlib newReq w1 = (Ret resp1, w2) \<and>
     hops sample_hlib sample_request 0 resp1 w2
       \<lparr>rs_StatusCode = 206, rs_Header = fmempty, rs_ContentLength = 3, rs_Body = Some ''abc''\<rparr> 1 \<and>
     header_get (rq_Header newReq) ''Range'' = header_get (rq_Header sample_request) ''Range''"
proof (rule redirect_keeps_range)
  let ?r = "\<lparr>rs_StatusCode = 206, rs_Header = fmempty, rs_ContentLength = 3, rs_Body = Some ''abc''\<rparr>"
  let ?first = "\<lparr>rs_StatusCode = 302, rs_Header = header_set ''Location'' ''http://s3/f'' fmempty,
    rs_ContentLength = 0, rs_Body = Some []\<rparr>"
  show "hops sample_hlib sample_request (Suc 0) ?first 0 ?r 1"
    by (rule hops.hop [where b = "[]" and newReq = "\<lparr>rq_Method = ''GET'', rq_URL = \<lparr>u_Path = ''/f'',
          u_RawQuery = [], u_Host = ''s3''\<rparr>, rq_Header = header_set ''Range'' ''bytes=0-'' fmempty\<rparr>",
          OF _ refl _ _ _ _ hops.stay])
      (simp_all add: sample_hlib_def sample_request_def hop_request_def is_redirect_def status_defs Let_def)
  show "header_get (rq_Header sample_request) ''Range'' \<noteq> []" by (simp add: sample_request_def)
qed

end
