(* ===== verification/Retry_Transport.thy ===== *)
theory Retry_Transport
  imports Resolver Transports
begin

text \<open>
  The retrying transport (\<open>services/retry_transport.go\<close>): it wraps the body of a 200 or 206
  response in a reader that, when the connection to the pod breaks, asks another pod for the
  rest of the object and goes on. Reading and closing a body and the reconnection are the
  record \<open>BLib\<close>; \<open>reconnectFn\<close> is the reconnection the code passes. The mutex of the reader makes
  every \<open>Read\<close> and \<open>Close\<close> atomic. Waiting, logging and the counters of Prometheus are left out.
\<close>

section \<open>Retryable errors\<close>

definition isRetryableError :: "ioerr option \<Rightarrow> bool" where
  "isRetryableError err =
     (case err of
        None \<Rightarrow> False
      | Some e \<Rightarrow>
          if e = IoEOF then False
          else if err_is e CtxCanceled \<or> err_is e CtxDeadlineExceeded then False
          else if e = IoErrUnexpectedEOF then True
          else if err_is e (Errno ECONNRESET) \<or> err_is e (Errno EPIPE) \<or> err_is e (Errno ECONNREFUSED) then True
          else if err_as_OpError e then True
          else let msg = err_msg e in
            contains msg ''connection reset'' \<or> contains msg ''broken pipe'' \<or> contains msg ''unexpected EOF'')"

section \<open>Ranges\<close>

definition parseRange :: "string \<Rightarrow> int \<times> int \<times> bool \<times> bool" where
  "parseRange rangeHeader =
     (let parts = split2 (CHR ''-'') (trim_prefix rangeHeader ''bytes='') in
      if length parts \<noteq> 2 \<or> parts ! 0 = [] then (0, 0, False, False)
      else case parse_int 10 (parts ! 0) of
        None \<Rightarrow> (0, 0, False, False)
      | Some start \<Rightarrow>
          if parts ! 1 \<noteq> [] then
            (case parse_int 10 (parts ! 1) of
               None \<Rightarrow> (0, 0, False, False)
             | Some end \<Rightarrow> (start, end, True, True))
          else (start, 0, False, True))"

definition parseContentRangeStart :: "string \<Rightarrow> int option" where
  "parseContentRangeStart hdr =
     (let h = trim_prefix hdr ''bytes '' in
      case index_byte (CHR ''-'') h of
        None \<Rightarrow> None
      | Some dash \<Rightarrow> if dash = 0 then None else parse_int 10 (take dash h))"

section \<open>The retrying reader\<close>

datatype 'b reconn = NewBody 'b | UpstreamEOF

record ('b, 'w) BLib =
  b_read :: "'b \<Rightarrow> nat \<Rightarrow> 'w \<Rightarrow> (string \<times> ioerr option) \<times> 'w"
  b_close :: "'b \<Rightarrow> 'w \<Rightarrow> 'w"
  b_reconnect :: "int \<Rightarrow> string \<Rightarrow> 'w \<Rightarrow> 'b reconn outcome \<times> string \<times> 'w"

text \<open>\<open>failedHost\<close> is the variable that \<open>reconnectFn\<close> captures.\<close>

record 'b RRC =
  r_body :: 'b
  r_bytesRead :: int
  r_expected :: int
  r_maxRetries :: int
  r_retries :: int
  r_closed :: bool
  r_failedHost :: string

definition advance :: "string \<Rightarrow> 'b RRC \<Rightarrow> 'b RRC" where
  "advance d r =
     (if 0 < length d then r\<lparr>r_bytesRead := wrap64 (r_bytesRead r + int (length d))\<rparr> else r)"

definition Read ::
  "('b, 'w) BLib \<Rightarrow> nat \<Rightarrow> 'b RRC \<times> 'w \<Rightarrow> (string \<times> ioerr option) outcome \<times> 'b RRC \<times> 'w" where
  "Read lib n s =
     (let (r, w) = s in
      if r_closed r then (Ret ([], Some IoErrClosedPipe), r, w)
      else let ((d, err), w1) = b_read lib (r_body r) n w; r1 = advance d r in
      if err = None \<or> err = Some IoEOF then (Ret (d, err), r1, w1)
      else if 0 < length d then (Ret (d, None), r1, w1)
      else if \<not> isRetryableError err then (Ret ([], err), r1, w1)
      else if 0 \<le> r_expected r1 \<and> r_expected r1 \<le> r_bytesRead r1 then (Ret ([], Some IoEOF), r1, w1)
      else if r_maxRetries r1 \<le> r_retries r1 then (Ret ([], err), r1, w1)
      else let w2 = b_close lib (r_body r1) w1;
               (q, fh, w3) = b_reconnect lib (r_bytesRead r1) (r_failedHost r1) w2;
               r2 = r1\<lparr>r_failedHost := fh\<rparr>;
               r3 = r2\<lparr>r_retries := r_retries r2 + 1\<rparr>
           in case q of
                Panic k \<Rightarrow> (Panic k, r2, w3)
              | Fail x \<Rightarrow> (Ret ([], err), r3, w3)
              | Ret UpstreamEOF \<Rightarrow> (Ret ([], Some IoEOF), r3, w3)
              | Ret (NewBody b) \<Rightarrow>
                  (let ((d', err'), w4) = b_read lib b n w3
                   in (Ret (d', err'), advance d' (r3\<lparr>r_body := b\<rparr>), w4)))"

definition RRC_Close :: "('b, 'w) BLib \<Rightarrow> 'b RRC \<times> 'w \<Rightarrow> 'b RRC \<times> 'w" where
  "RRC_Close lib s = (case s of (r, w) \<Rightarrow> (r\<lparr>r_closed := True\<rparr>, b_close lib (r_body r) w))"

section \<open>RoundTrip\<close>

record RetryContext =
  rc_Src :: Source
  rc_Claims :: MapClaims
  rc_Cfg :: ServicesConfig
  rc_MaxRetries :: int

definition copied_headers :: "string list" where
  "copied_headers = [''X-Source-Url'', ''X-Proxy-Url'', ''X-Info-Hash'', ''X-Path'', ''X-Origin-Path'',
     ''X-Full-Path'', ''X-Token'', ''X-Api-Key'', ''X-Session-ID'', ''X-Download-Rate'']"

fun copy_headers :: "string list \<Rightarrow> Header \<Rightarrow> Header \<Rightarrow> Header" where
  "copy_headers [] src dst = dst"
| "copy_headers (k # ks) src dst =
     copy_headers ks src (if header_get src k \<noteq> [] then header_set k (header_get src k) dst else dst)"

definition range_from :: "int \<Rightarrow> string" where
  "range_from n = ''bytes='' @ show_int n @ ''-''"

definition retry_cfg :: "RetryContext \<Rightarrow> ServiceConfig option" where
  "retry_cfg rc =
     (let edgeType = GetEdgeType (rc_Src rc);
          role = (case claim_str (rc_Claims rc) ''role'' of Some v \<Rightarrow> v | None \<Rightarrow> []);
          cfg = GetMod (rc_Cfg rc) (edgeType @ ''-'' @ role)
      in if cfg = None then GetMod (rc_Cfg rc) edgeType else cfg)"

definition failed_ip :: "string \<Rightarrow> string" where
  "failed_ip failedHost =
     (case SplitHost failedHost of
        Some h \<Rightarrow> if h = [] then failedHost else h
      | None \<Rightarrow> failedHost)"

text \<open>The request that asks the fallback pod for the rest of the object.\<close>

definition retry_request ::
  "('b, 'w) HLib \<Rightarrow> Request \<Rightarrow> string \<Rightarrow> int \<Rightarrow> Request outcome" where
  "retry_request h req targetHost newStart =
     and_then (h_NewRequest h (rq_Method req)
         (''http://'' @ targetHost @ u_Path (rq_URL req) @ ''?'' @ u_RawQuery (rq_URL req))) (\<lambda>newReq.
       Ret (newReq\<lparr>rq_Header := header_set ''Range'' (range_from newStart)
         (copy_headers copied_headers (rq_Header req) (rq_Header newReq))\<rparr>))"

text \<open>What the reconnection makes of the response; the texts of the errors are abbreviated.\<close>

definition check_retry ::
  "('b, 'w) HLib \<Rightarrow> int \<Rightarrow> 'b Response \<Rightarrow> 'w \<Rightarrow> 'b reconn outcome \<times> 'w" where
  "check_retry h newStart resp w =
     (case rs_Body resp of
        None \<Rightarrow> (Panic NilDeref, w)
      | Some b \<Rightarrow>
          if rs_StatusCode resp = StatusRequestedRangeNotSatisfiable then
            (let totalStr = trim_prefix (header_get (rs_Header resp) ''Content-Range'') ''bytes */'' in
             (if parse_int 10 totalStr = Some newStart then Ret UpstreamEOF
              else Fail (ErrMsg ''expected 206 on retry, got 416''), h_Close h b w))
          else if rs_StatusCode resp \<noteq> StatusPartialContent then
            (Fail (ErrMsg (''expected 206 on retry, got '' @ show_int (rs_StatusCode resp))), h_Close h b w)
          else (Ret (NewBody b), w))"

definition reconnectFn ::
  "'w SLib \<Rightarrow> ('b, 'w) HLib \<Rightarrow> RetryContext \<Rightarrow> Request \<Rightarrow> int \<Rightarrow> int \<Rightarrow> string \<Rightarrow> 'w \<Rightarrow>
   'b reconn outcome \<times> string \<times> 'w" where
  "reconnectFn e h rc req origStart offset failedHost w =
     (let newStart = wrap64 (origStart + offset) in
      case retry_cfg rc of
        None \<Rightarrow> (Fail (ErrMsg ''no service config found''), failedHost, w)
      | Some cfg \<Rightarrow>
          (case GetFallback e (Some cfg) (rc_Src rc) (n_ParseIP (e_net e) (failed_ip failedHost)) (rc_Claims rc) w of
             (Fail x, w1) \<Rightarrow> (Fail (ErrWrap ''failed to resolve fallback'' x), failedHost, w1)
           | (Panic k, w1) \<Rightarrow> (Panic k, failedHost, w1)
           | (Ret loc, w1) \<Rightarrow>
               (let targetHost = ip_string e (lo_IP loc) @ '':'' @ show_int (lo_HTTP loc) in
                case retry_request h req targetHost newStart of
                  Fail x \<Rightarrow> (Fail x, failedHost, w1)
                | Panic k \<Rightarrow> (Panic k, failedHost, w1)
                | Ret newReq \<Rightarrow>
                    (case redirect_RoundTrip h newReq w1 of
                       (Fail x, w2) \<Rightarrow> (Fail (ErrWrap ''retry request failed'' x), failedHost, w2)
                     | (Panic k, w2) \<Rightarrow> (Panic k, failedHost, w2)
                     | (Ret resp, w2) \<Rightarrow>
                         (let (q, w3) = check_retry h newStart resp w2 in
                          (q, (case q of Ret (NewBody b) \<Rightarrow> targetHost | _ \<Rightarrow> failedHost), w3))))))"

text \<open>The offset in the object at which a response starts, if it is known.\<close>

definition orig_start :: "Request \<Rightarrow> 'b Response \<Rightarrow> int option" where
  "orig_start req resp =
     (if rs_StatusCode resp = StatusPartialContent then
        (case parseContentRangeStart (header_get (rs_Header resp) ''Content-Range'') of
           Some s \<Rightarrow> Some s
         | None \<Rightarrow>
             (case parseRange (header_get (rq_Header req) ''Range'') of
                (start, _, _, ok) \<Rightarrow> if ok then Some start else None))
      else Some 0)"

text \<open>The response, and the reader that replaces its body if it is wrapped, with the
  reconnection it uses.\<close>

definition retry_RoundTrip ::
  "'w SLib \<Rightarrow> ('b, 'w) HLib \<Rightarrow> ('b, 'w) RoundTripper \<Rightarrow> RetryContext option \<Rightarrow> Request \<Rightarrow> 'w \<Rightarrow>
   ('b Response \<times> ('b RRC \<times> (int \<Rightarrow> string \<Rightarrow> 'w \<Rightarrow> 'b reconn outcome \<times> string \<times> 'w)) option) outcome \<times> 'w" where
  "retry_RoundTrip e h inner rc req w =
     (case inner req w of
        (Fail x, w1) \<Rightarrow> (Fail x, w1)
      | (Panic k, w1) \<Rightarrow> (Panic k, w1)
      | (Ret resp, w1) \<Rightarrow>
          (case (rc, rs_Body resp) of
             (Some c, Some b) \<Rightarrow>
               if rc_MaxRetries c \<le> 0 then (Ret (resp, None), w1)
               else if rs_StatusCode resp \<noteq> StatusOK \<and> rs_StatusCode resp \<noteq> StatusPartialContent
               then (Ret (resp, None), w1)
               else (case orig_start req resp of
                 None \<Rightarrow> (Ret (resp, None), w1)
               | Some origStart \<Rightarrow>
                   (Ret (resp, Some (\<lparr>r_body = b, r_bytesRead = 0, r_expected = rs_ContentLength resp,
                      r_maxRetries = rc_MaxRetries c, r_retries = 0, r_closed = False,
                      r_failedHost = u_Host (rq_URL req)\<rparr>, reconnectFn e h c req origStart)), w1))
           | _ \<Rightarrow> (Ret (resp, None), w1)))"

section \<open>Delivery\<close>

text \<open>
  A stream of the bytes of one object: \<open>posn s p\<close> says that the next byte the stream delivers in
  state \<open>s\<close> is the one at offset \<open>p\<close>. Reading delivers the bytes from there and moves on.
\<close>

fun read_seq :: "(nat \<Rightarrow> 's \<Rightarrow> string \<times> 's) \<Rightarrow> nat list \<Rightarrow> 's \<Rightarrow> string \<times> 's" where
  "read_seq rd [] s = ([], s)"
| "read_seq rd (n # ns) s =
     (let (d, s1) = rd n s; (ds, s2) = read_seq rd ns s1 in (d @ ds, s2))"

locale byte_stream =
  fixes rd :: "nat \<Rightarrow> 's \<Rightarrow> string \<times> 's"
    and posn :: "'s \<Rightarrow> nat \<Rightarrow> bool"
    and obj :: string
  assumes rd_posn: "posn s p \<Longrightarrow> rd n s = (d, s') \<Longrightarrow>
    length d \<le> n \<and> d = take (length d) (drop p obj) \<and> posn s' (p + length d)"
begin

lemma take_take_drop: "take a (drop p obj) @ take b (drop (p + a) obj) = take (a + b) (drop p obj)"
  by (simp add: take_add add.commute)

lemma seq_at:
  assumes "posn s p" "read_seq rd ns s = (ds, s')"
  shows "ds = take (length ds) (drop p obj) \<and> posn s' (p + length ds)"
  using assms
proof (induction ns arbitrary: s p ds)
  case (Cons n ns)
  obtain d s1 where d: "rd n s = (d, s1)" by fastforce
  obtain es where es: "read_seq rd ns s1 = (es, s')" and ds: "ds = d @ es"
    using Cons.prems(2) d by (auto split: prod.splits)
  have one: "d = take (length d) (drop p obj)" "posn s1 (p + length d)"
    using rd_posn [OF Cons.prems(1) d] by simp_all
  have rest: "es = take (length es) (drop (p + length d) obj)" "posn s' (p + length d + length es)"
    using Cons.IH [OF one(2) es] by simp_all
  have "d @ es = take (length d) (drop p obj) @ take (length es) (drop (p + length d) obj)"
    using one(1) rest(1) by metis
  also have "\<dots> = take (length d + length es) (drop p obj)" by (rule take_take_drop)
  finally have eq: "ds = take (length ds) (drop p obj)" unfolding ds length_append .
  moreover have "posn s' (p + length ds)" using rest(2) by (simp add: ds add.assoc)
  ultimately show ?case by blast
qed simp

end

text \<open>
  What the pods promise: a body delivers the bytes of the object from its position, closing it
  or reconnecting does not move another body, and a reconnection at \<open>offset\<close> that succeeds
  yields a body positioned at \<open>start + offset\<close>, where the original response began at \<open>start\<close>.
\<close>

definition upstream_ok ::
  "('b, 'w) BLib \<Rightarrow> ('b \<Rightarrow> 'w \<Rightarrow> nat) \<Rightarrow> string \<Rightarrow> nat \<Rightarrow> bool" where
  "upstream_ok lib pos obj start \<longleftrightarrow> start \<le> length obj \<and> length obj < 2 ^ 63 \<and>
     (\<forall>b n w. let d = fst (fst (b_read lib b n w)) in
        length d \<le> n \<and> d = take (length d) (drop (pos b w) obj) \<and>
        pos b (snd (b_read lib b n w)) = pos b w + length d) \<and>
     (\<forall>b b' w. pos b (b_close lib b' w) = pos b w) \<and>
     (\<forall>off fh w. case b_reconnect lib off fh w of (q, fh', w') \<Rightarrow>
        (\<forall>b. q = Ret (NewBody b) \<longrightarrow> 0 \<le> off \<longrightarrow> start + nat off \<le> length obj \<longrightarrow> pos b w' = start + nat off) \<and>
        (\<forall>b. q \<noteq> Ret (NewBody b) \<longrightarrow> pos b w' = pos b w))"

definition stream_at ::
  "('b, 'w) BLib \<Rightarrow> ('b \<Rightarrow> 'w \<Rightarrow> nat) \<Rightarrow> string \<Rightarrow> nat \<Rightarrow> 'b RRC \<times> 'w \<Rightarrow> nat \<Rightarrow> bool" where
  "stream_at lib pos obj start s p \<longleftrightarrow> upstream_ok lib pos obj start \<and>
     pos (r_body (fst s)) (snd s) = p \<and> start \<le> p \<and> p \<le> length obj \<and>
     r_bytesRead (fst s) = int (p - start)"

definition read_data :: "('b, 'w) BLib \<Rightarrow> nat \<Rightarrow> 'b RRC \<times> 'w \<Rightarrow> string \<times> 'b RRC \<times> 'w" where
  "read_data lib n s =
     (case Read lib n s of (Ret (d, _), s') \<Rightarrow> (d, s') | (_, s') \<Rightarrow> ([], s'))"

lemma advance_simps [simp]:
  "r_body (advance d r) = r_body r" "r_expected (advance d r) = r_expected r"
  "r_maxRetries (advance d r) = r_maxRetries r" "r_retries (advance d r) = r_retries r"
  "r_closed (advance d r) = r_closed r" "r_failedHost (advance d r) = r_failedHost r"
  "advance [] r = r"
  by (simp_all add: advance_def)

lemma read_at:
  assumes "upstream_ok lib pos obj start" "b_read lib b n w = ((d, err), w')" "pos b w = p"
    and "start \<le> p" "p \<le> length obj" "r_bytesRead r = int (p - start)" "r_body r = b"
  shows "length d \<le> n \<and> d = take (length d) (drop p obj) \<and> stream_at lib pos obj start (advance d r, w') (p + length d)"
proof -
  have c: "length d \<le> n" "d = take (length d) (drop p obj)" "pos b w' = p + length d"
    using assms(1-3) unfolding upstream_ok_def by (metis fst_conv snd_conv)+
  have "length d \<le> length obj - p" using c(2) by (metis length_drop length_take min.cobounded1)
  then have le: "p + length d \<le> length obj" using assms(5) by simp
  have "length obj < 2 ^ 63" using assms(1) by (simp add: upstream_ok_def)
  then have "in_int64 (r_bytesRead r + int (length d))"
    using le assms(4,6) by (simp add: in_int64_def)
  then have "r_bytesRead (advance d r) = int (p + length d - start)"
    using assms(4,6) by (auto simp: advance_def wrap64_id)
  then show ?thesis using c le assms by (simp add: stream_at_def)
qed

lemma reconnect_at:
  assumes "upstream_ok lib pos obj start" "b_reconnect lib off fh w = (q, fh', w')"
  shows "q = Ret (NewBody b) \<Longrightarrow> 0 \<le> off \<Longrightarrow> start + nat off \<le> length obj \<Longrightarrow> pos b w' = start + nat off"
    and "q \<noteq> Ret (NewBody b) \<Longrightarrow> pos b w' = pos b w"
proof -
  have "case b_reconnect lib off fh w of (q, fh', w') \<Rightarrow>
      (\<forall>b. q = Ret (NewBody b) \<longrightarrow> 0 \<le> off \<longrightarrow> start + nat off \<le> length obj \<longrightarrow> pos b w' = start + nat off) \<and>
      (\<forall>b. q \<noteq> Ret (NewBody b) \<longrightarrow> pos b w' = pos b w)"
    using assms(1) by (simp add: upstream_ok_def)
  then show "q = Ret (NewBody b) \<Longrightarrow> 0 \<le> off \<Longrightarrow> start + nat off \<le> length obj \<Longrightarrow> pos b w' = start + nat off"
    and "q \<noteq> Ret (NewBody b) \<Longrightarrow> pos b w' = pos b w"
    by (simp_all add: assms(2))
qed

lemma read_data_at:
  assumes "stream_at lib pos obj start (r, w) p" "read_data lib n (r, w) = (d, s')"
  shows "length d \<le> n \<and> d = take (length d) (drop p obj) \<and> stream_at lib pos obj start s' (p + length d)"
proof -
  note at = assms(1) [unfolded stream_at_def fst_conv snd_conv]
  obtain d0 err w1 where rd: "b_read lib (r_body r) n w = ((d0, err), w1)" by (metis prod.collapse)
  have first: "length d0 \<le> n \<and> d0 = take (length d0) (drop p obj) \<and>
      stream_at lib pos obj start (advance d0 r, w1) (p + length d0)"
    using at by (intro read_at [OF _ rd]) auto
  obtain q fh w3 where q: "b_reconnect lib (r_bytesRead r) (r_failedHost r) (b_close lib (r_body r) w1) = (q, fh, w3)"
    by (metis prod.collapse)
  have up: "upstream_ok lib pos obj start" using at by blast
  have closed: "pos b (b_close lib b' u) = pos b u" for b b' u using up by (simp add: upstream_ok_def)
  consider (stay) "d = []" "s' = (r, w)" | (first) "d = d0" "s' = (advance d0 r, w1)"
    | (broken) r' where "d0 = []" "d = []" "s' = (r', w3)" "\<And>b. q \<noteq> Ret (NewBody b)"
        "r_body r' = r_body r" "r_bytesRead r' = r_bytesRead r"
    | (resumed) b e' w4 r' where "d0 = []" "q = Ret (NewBody b)" "b_read lib b n w3 = ((d, e'), w4)"
        "s' = (advance d r', w4)" "r_body r' = b" "r_bytesRead r' = r_bytesRead r"
    using assms(2)
    by (auto simp: read_data_def Read_def rd q Let_def split: if_splits outcome.splits reconn.splits prod.splits)
  then show ?thesis
  proof cases
    case stay
    then show ?thesis using assms(1) by simp
  next
    case first
    then show ?thesis using \<open>length d0 \<le> n \<and> _\<close> by simp
  next
    case broken
    have "pos (r_body r) w3 = pos (r_body r) w1" using reconnect_at(2) [OF up q broken(4)] closed by simp
    then show ?thesis using broken first at by (simp add: stream_at_def)
  next
    case resumed
    have "start \<le> p" "p \<le> length obj" using at by blast+
    then have "pos b w3 = p" using reconnect_at(1) [OF up q resumed(2)] at by (simp add: nat_diff_distrib)
    then show ?thesis unfolding resumed(4) using resumed at by (intro read_at [OF up resumed(3)]) auto
  qed
qed

interpretation rr: byte_stream "read_data lib" "stream_at lib pos obj start" obj for lib pos obj start
proof
  fix s p n d s'
  assume "stream_at lib pos obj start s p" "read_data lib n s = (d, s')"
  then show "length d \<le> n \<and> d = take (length d) (drop p obj) \<and> stream_at lib pos obj start s' (p + length d)"
    by (cases s) (simp only: read_data_at)
qed

text \<open>What the client receives through the retrying reader is a contiguous piece of the
  object: whatever the buffer sizes and wherever connections break and are resumed, the bytes
  delivered by a sequence of reads are the bytes of the object from the offset where the
  original response began, with none missing, repeated or out of place.\<close>

theorem retry_delivers_object:
  assumes "upstream_ok lib pos obj start" "pos (r_body r) w = start" "r_bytesRead r = 0"
    and "read_seq (read_data lib) ns (r, w) = (ds, s')"
  shows "ds = take (length ds) (drop start obj) \<and> r_bytesRead (fst s') = int (length ds)"
proof -
  have "stream_at lib pos obj start (r, w) start"
    using assms(1-3) by (simp add: stream_at_def upstream_ok_def)
  from rr.seq_at [OF this assms(4)] show ?thesis by (simp add: stream_at_def)
qed

definition demo_obj :: string where
  "demo_obj = ''abcdef''"

text \<open>Two connections to an object of six bytes: connection 0 breaks after three bytes, and
  reconnecting opens connection 1. The world holds the positions. Each read delivers one byte.\<close>

definition demo_blib :: "(nat, nat \<Rightarrow> nat) BLib" where
  "demo_blib =
     \<lparr>b_read = (\<lambda>b n w.
        if n = 0 then (([], None), w)
        else if w b < (if b = 0 then 3 else 6) then (([demo_obj ! w b], None), w(b := Suc (w b)))
        else (([], Some (if b = 0 then Errno ECONNRESET else IoEOF)), w)),
      b_close = (\<lambda>b w. w),
      b_reconnect = (\<lambda>off fh w. (Ret (NewBody 1), fh, w(1 := nat off)))\<rparr>"

definition demo_rrc :: "nat RRC" where
  "demo_rrc = \<lparr>r_body = 0, r_bytesRead = 0, r_expected = 6, r_maxRetries = 3, r_retries = 0,
     r_closed = False, r_failedHost = ''10.1:80''\<rparr>"

lemma demo_upstream_ok: "upstream_ok demo_blib (\<lambda>b w. w b) demo_obj 0"
proof -
  have "take (Suc 0) (drop k demo_obj) = [demo_obj ! k]" if "k < 6" for k
    using that by (simp add: take_Suc hd_drop_conv_nth demo_obj_def)
  moreover have "length demo_obj = 6" by (simp add: demo_obj_def)
  ultimately show ?thesis
    by (auto simp: upstream_ok_def demo_blib_def Let_def)
qed

theorem retry_delivers_object_witness:
  "let res = read_seq (read_data demo_blib) [1, 1, 1, 1] (demo_rrc, \<lambda>_. 0) in
   fst res = ''abcd'' \<and> fst res = take (length (fst res)) (drop 0 demo_obj) \<and>
   r_bytesRead (fst (snd res)) = int (length (fst res))"
proof -
  let ?res = "read_seq (read_data demo_blib) [1, 1, 1, 1] (demo_rrc, \<lambda>_. 0)"
  have "fst ?res = ''abcd''" by code_simp
  moreover have "fst ?res = take (length (fst ?res)) (drop 0 demo_obj) \<and>
      r_bytesRead (fst (snd ?res)) = int (length (fst ?res))"
    by (rule retry_delivers_object [OF demo_upstream_ok _ _ prod.collapse [symmetric]])
      (simp_all add: demo_rrc_def)
  ultimately show ?thesis unfolding Let_def by (rule conjI)
qed

text \<open>The library with a count, in the world, of the reconnections that return. A panic ends the request.\<close>

definition counted :: "('b, 'w) BLib \<Rightarrow> ('b, 'w \<times> nat) BLib" where
  "counted lib =
     \<lparr>b_read = (\<lambda>b n (w, k). case b_read lib b n w of (x, w') \<Rightarrow> (x, (w', k))),
      b_close = (\<lambda>b (w, k). (b_close lib b w, k)),
      b_reconnect = (\<lambda>off fh (w, k). case b_reconnect lib off fh w of
        (q, fh', w') \<Rightarrow> (q, fh', (w', case q of Panic p \<Rightarrow> k | _ \<Rightarrow> Suc k)))\<rparr>"

lemma counted_simps:
  "b_read (counted lib) b n (w, k) = (case b_read lib b n w of (x, w') \<Rightarrow> (x, (w', k)))"
  "b_close (counted lib) b (w, k) = (b_close lib b w, k)"
  "b_reconnect (counted lib) off fh (w, k) = (case b_reconnect lib off fh w of
     (q, fh', w') \<Rightarrow> (q, fh', (w', case q of Panic p \<Rightarrow> k | _ \<Rightarrow> Suc k)))"
  by (simp_all add: counted_def)

lemma counted_read_data:
  assumes "read_data lib n (r, w) = (d, (r', w'))"
  obtains k' where "read_data (counted lib) n (r, (w, k)) = (d, (r', (w', k')))" "int k' + r_retries r = int k + r_retries r'"
    "r_retries r \<le> r_retries r'" "r_retries r \<le> r_maxRetries r \<Longrightarrow> r_retries r' \<le> r_maxRetries r" "r_maxRetries r' = r_maxRetries r"
proof -
  obtain d0 err w1 where rd: "b_read lib (r_body r) n w = ((d0, err), w1)" by (metis prod.collapse)
  obtain q fh w3 where q: "b_reconnect lib (r_bytesRead r) (r_failedHost r) (b_close lib (r_body r) w1) = (q, fh, w3)"
    by (metis prod.collapse)
  note sides = assms [unfolded read_data_def Read_def Let_def prod.case rd]
  note counts = counted_simps [where lib = lib] rd
  let ?done = "r_closed r \<or> err = None \<or> err = Some IoEOF \<or> 0 < length d0 \<or> \<not> isRetryableError err \<or>
    0 \<le> r_expected r \<and> r_expected r \<le> r_bytesRead r \<or> r_maxRetries r \<le> r_retries r"
  show thesis
  proof (cases ?done)
    case True
    have "read_data (counted lib) n (r, (w, k)) = (d, (r', (w', k)))" "r_retries r' = r_retries r" "r_maxRetries r' = r_maxRetries r"
      using sides True by (auto simp: read_data_def Read_def Let_def counts split: if_splits)
    then show thesis using that by simp
  next
    case False
    then have F: "d0 = []" "r_retries r < r_maxRetries r" by auto
    show thesis
    proof (cases q)
      case (Ret x)
      have "read_data (counted lib) n (r, (w, k)) = (d, (r', (w', Suc k)))" "r_retries r' = r_retries r + 1" "r_maxRetries r' = r_maxRetries r"
        using sides False by (cases x; auto simp: read_data_def Read_def Let_def counts q Ret split: prod.splits)+
      then show thesis using that [of "Suc k"] F by simp
    next
      case (Fail x)
      have "read_data (counted lib) n (r, (w, k)) = (d, (r', (w', Suc k)))" "r_retries r' = r_retries r + 1" "r_maxRetries r' = r_maxRetries r"
        using sides False by (auto simp: read_data_def Read_def Let_def counts q Fail)
      then show thesis using that [of "Suc k"] F by simp
    next
      case (Panic p)
      have "read_data (counted lib) n (r, (w, k)) = (d, (r', (w', k)))" "r_retries r' = r_retries r" "r_maxRetries r' = r_maxRetries r"
        using sides False by (auto simp: read_data_def Read_def Let_def counts q Panic)
      then show thesis using that by simp
    qed
  qed
qed

text \<open>C32: The number of reconnections is bounded: over its whole life, however often it is read and wherever connections
  break, a reader calls its reconnection successfully or in vain at most \<open>maxRetries\<close> times, and counting the calls changes
  nothing of what is read.\<close>

theorem retries_bounded:
  assumes "r_retries r \<le> r_maxRetries r" "read_seq (read_data lib) ns (r, w) = (ds, (r', w'))"
  shows "\<exists>k. read_seq (read_data (counted lib)) ns (r, (w, 0)) = (ds, (r', (w', k))) \<and> int k \<le> r_maxRetries r - r_retries r"
proof -
  have "\<exists>k'. read_seq (read_data (counted lib)) ns (r, (w, k)) = (ds, (r', (w', k'))) \<and> int k' \<le> int k + (r_maxRetries r - r_retries r)" for k
    using assms
  proof (induction ns arbitrary: r w ds k)
    case (Cons n ns)
    obtain d a u where d: "read_data lib n (r, w) = (d, (a, u))" by (metis prod.collapse)
    obtain es where es: "read_seq (read_data lib) ns (a, u) = (es, (r', w'))" "ds = d @ es"
      using Cons.prems(2) d by (auto split: prod.splits)
    from d show ?case
    proof (rule counted_read_data [where k = k])
      fix k1
      assume k1: "read_data (counted lib) n (r, (w, k)) = (d, (a, (u, k1)))" "int k1 + r_retries r = int k + r_retries a"
        "r_retries r \<le> r_maxRetries r \<Longrightarrow> r_retries a \<le> r_maxRetries r" "r_maxRetries a = r_maxRetries r"
      obtain k2 where "read_seq (read_data (counted lib)) ns (a, (u, k1)) = (es, (r', (w', k2)))"
          "int k2 \<le> int k1 + (r_maxRetries a - r_retries a)"
        using Cons.IH [OF _ es(1), of k1] k1(3,4) Cons.prems(1) by auto
      then show ?thesis using k1 es(2) by auto
    qed
  qed simp
  from this [of 0] show ?thesis by simp
qed

theorem retries_bounded_witness:
  "\<exists>ds r' w' k. read_seq (read_data (counted demo_blib)) [1, 1, 1, 1] (demo_rrc, (\<lambda>_. 0, 0)) = (ds, (r', (w', k))) \<and> k \<le> 3"
proof -
  obtain ds r' w' where r: "read_seq (read_data demo_blib) [1, 1, 1, 1] (demo_rrc, \<lambda>_. 0) = (ds, (r', w'))"
    by (metis prod.collapse)
  show ?thesis using retries_bounded [OF _ r] by (auto simp: demo_rrc_def)
qed

text \<open>The reader does not make up an end of file: when it reports one, a body reported it, or
  the length announced by the original response has been delivered, or a reconnection found
  the object fully delivered.\<close>

theorem Read_EOF_justified:
  assumes "Read lib n (r, w) = (Ret (d, Some IoEOF), s')"
  shows "(\<exists>b w0 w1 d'. b_read lib b n w0 = ((d', Some IoEOF), w1)) \<or>
    0 \<le> r_expected r \<and> r_expected r \<le> r_bytesRead r \<or>
    (\<exists>w0 fh w1. b_reconnect lib (r_bytesRead r) (r_failedHost r) w0 = (Ret UpstreamEOF, fh, w1))"
  using assms
  by (auto simp: Read_def Let_def isRetryableError_def split: if_splits outcome.splits reconn.splits prod.splits)

theorem Read_EOF_justified_witness:
  "(\<exists>b w0 w1 d'. b_read demo_blib b 1 w0 = ((d', Some IoEOF), w1)) \<or>
    0 \<le> r_expected (demo_rrc\<lparr>r_bytesRead := 6\<rparr>) \<and> r_expected (demo_rrc\<lparr>r_bytesRead := 6\<rparr>) \<le> r_bytesRead (demo_rrc\<lparr>r_bytesRead := 6\<rparr>) \<or>
    (\<exists>w0 fh w1. b_reconnect demo_blib (r_bytesRead (demo_rrc\<lparr>r_bytesRead := 6\<rparr>)) (r_failedHost (demo_rrc\<lparr>r_bytesRead := 6\<rparr>)) w0 = (Ret UpstreamEOF, fh, w1))"
  by (rule Read_EOF_justified [where d = "[]" and w = "\<lambda>_. 3" and s' = "(demo_rrc\<lparr>r_bytesRead := 6\<rparr>, \<lambda>_. 3)"])
    (simp add: Read_def demo_blib_def demo_rrc_def isRetryableError_def)

section \<open>Ranges read back\<close>

lemma show_nat_no_dash: "CHR ''-'' \<notin> set (show_nat n)"
  by (rule show_nat_no_char) simp

lemma parseRange_show:
  assumes "a < 2 ^ 63"
  shows "parseRange (''bytes='' @ show_nat a @ ''-'') = (int a, 0, False, True)"
    and "b < 2 ^ 63 \<Longrightarrow> parseRange (''bytes='' @ show_nat a @ ''-'' @ show_nat b) = (int a, int b, True, True)"
    and "parseRange (''bytes=-'' @ s) = (0, 0, False, False)"
proof -
  have sp: "split2 (CHR ''-'') (show_nat a @ ''-'' @ t) = [show_nat a, t]" for t
    using split2_sep [OF show_nat_no_dash, of a t] by simp
  have pre: "trim_prefix (''bytes='' @ t) ''bytes='' = t" for t by (rule trim_prefix_append)
  show "parseRange (''bytes='' @ show_nat a @ ''-'') = (int a, 0, False, True)"
    unfolding parseRange_def pre using sp [of "[]"] parse_int_show_nat [OF assms] by simp
  show "parseRange (''bytes='' @ show_nat a @ ''-'' @ show_nat b) = (int a, int b, True, True)" if "b < 2 ^ 63"
    unfolding parseRange_def pre using sp [of "show_nat b"] parse_int_show_nat [OF assms] parse_int_show_nat [OF that]
    by simp
  have "parseRange (''bytes='' @ CHR ''-'' # s) = (0, 0, False, False)"
    unfolding parseRange_def pre using split2_sep [of "CHR ''-''" "[]" s] by simp
  then show "parseRange (''bytes=-'' @ s) = (0, 0, False, False)" by simp
qed

text \<open>The ranges of RFC 7233 with an absolute start are read back exactly, with and without an
  end, and the suffix form \<open>bytes=-N\<close> is refused, as it has no absolute start. In particular the
  \<open>Range\<close> of a resumed request names the offset that was resumed.\<close>

theorem parseRange_roundtrip:
  assumes "a < 2 ^ 63" "b < 2 ^ 63"
  shows "parseRange (range_from (int a)) = (int a, 0, False, True) \<and>
    parseRange (''bytes='' @ show_nat a @ ''-'' @ show_nat b) = (int a, int b, True, True) \<and>
    parseRange (''bytes=-'' @ show_nat b) = (0, 0, False, False)"
  using parseRange_show [OF assms(1)] assms(2) by (simp add: range_from_def show_int_def)

theorem parseRange_roundtrip_witness:
  "parseRange (range_from (int 1048576)) = (int 1048576, 0, False, True) \<and>
    parseRange (''bytes='' @ show_nat 1048576 @ ''-'' @ show_nat 2097151) = (int 1048576, int 2097151, True, True) \<and>
    parseRange (''bytes=-'' @ show_nat 2097151) = (0, 0, False, False)"
  by (rule parseRange_roundtrip) simp_all

section \<open>Reconnecting\<close>

lemma check_retry_NewBody:
  "check_retry h newStart resp w = (Ret (NewBody b), w') \<longleftrightarrow>
     rs_StatusCode resp = StatusPartialContent \<and> rs_Body resp = Some b \<and> w' = w"
  by (auto simp: check_retry_def status_defs Let_def split: option.splits)

lemma reconnectFn_NewBody:
  assumes "reconnectFn e h rc req origStart offset fh w = (Ret (NewBody b), fh', w')"
  obtains cfg loc w1 newReq resp where "retry_cfg rc = Some cfg"
    "GetFallback e (Some cfg) (rc_Src rc) (n_ParseIP (e_net e) (failed_ip fh)) (rc_Claims rc) w = (Ret loc, w1)"
    "fh' = ip_string e (lo_IP loc) @ '':'' @ show_int (lo_HTTP loc)"
    "retry_request h req fh' (wrap64 (origStart + offset)) = Ret newReq"
    "redirect_RoundTrip h newReq w1 = (Ret resp, w')"
    "rs_StatusCode resp = StatusPartialContent" "rs_Body resp = Some b"
  using assms
  by (auto simp: reconnectFn_def Let_def check_retry_NewBody
      split: option.splits outcome.splits prod.splits reconn.splits)

lemma copy_headers_get:
  "header_get (copy_headers ks src dst) k =
     (if canonical_key k \<in> canonical_key ` set ks \<and> header_get src k \<noteq> [] then header_get src k else header_get dst k)"
proof (induction ks arbitrary: dst)
  case (Cons a ks)
  have "header_get src a = header_get src k" if "canonical_key k = canonical_key a" using that by (simp add: header_get_def)
  then show ?case using Cons by auto
qed simp

lemma Range_not_copied: "canonical_key ''Range'' \<notin> canonical_key ` set copied_headers"
  by code_simp

text \<open>C22: A reconnection that succeeds for a service that is not located by environment variables goes to another pod
  and asks it for the rest: the host is the one of the fallback location, which is available and, while the ignore list
  keeps its entry, not the one that failed; the request has the method, path and query of the original one on that
  host, its proxy headers where they are set, and the object from \<open>origStart + offset\<close> on as its range, without an end even if
  the original range had one; and the new body is the one of a 206 response to this request. The pod becomes
  the one to exclude next.\<close>

theorem reconnect_resumes_elsewhere:
  assumes "reconnectFn e h rc req origStart offset fh w = (Ret (NewBody b), fh', w')"
    and "ignore_contract e" "\<forall>cfg. retry_cfg rc = Some cfg \<longrightarrow> sc_EndpointsProvider cfg \<noteq> Environment"
  shows "\<exists>cfg (loc :: Location) w1 base newReq resp. retry_cfg rc = Some cfg \<and>
    GetFallback e (Some cfg) (rc_Src rc) (n_ParseIP (e_net e) (failed_ip fh)) (rc_Claims rc) w = (Ret loc, w1) \<and>
    \<not> lo_Unavailable loc \<and> ip_string e (lo_IP loc) \<noteq> ip_string e (n_ParseIP (e_net e) (failed_ip fh)) \<and>
    fh' = ip_string e (lo_IP loc) @ '':'' @ show_int (lo_HTTP loc) \<and>
    h_NewRequest h (rq_Method req) (''http://'' @ ip_string e (lo_IP loc) @ '':'' @ show_int (lo_HTTP loc) @
      u_Path (rq_URL req) @ ''?'' @ u_RawQuery (rq_URL req)) = Ret base \<and>
    newReq = base\<lparr>rq_Header := rq_Header newReq\<rparr> \<and>
    header_get (rq_Header newReq) ''Range'' = range_from (wrap64 (origStart + offset)) \<and>
    (\<forall>k \<in> set copied_headers. header_get (rq_Header req) k \<noteq> [] \<longrightarrow> header_get (rq_Header newReq) k = header_get (rq_Header req) k) \<and>
    redirect_RoundTrip h newReq w1 = (Ret resp, w') \<and> rs_StatusCode resp = 206 \<and> rs_Body resp = Some b"
  using assms(1)
proof (rule reconnectFn_NewBody)
  fix cfg loc w1 newReq resp
  assume r: "retry_cfg rc = Some cfg"
    "GetFallback e (Some cfg) (rc_Src rc) (n_ParseIP (e_net e) (failed_ip fh)) (rc_Claims rc) w = (Ret loc, w1)"
    "fh' = ip_string e (lo_IP loc) @ '':'' @ show_int (lo_HTTP loc)"
    "retry_request h req fh' (wrap64 (origStart + offset)) = Ret newReq"
    "redirect_RoundTrip h newReq w1 = (Ret resp, w')"
    "rs_StatusCode resp = StatusPartialContent" "rs_Body resp = Some b"
  obtain base where base: "h_NewRequest h (rq_Method req) (''http://'' @ ip_string e (lo_IP loc) @ '':'' @ show_int (lo_HTTP loc) @
      u_Path (rq_URL req) @ ''?'' @ u_RawQuery (rq_URL req)) = Ret base"
      "newReq = base\<lparr>rq_Header := header_set ''Range'' (range_from (wrap64 (origStart + offset)))
         (copy_headers copied_headers (rq_Header req) (rq_Header base))\<rparr>"
    using r(4) by (auto simp: retry_request_def outcome_simps r(3))
  have "canonical_key k \<noteq> canonical_key ''Range''" if "k \<in> set copied_headers" for k
    using Range_not_copied imageI [OF that, of canonical_key] by metis
  then have copied: "\<forall>k \<in> set copied_headers. header_get (rq_Header req) k \<noteq> [] \<longrightarrow> header_get (rq_Header newReq) k = header_get (rq_Header req) k"
    by (auto simp: base(2) copy_headers_get)
  have "sc_EndpointsProvider cfg \<noteq> Environment" using assms(3) r(1) by simp
  note ex = fallback_excludes [OF assms(2) this r(2)]
  show ?thesis
    by (rule exI [of _ cfg], rule exI [of _ loc], rule exI [of _ w1], rule exI [of _ base], rule exI [of _ newReq], rule exI [of _ resp])
      (use r(1-3,5-7) base ex copied in \<open>simp add: status_defs\<close>)
qed

text \<open>A pod that serves the rest of an object to every request.\<close>

definition demo_hlib :: "(string, string list) HLib" where
  "demo_hlib = \<lparr>h_transport = (\<lambda>req w. (Ret \<lparr>rs_StatusCode = 206,
       rs_Header = header_set ''Content-Range'' ''bytes 3-5/6'' fmempty, rs_ContentLength = 3, rs_Body = Some ''def''\<rparr>, w)),
     h_external = (\<lambda>req w. (Fail (ErrMsg ''unreachable''), w)),
     h_NewRequest = (\<lambda>m u. Ret \<lparr>rq_Method = m, rq_URL = \<lparr>u_Path = ''/f'', u_RawQuery = [], u_Host = ''10.2:80''\<rparr>,
       rq_Header = fmempty\<rparr>),
     h_Close = (\<lambda>b w. w), h_empty_body = []\<rparr>"

definition demo_source :: Source where
  "demo_source = \<lparr>s_Type = ''default'', s_Name = ''torrent-web-seeder'', s_InfoHash = ''00000'', s_Path = ''/f'',
     s_OriginPath = ''/f'', s_Token = [], s_ApiKey = [], s_Query = [], s_Mod = None\<rparr>"

definition demo_rc :: RetryContext where
  "demo_rc = \<lparr>rc_Src = demo_source, rc_Claims = None, rc_Cfg = small_config, rc_MaxRetries = 3\<rparr>"

theorem reconnect_resumes_elsewhere_witness:
  "\<exists>(loc :: Location) w1 base newReq resp. \<not> lo_Unavailable loc \<and>
    ip_string demo_lib (lo_IP loc) \<noteq> ip_string demo_lib (n_ParseIP (e_net demo_lib) (failed_ip ''10.1:80'')) \<and>
    ''10.2:80'' = ip_string demo_lib (lo_IP loc) @ '':'' @ show_int (lo_HTTP loc) \<and>
    h_NewRequest demo_hlib ''GET'' (''http://10.2:80/f?'') = Ret base \<and>
    redirect_RoundTrip demo_hlib newReq w1 = (Ret resp, [''10.1'']) \<and>
    header_get (rq_Header newReq) ''Range'' = range_from (wrap64 (0 + 3)) \<and>
    rs_StatusCode resp = 206 \<and> rs_Body resp = Some ''def''"
proof -
  have re: "reconnectFn demo_lib demo_hlib demo_rc sample_request 0 3 ''10.1:80'' [] = (Ret (NewBody ''def''), ''10.2:80'', [''10.1''])"
    by code_simp
  have ic: "ignore_contract demo_lib" by (simp add: ignore_contract_def demo_lib_def)
  have "retry_cfg demo_rc = Some (small_service ''torrent-web-seeder'')" by code_simp
  moreover have "sc_EndpointsProvider (small_service ''torrent-web-seeder'') \<noteq> Environment" by code_simp
  ultimately have ne: "\<forall>cfg. retry_cfg demo_rc = Some cfg \<longrightarrow> sc_EndpointsProvider cfg \<noteq> Environment" by simp
  from reconnect_resumes_elsewhere [OF re ic ne] show ?thesis
  proof (elim exE conjE)
    fix cfg and loc :: Location and w1 base newReq resp
    assume a: "\<not> lo_Unavailable loc"
      "ip_string demo_lib (lo_IP loc) \<noteq> ip_string demo_lib (n_ParseIP (e_net demo_lib) (failed_ip ''10.1:80''))"
      and host: "''10.2:80'' = ip_string demo_lib (lo_IP loc) @ '':'' @ show_int (lo_HTTP loc)"
      and url: "h_NewRequest demo_hlib (rq_Method sample_request) (''http://'' @ ip_string demo_lib (lo_IP loc) @ '':'' @ show_int (lo_HTTP loc) @
        u_Path (rq_URL sample_request) @ ''?'' @ u_RawQuery (rq_URL sample_request)) = Ret base"
      and b: "header_get (rq_Header newReq) ''Range'' = range_from (wrap64 (0 + 3))"
        "redirect_RoundTrip demo_hlib newReq w1 = (Ret resp, [''10.1''])" "rs_StatusCode resp = 206" "rs_Body resp = Some ''def''"
    from url have u: "h_NewRequest demo_hlib ''GET'' (''http://10.2:80/f?'') = Ret base" by (simp add: demo_hlib_def sample_request_def)
    show ?thesis
      by (rule exI [of _ loc], rule exI [of _ w1], rule exI [of _ base], rule exI [of _ newReq], rule exI [of _ resp])
        (intro conjI a host u b)
  qed
qed

lemma parseContentRangeStart_show:
  assumes "a < 2 ^ 63"
  shows "parseContentRangeStart (''bytes '' @ show_nat a @ ''-'' @ t) = Some (int a)"
proof -
  have pre: "trim_prefix (''bytes '' @ s) ''bytes '' = s" for s by (rule trim_prefix_append)
  have "index_byte (CHR ''-'') (show_nat a @ ''-'' @ t) = Some (length (show_nat a))"
    using index_byte_append [OF show_nat_no_dash, of a t] by simp
  then show ?thesis unfolding parseContentRangeStart_def pre using parse_int_show_nat [OF assms] by simp
qed

text \<open>A 206 response is wrapped at the offset the upstream states: with a \<open>Content-Range\<close> of
  the form \<open>bytes a-...\<close> the reconnection starts counting at \<open>a\<close>, whatever range the client
  asked for. A 206 without a usable \<open>Content-Range\<close> to a suffix range is not wrapped at all.\<close>

theorem retry_wraps_at_stated_offset:
  assumes "inner req w = (Ret resp, w1)" "rs_StatusCode resp = StatusPartialContent"
    and "rs_Body resp = Some b" "0 < rc_MaxRetries c" "a < 2 ^ 63"
  shows "(header_get (rs_Header resp) ''Content-Range'' = ''bytes '' @ show_nat a @ ''-'' @ t \<longrightarrow>
     (\<exists>r. retry_RoundTrip e h inner (Some c) req w = (Ret (resp, Some (r, reconnectFn e h c req (int a))), w1) \<and>
       r_body r = b \<and> r_bytesRead r = 0 \<and> r_retries r = 0 \<and> \<not> r_closed r)) \<and>
    (header_get (rs_Header resp) ''Content-Range'' = [] \<longrightarrow>
     header_get (rq_Header req) ''Range'' = ''bytes=-'' @ t \<longrightarrow>
     retry_RoundTrip e h inner (Some c) req w = (Ret (resp, None), w1))"
proof -
  note cr = parseContentRangeStart_show [OF assms(5), of t]
  have none: "parseContentRangeStart [] = None"
    by (simp add: parseContentRangeStart_def trim_prefix_def has_prefix_def)
  have suffix: "parseRange (''bytes=-'' @ t) = (0, 0, False, False)" by (rule parseRange_show(3) [OF assms(5)])
  show ?thesis
    using assms(1-4)
    by (auto simp: retry_RoundTrip_def orig_start_def cr none suffix
        simp del: append_Cons)
qed

theorem retry_wraps_at_stated_offset_witness:
  "\<exists>resp r. retry_RoundTrip demo_lib demo_hlib (h_transport demo_hlib) (Some demo_rc) sample_request [] =
      (Ret (resp, Some (r, reconnectFn demo_lib demo_hlib demo_rc sample_request (int 3))), []) \<and>
     r_body r = ''def'' \<and> r_bytesRead r = 0 \<and> r_retries r = 0 \<and> \<not> r_closed r"
proof -
  have hdr: "header_get (header_set ''Content-Range'' ''bytes 3-5/6'' fmempty) ''Content-Range'' =
      ''bytes '' @ show_nat 3 @ ''-'' @ ''5/6''"
    by code_simp
  show ?thesis
    using retry_wraps_at_stated_offset [where inner = "h_transport demo_hlib" and req = sample_request and w = "[]"
        and c = demo_rc and a = 3 and t = "''5/6''" and e = demo_lib and h = demo_hlib and b = "''def''"] hdr
    by (auto simp: demo_hlib_def demo_rc_def status_defs)
qed

end
