(* ===== verification/Manifest_Rewriter.thy ===== *)
theory Manifest_Rewriter
  imports Claims Go_HTTP
begin

text \<open>
  The manifest rewriter (\<open>services/manifest_rewriter.go\<close>) and the chain of response rules
  (\<open>services/rules.go\<close>): in an HLS playlist the segments that start within the grace period of a
  token get the grace token instead.

  Floating-point numbers are the type \<open>'f\<close> of the record \<open>FloatLib\<close>: parsing, the conversion of an
  integer, addition and the comparisons of \<open>float64\<close>. The theorems hold for every such record; the
  one that needs a law of the arithmetic states it (\<open>float_monotone\<close>).
\<close>

record 'f FloatLib =
  f_parse :: "string \<Rightarrow> 'f option"
  f_of_int :: "int \<Rightarrow> 'f"
  f_add :: "'f \<Rightarrow> 'f \<Rightarrow> 'f"
  f_less :: "'f \<Rightarrow> 'f \<Rightarrow> bool"
  f_ge :: "'f \<Rightarrow> 'f \<Rightarrow> bool"

section \<open>Package bytes\<close>

fun split_after :: "char \<Rightarrow> string \<Rightarrow> string list" where
  "split_after c [] = [[]]"
| "split_after c (x # xs) =
     (if x = c then [x] # split_after c xs
      else case split_after c xs of [] \<Rightarrow> [[x]] | y # ys \<Rightarrow> (x # y) # ys)"

definition trim_left :: "string \<Rightarrow> string \<Rightarrow> string" where
  "trim_left cutset s = dropWhile (\<lambda>c. c \<in> set cutset) s"

definition trim_right :: "string \<Rightarrow> string \<Rightarrow> string" where
  "trim_right cutset s = rev (dropWhile (\<lambda>c. c \<in> set cutset) (rev s))"

definition replace_first :: "string \<Rightarrow> string \<Rightarrow> string \<Rightarrow> string" where
  "replace_first p q s =
     (case index_sub p s of None \<Rightarrow> s | Some i \<Rightarrow> take i s @ q @ drop (i + length p) s)"

definition CR :: char where "CR = char_of (13 :: nat)"
definition LF :: char where "LF = char_of (10 :: nat)"
definition TAB :: char where "TAB = char_of (9 :: nat)"

section \<open>The rewriter\<close>

definition tagSessionOffset :: string where "tagSessionOffset = ''#EXT-X-SESSION-OFFSET:''"
definition tagExtinf :: string where "tagExtinf = ''#EXTINF:''"

definition is_grace :: "Rule \<Rightarrow> bool" where
  "is_grace r \<longleftrightarrow> r_Kind r = ''grace'' \<and> r_Scope r = ''manifest'' \<and> r_Token r \<noteq> [] \<and> 0 < r_DurationSec r"

definition findGraceRule :: "MapClaims \<Rightarrow> Rule option" where
  "findGraceRule claims = find is_grace (ExtractRules claims)"

definition parseSessionOffset :: "'f FloatLib \<Rightarrow> string \<Rightarrow> 'f" where
  "parseSessionOffset fl body =
     (case index_sub tagSessionOffset body of
        None \<Rightarrow> f_of_int fl 0
      | Some idx \<Rightarrow>
          (let rest = drop (idx + length tagSessionOffset) body;
               val = takeWhile (\<lambda>c. c \<noteq> CR \<and> c \<noteq> LF) rest
           in case f_parse fl (trim_space val) of None \<Rightarrow> f_of_int fl 0 | Some v \<Rightarrow> v))"

fun strip_loop :: "string list \<Rightarrow> string \<Rightarrow> string" where
  "strip_loop [] out = out"
| "strip_loop (line # ls) out =
     (if has_prefix (trim_left [CHR '' '', TAB] line) tagSessionOffset then strip_loop ls out
      else strip_loop ls (out @ line))"

definition stripSessionOffsetLine :: "string \<Rightarrow> string" where
  "stripSessionOffsetLine body = strip_loop (split_after LF body) []"

definition swapToken :: "string \<Rightarrow> string \<Rightarrow> string \<Rightarrow> string" where
  "swapToken line primary grace =
     (if length primary = 0 then line
      else let needle = ''token='' @ primary in
        if \<not> contains line needle then line
        else replace_first needle (''token='' @ grace) line)"

definition line_core :: "string \<Rightarrow> string" where
  "line_core line = trim_left [CHR '' '', TAB] (trim_right [CR, LF] line)"

text \<open>The duration in an \<open>#EXTINF\<close> line, up to the first comma; \<open>None\<close> if it does not parse.\<close>

definition extinf :: "'f FloatLib \<Rightarrow> string \<Rightarrow> 'f option" where
  "extinf fl stripped =
     (let rest = drop (length tagExtinf) stripped;
          rest' = (case index_byte (CHR '','') rest of Some i \<Rightarrow> take i rest | None \<Rightarrow> rest)
      in f_parse fl (trim_space rest'))"

fun rewrite_loop ::
  "'f FloatLib \<Rightarrow> 'f \<Rightarrow> string \<Rightarrow> string \<Rightarrow> string list \<Rightarrow> 'f \<Rightarrow> 'f \<Rightarrow> string \<Rightarrow> string" where
  "rewrite_loop fl graceUntil primary grace [] movieTime pending out = out"
| "rewrite_loop fl graceUntil primary grace (line # ls) movieTime pending out =
     (let stripped = line_core line in
      if has_prefix stripped tagSessionOffset then
        rewrite_loop fl graceUntil primary grace ls movieTime pending out
      else if has_prefix stripped tagExtinf then
        rewrite_loop fl graceUntil primary grace ls movieTime
          (case extinf fl stripped of Some d \<Rightarrow> d | None \<Rightarrow> pending) (out @ line)
      else if stripped = [] \<or> stripped ! 0 = CHR ''#'' then
        rewrite_loop fl graceUntil primary grace ls movieTime pending (out @ line)
      else let line' = (if f_less fl movieTime graceUntil \<and> f_less fl (f_of_int fl 0) pending
                        then swapToken line primary grace else line)
           in rewrite_loop fl graceUntil primary grace ls (f_add fl movieTime pending) (f_of_int fl 0)
                (out @ line'))"

definition RewriteManifest :: "'f FloatLib \<Rightarrow> string \<Rightarrow> MapClaims \<Rightarrow> string \<Rightarrow> string" where
  "RewriteManifest fl body claims primaryToken =
     (case findGraceRule claims of
        None \<Rightarrow> body
      | Some rule \<Rightarrow>
          if primaryToken = [] then body
          else let sessionOffset = parseSessionOffset fl body;
                   graceUntil = f_of_int fl (r_DurationSec rule) in
            if f_ge fl sessionOffset graceUntil then stripSessionOffsetLine body
            else rewrite_loop fl graceUntil primaryToken (r_Token rule) (split_after LF body)
                   sessionOffset (f_of_int fl 0) [])"

section \<open>The response rules\<close>

record RulesContext =
  ru_Claims :: MapClaims
  ru_PrimaryToken :: string
  ru_InfoHash :: string

text \<open>
  A response whose body can be read to the end or fails; \<open>None\<close> stands for a nil body. The URL path
  is that of the request the response answers.
\<close>

definition rewriteManifestForGrace ::
  "'f FloatLib \<Rightarrow> string \<Rightarrow> string outcome Response \<Rightarrow> RulesContext \<Rightarrow> string outcome Response outcome" where
  "rewriteManifestForGrace fl urlPath r rc =
     (if \<not> has_suffix urlPath ''.m3u8'' then Ret r
      else if findGraceRule (ru_Claims rc) = None then Ret r
      else case rs_Body r of
        None \<Rightarrow> Ret r
      | Some b \<Rightarrow>
          and_then (wrap_err ''failed to read manifest body'' b) (\<lambda>body.
            let rewritten = RewriteManifest fl body (ru_Claims rc) (ru_PrimaryToken rc) in
            Ret (r\<lparr>rs_Body := Some (Ret rewritten), rs_ContentLength := int (length rewritten),
                   rs_Header := header_set ''Content-Length'' (show_nat (length rewritten)) (rs_Header r)\<rparr>)))"

text \<open>\<open>responseRuleHandlers\<close> has one entry.\<close>

definition applyResponseRules ::
  "'f FloatLib \<Rightarrow> string \<Rightarrow> string outcome Response \<Rightarrow> RulesContext option \<Rightarrow> string outcome Response outcome" where
  "applyResponseRules fl urlPath r rc =
     (case rc of
        None \<Rightarrow> Ret r
      | Some c \<Rightarrow> if ru_Claims c = None then Ret r else rewriteManifestForGrace fl urlPath r c)"

section \<open>Properties\<close>

lemma split_after_concat: "concat (split_after c s) = s"
proof (induction s)
  case (Cons x xs)
  then show ?case by (cases "split_after c xs") auto
qed simp

lemma strip_loop_eq:
  "strip_loop ls out =
     out @ concat (filter (\<lambda>l. \<not> has_prefix (trim_left [CHR '' '', TAB] l) tagSessionOffset) ls)"
  by (induction ls arbitrary: out) auto

definition is_offset :: "string \<Rightarrow> bool" where
  "is_offset line \<longleftrightarrow> has_prefix (line_core line) tagSessionOffset"

definition is_segment :: "string \<Rightarrow> bool" where
  "is_segment line \<longleftrightarrow> line_core line \<noteq> [] \<and> line_core line ! 0 \<noteq> CHR ''#''"

subsection \<open>The exchange of a token\<close>

text \<open>\<open>line'\<close> is \<open>line\<close> with \<open>token=gr\<close> in the place of the first occurrence of \<open>token=pr\<close>.\<close>

definition token_swapped :: "string \<Rightarrow> string \<Rightarrow> string \<Rightarrow> string \<Rightarrow> bool" where
  "token_swapped pr gr line line' \<longleftrightarrow>
     (\<exists>a b. line = a @ ''token='' @ pr @ b \<and> line' = a @ ''token='' @ gr @ b \<and>
        (\<forall>a' b'. line = a' @ ''token='' @ pr @ b' \<longrightarrow> length a \<le> length a'))"

definition has_token :: "string \<Rightarrow> string \<Rightarrow> bool" where
  "has_token pr line \<longleftrightarrow> (\<exists>a b. line = a @ ''token='' @ pr @ b)"

lemma index_sub_first:
  "(index_sub p s = None \<longrightarrow> (\<forall>a b. s \<noteq> a @ p @ b)) \<and>
   (\<forall>i. index_sub p s = Some i \<longrightarrow>
      (\<exists>a b. s = a @ p @ b \<and> length a = i) \<and> (\<forall>a b. s = a @ p @ b \<longrightarrow> i \<le> length a))"
proof (induction s)
  case (Cons x xs)
  show ?case
  proof (cases "has_prefix (x # xs) p")
    case True
    then have "index_sub p (x # xs) = Some 0" by simp
    moreover obtain b where "x # xs = [] @ p @ b" using True by (auto simp: has_prefix_iff)
    ultimately show ?thesis by (metis list.size(3) not_None_eq option.inject zero_le)
  next
    case False
    then have idx: "index_sub p (x # xs) = map_option Suc (index_sub p xs)" by simp
    have step: "(\<exists>b. x # xs = a @ p @ b) \<longleftrightarrow> (\<exists>a'. a = x # a' \<and> (\<exists>b. xs = a' @ p @ b))" for a
      using False by (cases a) (auto simp: has_prefix_iff)
    show ?thesis
    proof (cases "index_sub p xs")
      case None
      then have "\<nexists>a b. xs = a @ p @ b" using Cons by blast
      then show ?thesis unfolding idx None using step by blast
    next
      case (Some i)
      then obtain a b where "xs = a @ p @ b" "length a = i" and first: "\<And>a b. xs = a @ p @ b \<Longrightarrow> i \<le> length a"
        using Cons by blast
      then have "x # xs = (x # a) @ p @ b" "length (x # a) = Suc i" by simp_all
      moreover have "Suc i \<le> length a'" if "x # xs = a' @ p @ b'" for a' b'
        using step [of a'] that first by auto
      ultimately show ?thesis unfolding idx Some by (metis option.distinct(1) option.inject option.map(2))
    qed
  qed
qed auto

lemma swapToken_swaps:
  assumes "pr \<noteq> []"
  shows "has_token pr line \<Longrightarrow> token_swapped pr gr line (swapToken line pr gr)"
    and "\<not> has_token pr line \<Longrightarrow> swapToken line pr gr = line"
proof -
  define needle where "needle = ''token='' @ pr"
  note first = index_sub_first [of needle line]
  have has: "has_token pr line \<longleftrightarrow> (\<exists>a b. line = a @ needle @ b)" by (simp add: has_token_def needle_def)
  have swap: "swapToken line pr gr = (case index_sub needle line of None \<Rightarrow> line
      | Some i \<Rightarrow> take i line @ (''token='' @ gr) @ drop (i + length needle) line)"
    using assms unfolding swapToken_def needle_def [symmetric] contains_def replace_first_def
    by (cases "index_sub needle line") (simp_all add: Let_def)
  show "swapToken line pr gr = line" if "\<not> has_token pr line"
  proof (cases "index_sub needle line")
    case (Some i)
    then show ?thesis using first that has by blast
  qed (simp add: swap)
  assume "has_token pr line"
  then obtain i where i: "index_sub needle line = Some i" using first has by (cases "index_sub needle line") blast+
  then obtain a b where ab: "line = a @ needle @ b" "length a = i"
    and least: "\<And>a' b'. line = a' @ needle @ b' \<Longrightarrow> i \<le> length a'"
    using first by blast
  have "take i line = a" "drop (i + length needle) line = b" using ab by simp_all
  then have "swapToken line pr gr = a @ ''token='' @ gr @ b" unfolding swap i by simp
  then show "token_swapped pr gr line (swapToken line pr gr)"
    unfolding token_swapped_def
    by - (rule exI [of _ a], rule exI [of _ b], use ab least in \<open>simp add: needle_def\<close>)
qed

text \<open>The replacement is not limited to a parameter that is called \<open>token\<close> and has exactly this value.\<close>

lemma swapToken_not_exact: "swapToken ''a?mytoken=PX'' ''P'' ''G'' = ''a?mytoken=GX''"
  by code_simp

subsection \<open>The time at which a line stands\<close>

text \<open>Of the lines before it, the latest first: the duration announced for the next segment, and the movie time, the
  session offset and the durations of the segments.\<close>

definition line_duration :: "'f FloatLib \<Rightarrow> string \<Rightarrow> 'f option" where
  "line_duration fl line = (if has_prefix (line_core line) tagExtinf then extinf fl (line_core line) else None)"

fun announced :: "'f FloatLib \<Rightarrow> string list \<Rightarrow> 'f" where
  "announced fl [] = f_of_int fl 0"
| "announced fl (line # earlier) =
     (if is_segment line then f_of_int fl 0
      else case line_duration fl line of Some d \<Rightarrow> d | None \<Rightarrow> announced fl earlier)"

fun elapsed :: "'f FloatLib \<Rightarrow> 'f \<Rightarrow> string list \<Rightarrow> 'f" where
  "elapsed fl off [] = off"
| "elapsed fl off (line # earlier) =
     (if is_segment line then f_add fl (elapsed fl off earlier) (announced fl earlier) else elapsed fl off earlier)"

text \<open>What becomes of a line; \<open>graced\<close> says that it stands in the grace period with a duration announced.\<close>

definition line_out :: "string \<Rightarrow> string \<Rightarrow> bool \<Rightarrow> string \<Rightarrow> string \<Rightarrow> bool" where
  "line_out pr gr graced line line' \<longleftrightarrow>
     (if is_offset line then line' = []
      else if is_segment line \<and> graced \<and> has_token pr line then token_swapped pr gr line line'
      else line' = line)"

lemma tag_starts:
  assumes "tag = tagSessionOffset \<or> tag = tagExtinf" "has_prefix (line_core line) tag"
  shows "\<not> is_segment line"
  using assms by (auto simp: is_segment_def has_prefix_iff tagSessionOffset_def tagExtinf_def)

lemma offset_no_extinf: "is_offset line \<Longrightarrow> \<not> has_prefix (line_core line) tagExtinf"
  by (auto simp: is_offset_def has_prefix_iff tagSessionOffset_def tagExtinf_def)

lemma rewrite_loop_Cons:
  assumes "pr \<noteq> []"
  obtains line' where
    "rewrite_loop fl gu pr gr (line # ls) (elapsed fl off earlier) (announced fl earlier) out =
       rewrite_loop fl gu pr gr ls (elapsed fl off (line # earlier)) (announced fl (line # earlier)) (out @ line')"
    "line_out pr gr (f_less fl (elapsed fl off earlier) gu \<and> f_less fl (f_of_int fl 0) (announced fl earlier)) line line'"
proof -
  let ?on = "f_less fl (elapsed fl off earlier) gu \<and> f_less fl (f_of_int fl 0) (announced fl earlier)"
  consider (offset) "is_offset line" "\<not> is_segment line" "\<not> has_prefix (line_core line) tagExtinf"
    | (extinf) "has_prefix (line_core line) tagExtinf" "\<not> is_offset line" "\<not> is_segment line"
    | (other) "\<not> has_prefix (line_core line) tagExtinf" "\<not> is_offset line" "\<not> is_segment line"
    | (segment) "is_segment line" "\<not> is_offset line" "\<not> has_prefix (line_core line) tagExtinf"
    using offset_no_extinf tag_starts unfolding is_offset_def by blast
  then show thesis
  proof cases
    case offset
    show thesis by (rule that [of "[]"]) (use offset in \<open>simp_all add: is_offset_def line_duration_def line_out_def Let_def\<close>)
  next
    case extinf
    show thesis by (rule that [of line]) (use extinf in \<open>simp_all add: is_offset_def line_duration_def line_out_def Let_def split: option.split\<close>)
  next
    case other
    then have "line_core line = [] \<or> line_core line ! 0 = CHR ''#''" by (simp add: is_segment_def)
    then show thesis by - (rule that [of line], use other in \<open>simp_all add: is_offset_def line_duration_def line_out_def Let_def\<close>)
  next
    case segment
    then have "\<not> (line_core line = [] \<or> line_core line ! 0 = CHR ''#'')" by (simp add: is_segment_def)
    then show thesis
      by - (rule that [of "if ?on then swapToken line pr gr else line"],
        use segment swapToken_swaps [OF assms, of line gr] in \<open>auto simp: is_offset_def line_out_def Let_def\<close>)
  qed
qed

declare rewrite_loop.simps(2) [simp del]

lemma rewrite_loop_lines:
  assumes "pr \<noteq> []"
  shows "\<exists>outs. rewrite_loop fl gu pr gr ls (elapsed fl off earlier) (announced fl earlier) out = out @ concat outs \<and>
     length outs = length ls \<and>
     (\<forall>i < length ls. let before = rev (take i ls) @ earlier in
        line_out pr gr (f_less fl (elapsed fl off before) gu \<and> f_less fl (f_of_int fl 0) (announced fl before)) (ls ! i) (outs ! i))"
proof (induction ls arbitrary: earlier out)
  case (Cons line ls)
  obtain line' where l: "rewrite_loop fl gu pr gr (line # ls) (elapsed fl off earlier) (announced fl earlier) out =
       rewrite_loop fl gu pr gr ls (elapsed fl off (line # earlier)) (announced fl (line # earlier)) (out @ line')"
      "line_out pr gr (f_less fl (elapsed fl off earlier) gu \<and> f_less fl (f_of_int fl 0) (announced fl earlier)) line line'"
    using assms by (rule rewrite_loop_Cons)
  from Cons.IH [of "line # earlier" "out @ line'"] obtain outs where
    outs: "rewrite_loop fl gu pr gr ls (elapsed fl off (line # earlier)) (announced fl (line # earlier)) (out @ line') =
        (out @ line') @ concat outs" "length outs = length ls"
      "\<And>i. i < length ls \<Longrightarrow> let before = rev (take i ls) @ line # earlier in
        line_out pr gr (f_less fl (elapsed fl off before) gu \<and> f_less fl (f_of_int fl 0) (announced fl before)) (ls ! i) (outs ! i)"
    by blast
  show ?case
  proof (intro exI [of _ "line' # outs"] conjI allI impI)
    fix i assume i: "i < length (line # ls)"
    show "let before = rev (take i (line # ls)) @ earlier in
        line_out pr gr (f_less fl (elapsed fl off before) gu \<and> f_less fl (f_of_int fl 0) (announced fl before))
          ((line # ls) ! i) ((line' # outs) ! i)"
    proof (cases i)
      case 0
      then show ?thesis using l(2) by (simp add: Let_def)
    next
      case (Suc j)
      then show ?thesis using outs(3) [of j] i by (simp only: take_Suc_Cons rev.simps append_assoc append.simps nth_Cons_Suc list.size)
    qed
  qed (simp_all add: l(1) outs(1,2) del: elapsed.simps announced.simps)
qed simp

lemma rewrite_lines:
  assumes "findGraceRule claims = Some rule" "primary \<noteq> []"
    and "\<not> f_ge fl (parseSessionOffset fl body) (f_of_int fl (r_DurationSec rule))"
  shows "\<exists>outs. RewriteManifest fl body claims primary = concat outs \<and> length outs = length (split_after LF body) \<and>
    (\<forall>i < length (split_after LF body). let before = rev (take i (split_after LF body)) in
       line_out primary (r_Token rule)
         (f_less fl (elapsed fl (parseSessionOffset fl body) before) (f_of_int fl (r_DurationSec rule)) \<and>
          f_less fl (f_of_int fl 0) (announced fl before)) (split_after LF body ! i) (outs ! i))"
  using rewrite_loop_lines [OF assms(2), of fl "f_of_int fl (r_DurationSec rule)" "r_Token rule" "split_after LF body"
      "parseSessionOffset fl body" "[]" "[]"] assms
  by (simp add: RewriteManifest_def Let_def)

text \<open>C26: The rewriter keeps the playlist line by line and in order, and it is exactly determined what becomes
  of each line, when the session starts in the grace period: a line with the session-offset tag is dropped; a segment that
  starts before the end of the grace period, with a positive duration announced for it, and whose line contains
  \<open>token=\<close> followed by the token of the request, has the grace token in the place of the first such
  occurrence, wherever it stands in the line; every other line is written as it is. The start of a segment is the session
  offset plus the durations announced for the segments before it. Without a grace rule, or without a token
  in the request, the playlist is returned as it is.\<close>

theorem RewriteManifest_lines:
  assumes "findGraceRule claims = Some rule" "primary \<noteq> []"
    and "\<not> f_ge fl (parseSessionOffset fl body) (f_of_int fl (r_DurationSec rule))"
  shows "(\<exists>outs. RewriteManifest fl body claims primary = concat outs \<and> length outs = length (split_after LF body) \<and>
      (\<forall>i < length (split_after LF body).
         let line = split_after LF body ! i; before = rev (take i (split_after LF body));
             graced = f_less fl (elapsed fl (parseSessionOffset fl body) before) (f_of_int fl (r_DurationSec rule)) \<and>
               f_less fl (f_of_int fl 0) (announced fl before)
         in if is_offset line then outs ! i = []
            else if is_segment line \<and> graced \<and> has_token primary line then token_swapped primary (r_Token rule) line (outs ! i)
            else outs ! i = line)) \<and>
    concat (split_after LF body) = body \<and>
    RewriteManifest fl body claims [] = body \<and> RewriteManifest fl body None primary = body"
proof -
  have "findGraceRule None = None" by (simp add: findGraceRule_def ExtractRules_def claim_def)
  then show ?thesis
    using rewrite_lines [OF assms] assms(1)
    by (simp only: line_out_def Let_def split_after_concat) (simp add: RewriteManifest_def)
qed

section \<open>The grace period is a prefix\<close>

text \<open>Adding a duration that is not negative does not bring a time back before a bound.\<close>

definition not_negative :: "'f FloatLib \<Rightarrow> 'f \<Rightarrow> bool" where
  "not_negative fl d \<longleftrightarrow> d = f_of_int fl 0 \<or> f_less fl (f_of_int fl 0) d"

definition float_monotone :: "'f FloatLib \<Rightarrow> bool" where
  "float_monotone fl \<longleftrightarrow>
     (\<forall>m g d. \<not> f_less fl m g \<longrightarrow> not_negative fl d \<longrightarrow> \<not> f_less fl (f_add fl m d) g)"

definition durations_ok :: "'f FloatLib \<Rightarrow> string list \<Rightarrow> bool" where
  "durations_ok fl ls \<longleftrightarrow>
     (\<forall>line d. line \<in> set ls \<longrightarrow> extinf fl (line_core line) = Some d \<longrightarrow> not_negative fl d)"

lemma announced_not_negative: "durations_ok fl ls \<Longrightarrow> not_negative fl (announced fl ls)"
proof (induction ls)
  case (Cons line ls)
  then show ?case
    by (auto simp: durations_ok_def line_duration_def not_negative_def split: option.split if_splits)
qed (simp add: not_negative_def)

lemma elapsed_late:
  assumes "float_monotone fl" "durations_ok fl (ls @ earlier)" "\<not> f_less fl (elapsed fl off earlier) gu"
  shows "\<not> f_less fl (elapsed fl off (ls @ earlier)) gu"
  using assms(2)
proof (induction ls)
  case (Cons line ls)
  then have "durations_ok fl (ls @ earlier)" by (simp add: durations_ok_def)
  with Cons announced_not_negative [OF this] show ?case using assms(1) by (auto simp: float_monotone_def)
qed (use assms(3) in simp)

text \<open>The lines that stand before the bound are the first ones.\<close>

lemma grace_cut:
  assumes "float_monotone fl" "durations_ok fl ls"
  shows "\<exists>k \<le> length ls. \<forall>i < length ls. f_less fl (elapsed fl off (rev (take i ls))) gu \<longleftrightarrow> i < k"
proof -
  let ?early = "\<lambda>i. f_less fl (elapsed fl off (rev (take i ls))) gu"
  define k where "k = (LEAST k. k = length ls \<or> \<not> ?early k)"
  have k: "k = length ls \<or> \<not> ?early k" unfolding k_def by (rule LeastI [of _ "length ls"]) simp
  have le: "k \<le> length ls" unfolding k_def by (rule Least_le) simp
  have "?early i" if "i < k" for i using not_less_Least [OF that [unfolded k_def]] by blast
  moreover have "\<not> ?early i" if "k \<le> i" "i < length ls" for i
  proof -
    have i: "take i ls = take k ls @ take (i - k) (drop k ls)"
      using that(1) take_add [of k "i - k" ls] by simp
    have "durations_ok fl (rev (take i ls))" using assms(2) set_take_subset [of i ls] by (auto simp: durations_ok_def)
    moreover have "\<not> ?early k" using k that by auto
    ultimately show ?thesis
      using elapsed_late [OF assms(1), of "rev (take (i - k) (drop k ls))" "rev (take k ls)" off gu] by (simp add: i)
  qed
  ultimately show ?thesis using le by (metis not_le)
qed

text \<open>A playlist with two segments of six seconds, and a grace period of six seconds. The numbers of
  the example are whole seconds.\<close>

definition int_floats :: "int FloatLib" where
  "int_floats = \<lparr>f_parse = parse_int 10, f_of_int = (\<lambda>i. i), f_add = (+), f_less = (<), f_ge = (\<ge>)\<rparr>"

definition grace_rule :: Rule where
  "grace_rule = \<lparr>r_Kind = ''grace'', r_Scope = ''manifest'', r_DurationSec = 6, r_Token = ''G''\<rparr>"

definition grace_claims :: MapClaims where
  "grace_claims = Some (fmupd ''rules'' (JArr [JObj (fmupd ''kind'' (JStr ''grace'') (fmupd ''scope'' (JStr ''manifest'')
     (fmupd ''duration_sec'' (JNum 6) (fmupd ''token'' (JStr ''G'') fmempty))))]) fmempty)"

definition demo_playlist :: string where
  "demo_playlist = ''#EXTINF:6,'' @ [LF] @ ''a?token=P'' @ [LF] @ ''#EXTINF:6,'' @ [LF] @ ''b?token=P''"

lemma findGraceRule_demo: "findGraceRule grace_claims = Some grace_rule"
proof -
  have "ExtractRules grace_claims = [grace_rule]"
    by (simp add: ExtractRules_def claim_def grace_claims_def rule_of_def grace_rule_def float_to_int_def in_int64_def)
  then show ?thesis by (simp add: findGraceRule_def is_grace_def grace_rule_def)
qed

lemma demo_in_grace: "\<not> f_ge int_floats (parseSessionOffset int_floats demo_playlist) (f_of_int int_floats 6)"
  by code_simp

lemma demo_durations: "durations_ok int_floats (split_after LF demo_playlist)"
proof -
  have "split_after LF demo_playlist =
      [''#EXTINF:6,'' @ [LF], ''a?token=P'' @ [LF], ''#EXTINF:6,'' @ [LF], ''b?token=P'']"
    by code_simp
  moreover have "extinf int_floats (line_core (''#EXTINF:6,'' @ [LF])) = Some 6" by code_simp
  moreover have "extinf int_floats (line_core (''a?token=P'' @ [LF])) = None" by code_simp
  moreover have "extinf int_floats (line_core ''b?token=P'') = None" by code_simp
  ultimately show ?thesis by (auto simp: durations_ok_def not_negative_def int_floats_def)
qed

lemma demo_in_grace_rule:
  "\<not> f_ge int_floats (parseSessionOffset int_floats demo_playlist) (f_of_int int_floats (r_DurationSec grace_rule))"
  using demo_in_grace by (simp add: grace_rule_def)

lemma demo_lines: "split_after LF demo_playlist = [''#EXTINF:6,'' @ [LF], ''a?token=P'' @ [LF], ''#EXTINF:6,'' @ [LF], ''b?token=P'']"
  by code_simp

theorem RewriteManifest_lines_witness:
  "\<exists>outs. RewriteManifest int_floats demo_playlist grace_claims ''P'' = concat outs \<and> length outs = 4 \<and>
     token_swapped ''P'' ''G'' (''a?token=P'' @ [LF]) (outs ! 1) \<and> outs ! 3 = ''b?token=P''"
proof -
  have len: "length (split_after LF demo_playlist) = 4" by (simp add: demo_lines)
  have rules: "r_DurationSec grace_rule = 6" "r_Token grace_rule = ''G''" "f_of_int int_floats n = n" "f_less int_floats u v \<longleftrightarrow> u < v" for n u v
    by (simp_all add: grace_rule_def int_floats_def)
  note numeral_simps = numeral_2_eq_2 numeral_3_eq_3
  have tok: "has_token ''P'' (''a?token=P'' @ [LF])"
    unfolding has_token_def by (rule exI [of _ "''a?''"], rule exI [of _ "[LF]"]) simp
  have off: "parseSessionOffset int_floats demo_playlist = 0" by code_simp
  have a: "\<not> is_offset (''a?token=P'' @ [LF])" "is_segment (''a?token=P'' @ [LF])" by code_simp+
  have b: "\<not> is_offset ''b?token=P''" by code_simp
  have ta: "elapsed int_floats 0 [''#EXTINF:6,'' @ [LF]] = 0" "announced int_floats [''#EXTINF:6,'' @ [LF]] = 6" by code_simp+
  have tb: "elapsed int_floats 0 [''#EXTINF:6,'' @ [LF], ''a?token=P'' @ [LF], ''#EXTINF:6,'' @ [LF]] = 6" by code_simp
  have "(''P'' :: string) \<noteq> []" by simp
  from RewriteManifest_lines [OF findGraceRule_demo this demo_in_grace_rule, unfolded len] show ?thesis
  proof (elim conjE exE)
    fix outs
    assume o: "RewriteManifest int_floats demo_playlist grace_claims ''P'' = concat outs" "length outs = 4"
      and line: "\<forall>i < 4. let line = split_after LF demo_playlist ! i; before = rev (take i (split_after LF demo_playlist));
             graced = f_less int_floats (elapsed int_floats (parseSessionOffset int_floats demo_playlist) before)
                 (f_of_int int_floats (r_DurationSec grace_rule)) \<and>
               f_less int_floats (f_of_int int_floats 0) (announced int_floats before)
         in if is_offset line then outs ! i = []
            else if is_segment line \<and> graced \<and> has_token ''P'' line then token_swapped ''P'' (r_Token grace_rule) line (outs ! i)
            else outs ! i = line"
    have "token_swapped ''P'' ''G'' (''a?token=P'' @ [LF]) (outs ! 1)"
      using spec [OF line, of 1] a ta tok by (simp add: demo_lines off Let_def rules numeral_simps)
    moreover have "outs ! 3 = ''b?token=P''"
      using spec [OF line, of 3] b tb by (simp add: demo_lines off Let_def rules numeral_simps)
    ultimately show ?thesis using o by blast
  qed
qed

text \<open>C27: The segments that get the grace token are the first ones: if no duration is negative, there is one line of the
  playlist, the first that stands at or after the end of the grace period, such that before it every segment with a
  positive duration has the grace token in the place of the first occurrence of the request's, and from it on no line
  is changed. This needs of the arithmetic that adding such a duration does not lead back before a bound, as rounding does
  not.\<close>

theorem grace_segments_are_a_prefix:
  assumes "float_monotone fl" "durations_ok fl (split_after LF body)"
    and "findGraceRule claims = Some rule" "primary \<noteq> []"
    and "\<not> f_ge fl (parseSessionOffset fl body) (f_of_int fl (r_DurationSec rule))"
  shows "\<exists>k outs. k \<le> length (split_after LF body) \<and> RewriteManifest fl body claims primary = concat outs \<and>
    length outs = length (split_after LF body) \<and>
    (\<forall>i < length (split_after LF body).
       let line = split_after LF body ! i; before = rev (take i (split_after LF body)) in
       (f_less fl (elapsed fl (parseSessionOffset fl body) before) (f_of_int fl (r_DurationSec rule)) \<longleftrightarrow> i < k) \<and>
       (if is_offset line then outs ! i = []
        else if i < k \<and> is_segment line \<and> f_less fl (f_of_int fl 0) (announced fl before) \<and> has_token primary line
        then token_swapped primary (r_Token rule) line (outs ! i)
        else outs ! i = line))"
proof -
  obtain k where k: "k \<le> length (split_after LF body)"
      "\<And>i. i < length (split_after LF body) \<Longrightarrow>
        f_less fl (elapsed fl (parseSessionOffset fl body) (rev (take i (split_after LF body)))) (f_of_int fl (r_DurationSec rule)) \<longleftrightarrow> i < k"
    using grace_cut [OF assms(1,2)] by meson
  obtain outs where outs: "RewriteManifest fl body claims primary = concat outs" "length outs = length (split_after LF body)"
      "\<And>i. i < length (split_after LF body) \<Longrightarrow> let before = rev (take i (split_after LF body)) in
       line_out primary (r_Token rule)
         (f_less fl (elapsed fl (parseSessionOffset fl body) before) (f_of_int fl (r_DurationSec rule)) \<and>
          f_less fl (f_of_int fl 0) (announced fl before)) (split_after LF body ! i) (outs ! i)"
    using rewrite_lines [OF assms(3-5)] by blast
  show ?thesis
    by (rule exI [of _ k], rule exI [of _ outs], intro conjI allI impI k(1) outs(1,2))
      (use k(2) outs(3) in \<open>simp add: line_out_def Let_def\<close>)
qed

theorem grace_segments_are_a_prefix_witness:
  "\<exists>(k :: nat) outs. k \<le> 4 \<and> RewriteManifest int_floats demo_playlist grace_claims ''P'' = concat outs \<and> length outs = 4 \<and>
     1 < k \<and> k \<le> 3"
proof -
  have mono: "float_monotone int_floats" by (auto simp: float_monotone_def not_negative_def int_floats_def)
  have off: "parseSessionOffset int_floats demo_playlist = 0" by code_simp
  have ta: "elapsed int_floats 0 [''#EXTINF:6,'' @ [LF]] = 0" by code_simp
  have tb: "elapsed int_floats 0 [''#EXTINF:6,'' @ [LF], ''a?token=P'' @ [LF], ''#EXTINF:6,'' @ [LF]] = 6" by code_simp
  have len: "length (split_after LF demo_playlist) = 4" by (simp add: demo_lines)
  have rules: "r_DurationSec grace_rule = 6" "f_of_int int_floats n = n" "f_less int_floats u v \<longleftrightarrow> u < v" for n u v
    by (simp_all add: grace_rule_def int_floats_def)
  have "(''P'' :: string) \<noteq> []" by simp
  from grace_segments_are_a_prefix [OF mono demo_durations findGraceRule_demo this demo_in_grace_rule, unfolded len Let_def]
  show ?thesis
  proof (elim conjE exE)
    fix k outs
    assume k: "k \<le> 4" "RewriteManifest int_floats demo_playlist grace_claims ''P'' = concat outs" "length outs = 4"
      and cut: "\<forall>i < 4. (f_less int_floats (elapsed int_floats (parseSessionOffset int_floats demo_playlist)
          (rev (take i (split_after LF demo_playlist)))) (f_of_int int_floats (r_DurationSec grace_rule)) \<longleftrightarrow> i < k) \<and>
         (if is_offset (split_after LF demo_playlist ! i) then outs ! i = []
          else if i < k \<and> is_segment (split_after LF demo_playlist ! i) \<and>
              f_less int_floats (f_of_int int_floats 0) (announced int_floats (rev (take i (split_after LF demo_playlist)))) \<and>
              has_token ''P'' (split_after LF demo_playlist ! i)
          then token_swapped ''P'' (r_Token grace_rule) (split_after LF demo_playlist ! i) (outs ! i)
          else outs ! i = split_after LF demo_playlist ! i)"
    have "1 < k" using spec [OF cut, of 1] ta by (simp add: demo_lines off rules)
    moreover have "k \<le> 3" using spec [OF cut, of 3] tb by (simp add: demo_lines off rules numeral_3_eq_3)
    ultimately show ?thesis using k by blast
  qed
qed

end
