(* ===== verification/File_Size_Cache.thy ===== *)
theory File_Size_Cache
  imports Services_Config
begin

text \<open>
  The upstream file-size cache (\<open>services/file_size_cache.go\<close>): sizes learned from response
  headers, kept up to a capacity with random eviction, and consulted by the session limiter.
\<close>

record FileSizeCache =
  fc_capacity :: int
  fc_m :: "(string, int) gomap"

definition NewFileSizeCache :: "int \<Rightarrow> FileSizeCache" where
  "NewFileSizeCache cap = \<lparr>fc_capacity = (if cap \<le> 0 then 100000 else cap), fc_m = fmempty\<rparr>"

definition cacheKey :: "string \<Rightarrow> string \<Rightarrow> string" where
  "cacheKey infoHash path = infoHash @ ''|'' @ path"

definition GetSize :: "FileSizeCache \<Rightarrow> string \<Rightarrow> string \<Rightarrow> int option" where
  "GetSize c infoHash path = fmlookup (fc_m c) (cacheKey infoHash path)"

text \<open>
  The eviction loop of \<open>Set\<close>: the keys come in the order \<open>range\<close> visits them, and the
  loop stops once \<open>toEvict\<close> reaches zero.
\<close>

fun evict_loop :: "int \<Rightarrow> string list \<Rightarrow> (string, int) gomap \<Rightarrow> (string, int) gomap" where
  "evict_loop n [] m = m"
| "evict_loop n (k # ks) m =
     (let m' = fmdrop k m; n' = n - 1 in if n' \<le> 0 then m' else evict_loop n' ks m')"

definition SetSize :: "FileSizeCache \<Rightarrow> string list \<Rightarrow> string \<Rightarrow> string \<Rightarrow> int \<Rightarrow> FileSizeCache" where
  "SetSize c ks infoHash path sz =
     (if sz \<le> 0 then c
      else let m = fc_m c;
               toEvict = (if quot (fc_capacity c) 10 < 1 then 1 else quot (fc_capacity c) 10);
               m' = (if fc_capacity c \<le> int (map_len m) then evict_loop toEvict ks m else m)
           in c\<lparr>fc_m := fmupd (cacheKey infoHash path) sz m'\<rparr>)"

definition SizeFromHeaders :: "int \<Rightarrow> int \<Rightarrow> string \<Rightarrow> int" where
  "SizeFromHeaders statusCode contentLength contentRange =
     (if statusCode = 206 then
        (case last_index (CHR ''/'') contentRange of
           None \<Rightarrow> 0
         | Some i \<Rightarrow>
             (let tail = drop (Suc i) contentRange in
              if tail = ''*'' then 0
              else case parse_int 10 tail of
                     None \<Rightarrow> 0
                   | Some n \<Rightarrow> if 0 < n then n else 0))
      else if statusCode = 200 \<and> 0 < contentLength then contentLength
      else 0)"

section \<open>The interface the session limiter relies on\<close>

text \<open>
  A source of file sizes: a size that was put is found under the same file, other files keep
  their size or lose it, and every size is positive.
\<close>

locale size_source =
  fixes look :: "'c \<Rightarrow> string \<Rightarrow> string \<Rightarrow> int option"
    and put :: "'c \<Rightarrow> 'o \<Rightarrow> string \<Rightarrow> string \<Rightarrow> int \<Rightarrow> 'c"
    and invar :: "'c \<Rightarrow> bool"
  assumes look_put_same: "0 < n \<Longrightarrow> look (put c ord h p n) h p = Some n"
    and look_put_other: "look (put c ord h p n) h' p' = Some k \<Longrightarrow>
      look c h' p' = Some k \<or> k = n"
    and look_pos: "invar c \<Longrightarrow> look c h p = Some k \<Longrightarrow> 0 < k"
    and invar_put: "invar c \<Longrightarrow> invar (put c ord h p n)"
begin

lemma look_after_puts:
  assumes "invar c" "look (fold (\<lambda>(ord, h, p, n) c. put c ord h p n) ps c) h p = Some k"
  shows "0 < k \<and> (look c h p = Some k \<or> k \<in> (\<lambda>(ord, h, p, n). n) ` set ps)"
  using assms
proof (induction ps arbitrary: c)
  case Nil
  then show ?case by (auto dest: look_pos)
next
  case (Cons x ps)
  obtain ord h' p' n where x: "x = (ord, h', p', n)" by (cases x)
  from Cons.IH [OF invar_put [OF Cons.prems(1)]] Cons.prems(2) x
  have "0 < k \<and> (look (put c ord h' p' n) h p = Some k \<or> k \<in> (\<lambda>(ord, h, p, n). n) ` set ps)"
    by simp
  with x look_put_other [of c ord h' p' n h p k] show ?case by auto
qed

end

definition sizes_pos :: "FileSizeCache \<Rightarrow> bool" where
  "sizes_pos c \<longleftrightarrow> (\<forall>k n. fmlookup (fc_m c) k = Some n \<longrightarrow> 0 < n)"

lemma evict_loop_sub: "fmlookup (evict_loop n ks m) k = Some v \<Longrightarrow> fmlookup m k = Some v"
proof (induction ks arbitrary: n m)
  case (Cons k' ks)
  then have "fmlookup (fmdrop k' m) k = Some v"
    by (auto simp: Let_def simp del: fmlookup_drop split: if_splits)
  then show ?case by (simp split: if_splits)
qed simp

lemma SetSize_lookup:
  "0 < n \<Longrightarrow> fmlookup (fc_m (SetSize c ks h p n)) (cacheKey h p) = Some n"
  "fmlookup (fc_m (SetSize c ks h p n)) k = Some v \<Longrightarrow>
     fmlookup (fc_m c) k = Some v \<or> (v = n \<and> 0 < n)"
  by (auto simp: SetSize_def Let_def dest: evict_loop_sub split: if_splits)

interpretation fsc: size_source GetSize SetSize sizes_pos
proof
  show "0 < n \<Longrightarrow> GetSize (SetSize c ord h p n) h p = Some n" for n c ord h p
    by (simp add: GetSize_def SetSize_lookup)
  show "GetSize (SetSize c ord h p n) h' p' = Some k \<Longrightarrow> GetSize c h' p' = Some k \<or> k = n"
    for c ord h p n h' p' k
    unfolding GetSize_def by (auto dest: SetSize_lookup)
  show "sizes_pos c \<Longrightarrow> GetSize c h p = Some k \<Longrightarrow> 0 < k" for c h p k
    by (simp add: sizes_pos_def GetSize_def)
  show "sizes_pos c \<Longrightarrow> sizes_pos (SetSize c ord h p n)" for c ord h p n
    unfolding sizes_pos_def by (blast dest: SetSize_lookup(2))
qed

section \<open>Capacity\<close>

definition within_capacity :: "FileSizeCache \<Rightarrow> bool" where
  "within_capacity c \<longleftrightarrow> 1 \<le> fc_capacity c \<and> int (map_len (fc_m c)) \<le> fc_capacity c"

lemma evict_loop_len_le: "map_len (evict_loop n ks m) \<le> map_len m"
proof (induction ks arbitrary: n m)
  case (Cons k ks)
  have "map_len (fmdrop k m) \<le> map_len m" by simp
  with Cons [of "n - 1" "fmdrop k m"] show ?case
    by (simp add: Let_def del: map_len_drop)
qed simp

lemma evict_loop_len:
  assumes "is_range m ks" "m \<noteq> fmempty"
  shows "map_len (evict_loop n ks m) < map_len m"
proof (cases ks)
  case Nil
  with assms have "fmdom' m = {}" by (simp add: is_range_def)
  with assms(2) show ?thesis
    by (metis fmap_ext fmdom'_empty fmdom'_notD empty_iff)
next
  case (Cons k ks')
  with assms(1) have "k \<in> fmdom' m" by (auto simp: is_range_def)
  then obtain v where v: "fmlookup m k = Some v" by (auto simp: fmlookup_dom'_iff)
  then have "map_len (fmdrop k m) < map_len m"
    using map_len_pos [OF v] by simp
  with Cons evict_loop_len_le [of "n - 1" ks' "fmdrop k m"] show ?thesis
    by (auto simp: Let_def)
qed

text \<open>The cache never holds more entries than its capacity: storing a size keeps the bound,
  whatever order the eviction visits the map in, and the size just stored is found again.\<close>

theorem SetSize_within_capacity:
  assumes "within_capacity c" "is_range (fc_m c) ks" "0 < n"
  shows "within_capacity (SetSize c ks h p n) \<and> GetSize (SetSize c ks h p n) h p = Some n"
proof -
  define m' where "m' = (if fc_capacity c \<le> int (map_len (fc_m c))
    then evict_loop (if quot (fc_capacity c) 10 < 1 then 1 else quot (fc_capacity c) 10) ks (fc_m c)
    else fc_m c)"
  have "int (map_len m') < fc_capacity c"
  proof (cases "fc_capacity c \<le> int (map_len (fc_m c))")
    case True
    with assms(1) have "fc_m c \<noteq> fmempty" by (auto simp: within_capacity_def)
    from evict_loop_len [OF assms(2) this] have "map_len m' < map_len (fc_m c)"
      using True by (simp add: m'_def)
    with assms(1) show ?thesis by (simp add: within_capacity_def)
  qed (simp add: m'_def)
  moreover have "fc_m (SetSize c ks h p n) = fmupd (cacheKey h p) n m'"
    "fc_capacity (SetSize c ks h p n) = fc_capacity c"
    using assms(3) by (simp_all add: SetSize_def Let_def m'_def)
  ultimately have "within_capacity (SetSize c ks h p n)"
    using assms(1) by (simp add: within_capacity_def)
  with assms(3) show ?thesis by (simp add: fsc.look_put_same)
qed

theorem SetSize_within_capacity_witness:
  "within_capacity (SetSize \<lparr>fc_capacity = 1, fc_m = fmupd ''h|/a'' 7 fmempty\<rparr> [''h|/a''] ''h'' ''/b'' 9) \<and>
   GetSize (SetSize \<lparr>fc_capacity = 1, fc_m = fmupd ''h|/a'' 7 fmempty\<rparr> [''h|/a''] ''h'' ''/b'' 9) ''h'' ''/b'' = Some 9"
  by (rule SetSize_within_capacity) (simp_all add: within_capacity_def is_range_def)

text \<open>Over any sequence of \<open>Set\<close> calls, a size the cache reports is positive and was stored
  by one of the calls (or was there before): eviction and key handling never make one up.\<close>

theorem cache_reports_only_stored_sizes:
  assumes "sizes_pos c"
    and "GetSize (fold (\<lambda>(ks, h, p, n) c. SetSize c ks h p n) ops c) h p = Some k"
  shows "0 < k \<and> (GetSize c h p = Some k \<or> k \<in> (\<lambda>(ks, h, p, n). n) ` set ops)"
  using fsc.look_after_puts [OF assms] .

theorem cache_reports_only_stored_sizes_witness:
  "0 < (9::int) \<and> (GetSize (NewFileSizeCache 2) ''h'' ''/b'' = Some 9 \<or>
     9 \<in> (\<lambda>(ks, h, p, n). n) ` set [([], ''h'', ''/a'', 3::int), ([''h|/a''], ''h'', ''/b'', 9)])"
  by (rule cache_reports_only_stored_sizes [of "NewFileSizeCache 2"])
    (simp_all add: sizes_pos_def NewFileSizeCache_def GetSize_def SetSize_def cacheKey_def quot_def)

lemma SizeFromHeaders_range:
  assumes "0 < n" "n < 2 ^ 63"
  shows "SizeFromHeaders 206 cl (pre @ ''/'' @ show_nat n) = int n"
proof -
  have noslash: "CHR ''/'' \<notin> set (show_nat n)" by (rule show_nat_no_char) simp
  have "CHR ''*'' \<notin> set (show_nat n)" by (rule show_nat_no_char) simp
  then have "show_nat n \<noteq> ''*''" by auto
  with assms noslash show ?thesis
    using last_index_append [OF noslash, of pre] by (simp add: SizeFromHeaders_def parse_int_show_nat)
qed

text \<open>\<open>SizeFromHeaders\<close> never returns a negative size, and for a 206 response with a
  \<open>Content-Range\<close> of the form \<open>bytes X-Y/TOTAL\<close> it returns TOTAL.\<close>

theorem SizeFromHeaders_total:
  "0 \<le> SizeFromHeaders st cl cr \<and>
   (0 < n \<and> n < 2 ^ 63 \<longrightarrow> SizeFromHeaders 206 cl (pre @ ''/'' @ show_nat n) = int n)"
  using SizeFromHeaders_range [of n cl pre]
  by (auto simp: SizeFromHeaders_def Let_def split: option.splits)

theorem SizeFromHeaders_total_witness:
  "SizeFromHeaders 206 100 (''bytes 0-99'' @ ''/'' @ show_nat 1048576) = int 1048576"
  using SizeFromHeaders_total [where n = 1048576 and cl = 100 and pre = "''bytes 0-99''"] by simp

end
