(* ===== verification/Session_Limiter.thy ===== *)
theory Session_Limiter
  imports File_Size_Cache Subnets "HOL-Library.Multiset"
begin

text \<open>
  The session limiter (\<open>services/session_limiter.go\<close>). The immutable settings of the
  \<open>SessionLimiter\<close> struct are the record \<open>Limits\<close>; its map of sessions and the session
  objects it points to are the record \<open>LState\<close>, with the objects in a store indexed by
  addresses, since a session can be deleted from the map while a request still holds a
  pointer to it. Every atomic section of the code (one critical section of a mutex, one
  atomic load or add) is one definition; \<open>Acquire\<close> and the release function it returns are
  their composition, run without interruption here; the interleavings of the atomic sections are
  the subject of \<open>Session_Races\<close>.
\<close>

record Limits =
  l_maxPerPath :: int
  l_maxBigFilesPerHash :: int
  l_bigFileThreshold :: int
  l_lightExts :: "(string, unit) gomap"
  l_maxTotal :: int
  l_maxIPsPerSession :: int
  l_sizeLookup :: "(string \<Rightarrow> string \<Rightarrow> int option) option"

text \<open>Times are in nanoseconds.\<close>

record pathState =
  ps_conc :: int
  ps_ips :: "(string, int) gomap"

type_synonym hashState = "(string, int) gomap"

record sessionState =
  ss_total :: int
  ss_paths :: "(string, pathState) gomap"
  ss_hashes :: "(string, hashState) gomap"

record LState =
  ls_sessions :: "(string, nat) gomap"
  ls_heap :: "nat \<Rightarrow> sessionState"
  ls_next :: nat

definition ipWindow :: int where
  "ipWindow = 60 * 10 ^ 9"

section \<open>Configuration\<close>

fun light_exts_loop :: "string list \<Rightarrow> (string, unit) gomap \<Rightarrow> (string, unit) gomap" where
  "light_exts_loop [] out = out"
| "light_exts_loop (x # xs) out =
     (let ext = trim_space (to_lower x) in
      if ext = [] then light_exts_loop xs out
      else let ext' = (if has_prefix ext ''.'' then ext else CHR ''.'' # ext)
           in light_exts_loop xs (fmupd ext' () out))"

definition parseLightExts :: "string \<Rightarrow> (string, unit) gomap" where
  "parseLightExts raw = light_exts_loop (split_all (CHR '','') raw) fmempty"

definition isLightExt :: "Limits \<Rightarrow> string \<Rightarrow> bool" where
  "isLightExt l path =
     (case last_index (CHR ''.'') path of
        Some i \<Rightarrow> fmlookup (l_lightExts l) (to_lower (drop i path)) \<noteq> None
      | None \<Rightarrow> False)"

definition Enabled :: "Limits \<Rightarrow> bool" where
  "Enabled l \<longleftrightarrow> 0 < l_maxPerPath l \<or> 0 < l_maxBigFilesPerHash l \<or> 0 < l_maxTotal l \<or>
     0 < l_maxIPsPerSession l"

definition isBigFile :: "Limits \<Rightarrow> string \<Rightarrow> string \<Rightarrow> bool" where
  "isBigFile l infoHash path =
     (if isLightExt l path then False
      else case l_sizeLookup l of
             Some lookup \<Rightarrow>
               if 0 < l_bigFileThreshold l then
                 (case lookup infoHash path of
                    Some sz \<Rightarrow> l_bigFileThreshold l \<le> sz
                  | None \<Rightarrow> True)
               else True
           | None \<Rightarrow> True)"

definition SetSizeLookup :: "Limits \<Rightarrow> (string \<Rightarrow> string \<Rightarrow> int option) \<Rightarrow> Limits" where
  "SetSizeLookup l f = l\<lparr>l_sizeLookup := Some f\<rparr>"

section \<open>Atomic sections\<close>

definition new_session :: sessionState where
  "new_session = \<lparr>ss_total = 0, ss_paths = fmempty, ss_hashes = fmempty\<rparr>"

definition new_path :: pathState where
  "new_path = \<lparr>ps_conc = 0, ps_ips = fmempty\<rparr>"

definition getSession :: "string \<Rightarrow> LState \<Rightarrow> nat \<times> LState" where
  "getSession sessionID st =
     (case fmlookup (ls_sessions st) sessionID of
        Some a \<Rightarrow> (a, st)
      | None \<Rightarrow>
          (let a = ls_next st in
           (a, st\<lparr>ls_sessions := fmupd sessionID a (ls_sessions st),
                  ls_heap := (ls_heap st)(a := new_session), ls_next := Suc a\<rparr>)))"

definition getPath :: "string \<Rightarrow> sessionState \<Rightarrow> sessionState" where
  "getPath key s =
     (case fmlookup (ss_paths s) key of
        Some p \<Rightarrow> s
      | None \<Rightarrow> s\<lparr>ss_paths := fmupd key new_path (ss_paths s)\<rparr>)"

definition getHash :: "string \<Rightarrow> sessionState \<Rightarrow> sessionState" where
  "getHash infoHash s =
     (case fmlookup (ss_hashes s) infoHash of
        Some h \<Rightarrow> s
      | None \<Rightarrow> s\<lparr>ss_hashes := fmupd infoHash fmempty (ss_hashes s)\<rparr>)"

text \<open>The states a pointer into the session leads to; a missing entry reads as the zero value.\<close>

definition path_of :: "sessionState \<Rightarrow> string \<Rightarrow> pathState" where
  "path_of s key = (case fmlookup (ss_paths s) key of Some p \<Rightarrow> p | None \<Rightarrow> new_path)"

definition hash_of :: "sessionState \<Rightarrow> string \<Rightarrow> hashState" where
  "hash_of s infoHash = (case fmlookup (ss_hashes s) infoHash of Some h \<Rightarrow> h | None \<Rightarrow> fmempty)"

definition count_of :: "('k, int) gomap \<Rightarrow> 'k \<Rightarrow> int" where
  "count_of m k = (case fmlookup m k of Some n \<Rightarrow> n | None \<Rightarrow> 0)"

definition tryAddBig :: "string \<Rightarrow> int \<Rightarrow> hashState \<Rightarrow> hashState option" where
  "tryAddBig path maxBig h =
     (if fmlookup h path = None \<and> 0 < maxBig \<and> maxBig \<le> int (map_len h) then None
      else Some (fmupd path (count_of h path + 1) h))"

text \<open>The release function \<open>tryAddBig\<close> returns.\<close>

definition releaseBig :: "string \<Rightarrow> hashState \<Rightarrow> hashState" where
  "releaseBig path h =
     (let n = count_of h path - 1 in if n \<le> 0 then fmdrop path h else fmupd path n h)"

definition trackIP :: "NetLib \<Rightarrow> string \<Rightarrow> int \<Rightarrow> int \<Rightarrow> pathState \<Rightarrow> nat \<times> pathState" where
  "trackIP net ip window now p =
     (let ips = fmupd (subnetKey net ip) now (ps_ips p);
          cutoff = now - window;
          ips' = fmfilter (\<lambda>k. \<not> count_of ips k < cutoff) ips
      in (map_len ips', p\<lparr>ps_ips := ips'\<rparr>))"

definition add_total :: "int \<Rightarrow> sessionState \<Rightarrow> sessionState" where
  "add_total d s = s\<lparr>ss_total := wrap32 (ss_total s + d)\<rparr>"

definition set_path :: "string \<Rightarrow> pathState \<Rightarrow> sessionState \<Rightarrow> sessionState" where
  "set_path key p s = s\<lparr>ss_paths := fmupd key p (ss_paths s)\<rparr>"

definition set_hash :: "string \<Rightarrow> hashState \<Rightarrow> sessionState \<Rightarrow> sessionState" where
  "set_hash infoHash h s = s\<lparr>ss_hashes := fmupd infoHash h (ss_hashes s)\<rparr>"

definition add_conc :: "string \<Rightarrow> int \<Rightarrow> sessionState \<Rightarrow> sessionState" where
  "add_conc key d s =
     (let p = path_of s key in set_path key (p\<lparr>ps_conc := wrap32 (ps_conc p + d)\<rparr>) s)"

definition path_key :: "string \<Rightarrow> string \<Rightarrow> string" where
  "path_key infoHash path = infoHash @ ''|'' @ path"

section \<open>Acquire and release\<close>

text \<open>What the release function captures: the session, its id, the path, and the big-file slot
  if one was reserved.\<close>

record ticket =
  k_sid :: string
  k_addr :: nat
  k_hash :: string
  k_path :: string
  k_big :: bool

definition release_hash :: "bool \<Rightarrow> string \<Rightarrow> string \<Rightarrow> sessionState \<Rightarrow> sessionState" where
  "release_hash big infoHash path s =
     (if big then set_hash infoHash (releaseBig path (hash_of s infoHash)) s else s)"

definition total_full :: "Limits \<Rightarrow> sessionState \<Rightarrow> bool" where
  "total_full l s \<longleftrightarrow> 0 < l_maxTotal l \<and> l_maxTotal l \<le> ss_total s"

definition path_full :: "Limits \<Rightarrow> string \<Rightarrow> sessionState \<Rightarrow> bool" where
  "path_full l key s \<longleftrightarrow> 0 < l_maxPerPath l \<and> l_maxPerPath l \<le> ps_conc (path_of s key)"

definition reserve_big :: "Limits \<Rightarrow> bool \<Rightarrow> string \<Rightarrow> string \<Rightarrow> sessionState \<Rightarrow> bool \<times> sessionState" where
  "reserve_big l big infoHash path s =
     (if \<not> big then (True, s)
      else let s1 = getHash infoHash s in
        (case tryAddBig path (l_maxBigFilesPerHash l) (hash_of s1 infoHash) of
           None \<Rightarrow> (False, s1)
         | Some h \<Rightarrow> (True, set_hash infoHash h s1)))"

definition check_ips ::
  "Limits \<Rightarrow> NetLib \<Rightarrow> int \<Rightarrow> string \<Rightarrow> string \<Rightarrow> sessionState \<Rightarrow> bool \<times> sessionState" where
  "check_ips l net now key ip s =
     (if 0 < l_maxIPsPerSession l \<and> ip \<noteq> [] then
        (let (n, p) = trackIP net ip ipWindow now (path_of s key)
         in (int n \<le> l_maxIPsPerSession l, set_path key p s))
      else (True, s))"

text \<open>The body of \<open>Acquire\<close> on the session object: the reason of a rejection, or whether a
  big-file slot was reserved.\<close>

definition acquire_session ::
  "Limits \<Rightarrow> NetLib \<Rightarrow> int \<Rightarrow> string \<Rightarrow> string \<Rightarrow> string \<Rightarrow> sessionState \<Rightarrow> (string + bool) \<times> sessionState"
  where
  "acquire_session l net now infoHash path ip s =
     (if total_full l s then (Inl ''total'', s)
      else let big = isBigFile l infoHash path;
               (ok, s1) = reserve_big l big infoHash path s in
      if \<not> ok then (Inl ''bigfiles'', s1)
      else let key = path_key infoHash path;
               s2 = getPath key s1 in
      if path_full l key s2 then (Inl ''path'', release_hash big infoHash path s2)
      else let (ok', s3) = check_ips l net now key ip s2 in
      if \<not> ok' then (Inl ''ips'', release_hash big infoHash path s3)
      else (Inr big, add_conc key 1 (add_total 1 s3)))"

datatype verdict = Granted "ticket option" | Rejected string

definition on_heap :: "nat \<Rightarrow> sessionState \<Rightarrow> LState \<Rightarrow> LState" where
  "on_heap a s st = st\<lparr>ls_heap := (ls_heap st)(a := s)\<rparr>"

definition Acquire ::
  "Limits \<Rightarrow> NetLib \<Rightarrow> int \<Rightarrow> string \<Rightarrow> string \<Rightarrow> string \<Rightarrow> string \<Rightarrow> LState \<Rightarrow> verdict \<times> LState" where
  "Acquire l net now sessionID infoHash path ip st =
     (if sessionID = [] then (Granted None, st)
      else let (a, st1) = getSession sessionID st;
               (r, s) = acquire_session l net now infoHash path ip (ls_heap st1 a);
               st2 = on_heap a s st1
           in case r of
                Inl reason \<Rightarrow> (Rejected reason, st2)
              | Inr big \<Rightarrow>
                  (Granted (Some \<lparr>k_sid = sessionID, k_addr = a, k_hash = infoHash,
                                  k_path = path, k_big = big\<rparr>), st2))"

definition release_session :: "ticket \<Rightarrow> sessionState \<Rightarrow> sessionState" where
  "release_session t s =
     add_total (- 1) (release_hash (k_big t) (k_hash t) (k_path t)
       (add_conc (path_key (k_hash t) (k_path t)) (- 1) s))"

definition drop_if_idle :: "ticket \<Rightarrow> LState \<Rightarrow> LState" where
  "drop_if_idle t st =
     (if ss_total (ls_heap st (k_addr t)) \<le> 0
      then st\<lparr>ls_sessions := fmdrop (k_sid t) (ls_sessions st)\<rparr> else st)"

definition Release :: "ticket \<Rightarrow> LState \<Rightarrow> LState" where
  "Release t st =
     drop_if_idle t (on_heap (k_addr t) (release_session t (ls_heap st (k_addr t))) st)"

definition init_state :: LState where
  "init_state = \<lparr>ls_sessions = fmempty, ls_heap = (\<lambda>_. new_session), ls_next = 0\<rparr>"

section \<open>Slots\<close>

text \<open>
  A pool of counted slots: adding a slot may be refused, adding and deleting change the count
  of one key by one. The client is \<open>Acquire\<close>, which takes a slot, may still reject the
  request and give the slot back, and otherwise hands it to the release function.
\<close>

locale slot_pool =
  fixes add :: "'k \<Rightarrow> 's \<Rightarrow> 's option"
    and del :: "'k \<Rightarrow> 's \<Rightarrow> 's"
    and cnt :: "'s \<Rightarrow> 'k \<Rightarrow> int"
    and invar :: "'s \<Rightarrow> bool"
  assumes cnt_add: "invar s \<Longrightarrow> add k s = Some s' \<Longrightarrow> cnt s' = (cnt s)(k := cnt s k + 1)"
    and cnt_del: "invar s \<Longrightarrow> 0 < cnt s k \<Longrightarrow> cnt (del k s) = (cnt s)(k := cnt s k - 1)"
    and cnt_nonneg: "invar s \<Longrightarrow> 0 \<le> cnt s k"
    and invar_add: "invar s \<Longrightarrow> add k s = Some s' \<Longrightarrow> invar s'"
    and invar_del: "invar s \<Longrightarrow> 0 < cnt s k \<Longrightarrow> invar (del k s)"
begin

lemma undo:
  assumes "invar s" "add k s = Some s'"
  shows "cnt (del k s') = cnt s \<and> invar (del k s')"
proof -
  have c: "cnt s' = (cnt s)(k := cnt s k + 1)" "invar s'"
    using assms by (simp_all add: cnt_add invar_add)
  moreover have "0 < cnt s' k" using c(1) cnt_nonneg [OF assms(1), of k] by simp
  ultimately show ?thesis using cnt_del [of s' k] invar_del [of s' k] by simp
qed

lemma track_add:
  assumes "invar s" "cnt s = (\<lambda>k. int (count M k))" "add k s = Some s'"
  shows "invar s' \<and> cnt s' = (\<lambda>x. int (count (add_mset k M) x))"
  using assms by (auto simp: cnt_add invar_add)

lemma track_del:
  assumes "invar s" "cnt s = (\<lambda>k. int (count M k))" "k \<in># M"
  shows "invar (del k s) \<and> cnt (del k s) = (\<lambda>x. int (count (M - {#k#}) x))"
proof -
  have pos: "0 < cnt s k" using assms(2,3) by simp
  have "cnt (del k s) = (\<lambda>x. int (count (M - {#k#}) x))"
    using cnt_del [OF assms(1) pos] assms(2,3) by (auto simp: fun_eq_iff)
  with invar_del [OF assms(1) pos] show ?thesis by simp
qed

end

definition pos_map :: "('k, int) gomap \<Rightarrow> bool" where
  "pos_map m \<longleftrightarrow> (\<forall>k n. fmlookup m k = Some n \<longrightarrow> 0 < n)"

lemma pos_map_empty [simp]: "pos_map fmempty"
  by (simp add: pos_map_def)

lemma count_of_nonneg: "pos_map m \<Longrightarrow> 0 \<le> count_of m k"
  by (auto simp: count_of_def pos_map_def less_imp_le split: option.split)

lemma count_of_pos_iff: "pos_map m \<Longrightarrow> 0 < count_of m k \<longleftrightarrow> fmlookup m k \<noteq> None"
  by (auto simp: count_of_def pos_map_def split: option.split)

lemma pos_map_tryAddBig: "pos_map h \<Longrightarrow> tryAddBig p m h = Some h' \<Longrightarrow> pos_map h'"
  using count_of_nonneg [of h p] by (auto simp: tryAddBig_def pos_map_def split: if_splits)

lemma pos_map_releaseBig: "pos_map h \<Longrightarrow> pos_map (releaseBig p h)"
  by (auto simp: releaseBig_def pos_map_def Let_def)

lemma count_of_tryAddBig:
  "tryAddBig p m h = Some h' \<Longrightarrow> count_of h' = (count_of h)(p := count_of h p + 1)"
  by (auto simp: tryAddBig_def count_of_def fun_eq_iff split: if_splits option.splits)

lemma count_of_releaseBig:
  "0 < count_of h p \<Longrightarrow> count_of (releaseBig p h) = (count_of h)(p := count_of h p - 1)"
  by (auto simp: releaseBig_def count_of_def fun_eq_iff Let_def split: option.splits)

text \<open>The big-file slots of one torrent: \<open>tryAddBig\<close> and the function it returns.\<close>

interpretation hs: slot_pool "\<lambda>p. tryAddBig p maxBig" releaseBig count_of pos_map for maxBig
  by unfold_locales
    (auto simp: count_of_tryAddBig count_of_releaseBig count_of_nonneg pos_map_releaseBig
      dest: pos_map_tryAddBig)

subsection \<open>Frame rules\<close>

lemma ss_total_simps [simp]:
  "ss_total (getPath key s) = ss_total s" "ss_total (getHash h s) = ss_total s"
  "ss_total (set_path key p s) = ss_total s" "ss_total (set_hash h x s) = ss_total s"
  "ss_total (add_conc key d s) = ss_total s" "ss_total (release_hash b h q s) = ss_total s"
  "ss_total (add_total d s) = wrap32 (ss_total s + d)"
  by (simp_all add: getPath_def getHash_def set_path_def set_hash_def add_conc_def
      release_hash_def add_total_def Let_def split: option.split)

lemma path_of_simps [simp]:
  "path_of (getPath key s) = path_of s" "path_of (getHash h s) = path_of s"
  "path_of (set_path key p s) = (path_of s)(key := p)" "path_of (set_hash h x s) = path_of s"
  "path_of (release_hash b h q s) = path_of s" "path_of (add_total d s) = path_of s"
  "path_of (add_conc key d s) =
     (path_of s)(key := (path_of s key)\<lparr>ps_conc := wrap32 (ps_conc (path_of s key) + d)\<rparr>)"
  by (auto simp: path_of_def getPath_def getHash_def set_path_def set_hash_def add_conc_def
      release_hash_def add_total_def Let_def fun_eq_iff split: option.split)

lemma hash_of_simps [simp]:
  "hash_of (getPath key s) = hash_of s" "hash_of (getHash h s) = hash_of s"
  "hash_of (set_path key p s) = hash_of s" "hash_of (set_hash h x s) = (hash_of s)(h := x)"
  "hash_of (add_conc key d s) = hash_of s" "hash_of (add_total d s) = hash_of s"
  "hash_of (release_hash b h q s) =
     (if b then (hash_of s)(h := releaseBig q (hash_of s h)) else hash_of s)"
  by (auto simp: hash_of_def getPath_def getHash_def set_path_def set_hash_def add_conc_def
      release_hash_def add_total_def Let_def fun_eq_iff split: option.split)

text \<open>The big-file slots of a session, per torrent and path.\<close>

definition big_cnt :: "sessionState \<Rightarrow> string \<times> string \<Rightarrow> int" where
  "big_cnt s k = count_of (hash_of s (fst k)) (snd k)"

lemma big_cnt_simps [simp]:
  "big_cnt (getPath key s) = big_cnt s" "big_cnt (getHash h s) = big_cnt s"
  "big_cnt (set_path key p s) = big_cnt s" "big_cnt (add_conc key d s) = big_cnt s"
  "big_cnt (add_total d s) = big_cnt s" "big_cnt (release_hash False h q s) = big_cnt s"
  by (simp_all add: big_cnt_def fun_eq_iff)

lemma big_cnt_set_hash:
  "count_of x = (count_of (hash_of s h))(p := v) \<Longrightarrow>
   big_cnt (set_hash h x s) = (big_cnt s)((h, p) := v)"
  by (auto simp: big_cnt_def fun_eq_iff)

definition pos_session :: "sessionState \<Rightarrow> bool" where
  "pos_session s \<longleftrightarrow> (\<forall>h. pos_map (hash_of s h))"

definition take_big :: "Limits \<Rightarrow> string \<times> string \<Rightarrow> sessionState \<Rightarrow> sessionState option" where
  "take_big l k s =
     (case reserve_big l True (fst k) (snd k) s of (ok, s') \<Rightarrow> if ok then Some s' else None)"

lemma take_big_Some:
  "take_big l (h, p) s = Some s' \<longleftrightarrow>
     (\<exists>x. tryAddBig p (l_maxBigFilesPerHash l) (hash_of s h) = Some x \<and>
        s' = set_hash h x (getHash h s))"
  by (auto simp: take_big_def reserve_big_def Let_def split: option.splits)

lemma pos_session_simps [simp]:
  "pos_session (getPath key s) = pos_session s" "pos_session (getHash h s) = pos_session s"
  "pos_session (set_path key p s) = pos_session s" "pos_session (add_conc key d s) = pos_session s"
  "pos_session (add_total d s) = pos_session s"
  "pos_session (release_hash False h q s) = pos_session s"
  by (simp_all add: pos_session_def)

interpretation bs: slot_pool "take_big l" "\<lambda>k. release_hash True (fst k) (snd k)" big_cnt pos_session
  for l
proof
  fix s s' :: sessionState and k :: "string \<times> string"
  assume inv: "pos_session s"
  then have pos: "pos_map (hash_of s h)" for h by (simp add: pos_session_def)
  obtain h p where k: "k = (h, p)" by (cases k)
  show "0 \<le> big_cnt s k" using pos by (simp add: big_cnt_def count_of_nonneg)
  show "big_cnt s' = (big_cnt s)(k := big_cnt s k + 1)" if took: "take_big l k s = Some s'"
  proof -
    obtain x where x: "tryAddBig p (l_maxBigFilesPerHash l) (hash_of s h) = Some x"
        "s' = set_hash h x (getHash h s)"
      using took by (auto simp: k take_big_Some)
    show ?thesis
      using big_cnt_set_hash [of x "getHash h s" h p "big_cnt s k + 1"] count_of_tryAddBig [OF x(1)]
      by (simp add: x(2) k big_cnt_def)
  qed
  show "pos_session s'" if "take_big l k s = Some s'"
    using that pos by (auto simp: k take_big_Some pos_session_def dest: pos_map_tryAddBig [OF pos])
  assume taken: "0 < big_cnt s k"
  then have "count_of (releaseBig p (hash_of s h)) = (count_of (hash_of s h))(p := big_cnt s k - 1)"
    by (simp add: k big_cnt_def count_of_releaseBig)
  then show "big_cnt (release_hash True (fst k) (snd k) s) = (big_cnt s)(k := big_cnt s k - 1)"
    using big_cnt_set_hash [of "releaseBig p (hash_of s h)" s h p] by (simp add: k release_hash_def)
  show "pos_session (release_hash True (fst k) (snd k) s)"
    using pos by (auto simp: pos_session_def intro: pos_map_releaseBig)
qed

section \<open>Accounting of one session\<close>

text \<open>The slots the outstanding requests of a session occupy.\<close>

definition big_slots :: "ticket multiset \<Rightarrow> (string \<times> string) multiset" where
  "big_slots T = image_mset (\<lambda>t. (k_hash t, k_path t)) (filter_mset k_big T)"

definition conc_slots :: "ticket multiset \<Rightarrow> string multiset" where
  "conc_slots T = image_mset (\<lambda>t. path_key (k_hash t) (k_path t)) T"

definition acct :: "sessionState \<Rightarrow> ticket multiset \<Rightarrow> bool" where
  "acct s T \<longleftrightarrow> ss_total s = int (size T) \<and>
     (\<forall>key. ps_conc (path_of s key) = int (count (conc_slots T) key)) \<and>
     big_cnt s = (\<lambda>k. int (count (big_slots T) k)) \<and> pos_session s"

lemma slots_add [simp]:
  "big_slots (add_mset t T) =
     (if k_big t then add_mset (k_hash t, k_path t) (big_slots T) else big_slots T)"
  "conc_slots (add_mset t T) = add_mset (path_key (k_hash t) (k_path t)) (conc_slots T)"
  by (simp_all add: big_slots_def conc_slots_def)

lemma slots_empty [simp]: "big_slots {#} = {#}" "conc_slots {#} = {#}"
  by (simp_all add: big_slots_def conc_slots_def)

lemma size_conc_slots [simp]: "size (conc_slots T) = size T"
  by (simp add: conc_slots_def)

lemma count_conc_le: "count (conc_slots T) key \<le> size T"
  using count_le_size [of "conc_slots T" key] by simp

lemma acct_new: "acct new_session {#}"
  by (simp add: acct_def new_session_def path_of_def new_path_def big_cnt_def pos_session_def
      hash_of_def count_of_def fun_eq_iff)

lemma acct_frame:
  assumes "acct s T" "ss_total s' = ss_total s" "\<And>key. ps_conc (path_of s' key) = ps_conc (path_of s key)"
    "big_cnt s' = big_cnt s" "pos_session s' = pos_session s"
  shows "acct s' T"
  using assms by (simp add: acct_def)

lemma acct_release_big:
  assumes "acct s T"
  shows "reserve_big l True h p s = (True, s1) \<Longrightarrow>
     ss_total s1 = ss_total s \<and> path_of s1 = path_of s \<and>
     big_cnt s1 = (big_cnt s)((h, p) := big_cnt s (h, p) + 1) \<and> pos_session s1 \<and>
     big_cnt (release_hash True h p s1) = big_cnt s \<and> pos_session (release_hash True h p s1)"
    and "reserve_big l True h p s = (False, s1) \<Longrightarrow> s1 = getHash h s"
proof -
  have pos: "pos_session s" using assms by (simp add: acct_def)
  show "s1 = getHash h s" if "reserve_big l True h p s = (False, s1)"
    using that by (auto simp: reserve_big_def Let_def split: option.splits)
  assume res: "reserve_big l True h p s = (True, s1)"
  then have took: "take_big l (h, p) s = Some s1" by (simp add: take_big_def)
  have frame: "ss_total s1 = ss_total s \<and> path_of s1 = path_of s"
    using res by (auto simp: reserve_big_def Let_def split: option.splits)
  show "ss_total s1 = ss_total s \<and> path_of s1 = path_of s \<and>
     big_cnt s1 = (big_cnt s)((h, p) := big_cnt s (h, p) + 1) \<and> pos_session s1 \<and>
     big_cnt (release_hash True h p s1) = big_cnt s \<and> pos_session (release_hash True h p s1)"
    using frame bs.cnt_add [OF pos took] bs.invar_add [OF pos took] bs.undo [OF pos took] by simp
qed

lemma check_ips_frame:
  assumes "check_ips l net now key ip s = (ok, s')"
  shows "ss_total s' = ss_total s" "ps_conc (path_of s' k) = ps_conc (path_of s k)"
    "big_cnt s' = big_cnt s" "pos_session s' = pos_session s" "hash_of s' = hash_of s"
  using assms by (auto simp: check_ips_def trackIP_def Let_def split: if_splits)

lemma acct_lookup_None:
  assumes "acct s T"
  shows "fmlookup (hash_of s h) p = None \<longleftrightarrow> (h, p) \<notin># big_slots T"
proof -
  have "pos_map (hash_of s h)" using assms by (simp add: acct_def pos_session_def)
  then have "fmlookup (hash_of s h) p \<noteq> None \<longleftrightarrow> 0 < big_cnt s (h, p)"
    using count_of_pos_iff [of "hash_of s h" p] by (simp add: big_cnt_def)
  also have "\<dots> \<longleftrightarrow> (h, p) \<in># big_slots T" using assms by (simp add: acct_def)
  finally show ?thesis by blast
qed

definition big_paths :: "string \<Rightarrow> ticket multiset \<Rightarrow> string set" where
  "big_paths h T = {p. (h, p) \<in># big_slots T}"

lemma in_big_paths: "p \<in> big_paths h T \<longleftrightarrow> (h, p) \<in># big_slots T"
  by (simp add: big_paths_def)

lemma finite_big_paths [simp]: "finite (big_paths h T)"
  unfolding big_paths_def by (rule finite_subset [of _ "snd ` set_mset (big_slots T)"]) force+

lemma big_paths_simps [simp]:
  "big_paths h {#} = {}"
  "big_paths h (add_mset t T) =
     (if k_big t \<and> k_hash t = h then insert (k_path t) (big_paths h T) else big_paths h T)"
  by (auto simp: big_paths_def)

lemma acct_map_len:
  assumes "acct s T"
  shows "map_len (hash_of s h) = card (big_paths h T)"
proof -
  have "fmdom' (hash_of s h) = {p. fmlookup (hash_of s h) p \<noteq> None}"
    by (auto simp: fmlookup_dom'_iff)
  also have "\<dots> = (big_paths h T)"
    by (simp add: acct_lookup_None [OF assms] big_paths_def del: not_None_eq)
  finally show ?thesis by (simp add: map_len_def)
qed

subsection \<open>The abstract decision\<close>

text \<open>
  The decision as a function of the outstanding requests alone (and of whether the address
  window admits the client): what the counters of the session object stand for.
\<close>

definition over :: "int \<Rightarrow> nat \<Rightarrow> bool" where
  "over m n \<longleftrightarrow> 0 < m \<and> m \<le> int n"

definition decide :: "Limits \<Rightarrow> ticket multiset \<Rightarrow> string \<Rightarrow> string \<Rightarrow> bool \<Rightarrow> string + bool" where
  "decide l T h p ip_ok =
     (if over (l_maxTotal l) (size T) then Inl ''total''
      else if isBigFile l h p \<and> (h, p) \<notin># big_slots T \<and>
              over (l_maxBigFilesPerHash l) (card (big_paths h T)) then Inl ''bigfiles''
      else if over (l_maxPerPath l) (count (conc_slots T) (path_key h p)) then Inl ''path''
      else if \<not> ip_ok then Inl ''ips''
      else Inr (isBigFile l h p))"

definition ips_ok :: "Limits \<Rightarrow> NetLib \<Rightarrow> int \<Rightarrow> string \<Rightarrow> pathState \<Rightarrow> bool" where
  "ips_ok l net now ip ps \<longleftrightarrow>
     (if 0 < l_maxIPsPerSession l \<and> ip \<noteq> []
      then int (fst (trackIP net ip ipWindow now ps)) \<le> l_maxIPsPerSession l else True)"

lemma fst_check_ips: "fst (check_ips l net now key ip s) = ips_ok l net now ip (path_of s key)"
  by (simp add: check_ips_def ips_ok_def case_prod_beta Let_def)

lemma total_full_over: "acct s T \<Longrightarrow> total_full l s = over (l_maxTotal l) (size T)"
  by (simp add: acct_def total_full_def over_def)

lemma path_full_over:
  "acct s T \<Longrightarrow> ps_conc (path_of s' key) = ps_conc (path_of s key) \<Longrightarrow>
     path_full l key s' = over (l_maxPerPath l) (count (conc_slots T) key)"
  by (simp add: acct_def path_full_def over_def)

lemma reserve_big_over:
  assumes "acct s T"
  shows "fst (reserve_big l big h p s) \<longleftrightarrow>
     \<not> (big \<and> (h, p) \<notin># big_slots T \<and> over (l_maxBigFilesPerHash l) (card (big_paths h T)))"
  by (simp add: reserve_big_def Let_def tryAddBig_def over_def acct_lookup_None [OF assms]
      acct_map_len [OF assms])

lemma reserve_big_path_of: "path_of (snd (reserve_big l big h p s)) = path_of s"
  by (simp add: reserve_big_def Let_def split: option.split)

lemma acquire_session_decide:
  assumes "acct s T"
  shows "fst (acquire_session l net now h p ip s) =
     decide l T h p (ips_ok l net now ip (path_of s (path_key h p)))"
proof -
  obtain ok s1 where r: "reserve_big l (isBigFile l h p) h p s = (ok, s1)" by fastforce
  obtain ok' s3 where c: "check_ips l net now (path_key h p) ip (getPath (path_key h p) s1) = (ok', s3)"
    by fastforce
  have s1: "path_of s1 = path_of s" using reserve_big_path_of [of l "isBigFile l h p" h p s] r by simp
  have ok': "ok' = ips_ok l net now ip (path_of s (path_key h p))"
    using fst_check_ips [of l net now "path_key h p" ip "getPath (path_key h p) s1"] c s1 by simp
  have pf: "path_full l (path_key h p) (getPath (path_key h p) s1) =
      over (l_maxPerPath l) (count (conc_slots T) (path_key h p))"
    by (rule path_full_over [OF assms]) (simp add: s1)
  show ?thesis
    using reserve_big_over [OF assms, of l "isBigFile l h p" h p]
    by (simp add: acquire_session_def decide_def total_full_over [OF assms] Let_def r c ok' pf
        split del: if_split cong: if_cong) (auto simp: pf)
qed

subsection \<open>The counters follow the outstanding requests\<close>

lemma reserve_release_acct:
  assumes "acct s T" "reserve_big l big h p s = (True, s1)"
    and "ss_total s2 = ss_total s1" "\<And>k. ps_conc (path_of s2 k) = ps_conc (path_of s1 k)"
    and "hash_of s2 = hash_of s1"
  shows "acct (release_hash big h p s2) T"
proof (cases big)
  case False
  then have "s1 = s" using assms(2) by (simp add: reserve_big_def)
  with assms False show ?thesis
    by (simp add: acct_def big_cnt_def pos_session_def fun_eq_iff)
next
  case True
  have eq: "hash_of (release_hash True h p s2) = hash_of (release_hash True h p s1)"
    using assms(5) by simp
  then have "big_cnt (release_hash True h p s2) = big_cnt (release_hash True h p s1)"
      "pos_session (release_hash True h p s2) = pos_session (release_hash True h p s1)"
    by (simp_all only: big_cnt_def pos_session_def fun_eq_iff eq simp_thms)
  with acct_release_big(1) [OF assms(1), of l h p s1] assms True show ?thesis
    by (simp add: acct_def)
qed

lemma acct_refuse:
  assumes "acct s T" "acquire_session l net now h p ip s = (Inl r, s')"
  shows "acct s' T"
proof -
  obtain ok s1 where r: "reserve_big l (isBigFile l h p) h p s = (ok, s1)" by fastforce
  obtain ok' s3 where c: "check_ips l net now (path_key h p) ip (getPath (path_key h p) s1) = (ok', s3)"
    by fastforce
  note undo = reserve_release_acct [OF assms(1), of l "isBigFile l h p" h p s1]
  consider "s' = s" | "\<not> ok" "s' = s1"
    | "ok" "s' = release_hash (isBigFile l h p) h p (getPath (path_key h p) s1)"
    | "ok" "s' = release_hash (isBigFile l h p) h p s3"
    using assms(2) by (auto simp: acquire_session_def Let_def r c split: if_splits)
  then show ?thesis
  proof cases
    case 2
    then have "isBigFile l h p" using r by (cases "isBigFile l h p"; simp add: reserve_big_def)
    then have "s' = getHash h s" using acct_release_big(2) [OF assms(1)] r 2 by simp
    then show ?thesis by (auto intro: acct_frame [OF assms(1)])
  qed (use assms(1) r undo check_ips_frame [OF c] in simp_all)
qed

lemma acct_grant:
  assumes "acct s T" "size T < 2 ^ 31 - 1"
    and "acquire_session l net now (k_hash t) (k_path t) ip s = (Inr (k_big t), s')"
  shows "acct s' (add_mset t T)"
proof -
  let ?h = "k_hash t" and ?p = "k_path t"
  let ?key = "path_key ?h ?p" and ?big = "isBigFile l ?h ?p"
  obtain ok s1 where r: "reserve_big l ?big ?h ?p s = (ok, s1)" by fastforce
  obtain ok' s3 where c: "check_ips l net now ?key ip (getPath ?key s1) = (ok', s3)" by fastforce
  have res: "ok" "k_big t = ?big" "s' = add_conc ?key 1 (add_total 1 s3)"
    using assms(3) by (auto simp: acquire_session_def Let_def r c split: if_splits)
  have s1: "ss_total s1 = ss_total s" "path_of s1 = path_of s" "pos_session s1"
      "big_cnt s1 = (\<lambda>k. int (count (big_slots (add_mset t T)) k))"
    using acct_release_big(1) [OF assms(1), of l ?h ?p s1] r res assms(1)
    by (cases ?big; auto simp: reserve_big_def acct_def)+
  have "wrap32 (int (size T) + 1) = int (size T) + 1" using assms(2) by (intro wrap32_id) auto
  moreover have "wrap32 (int (count (conc_slots T) ?key) + 1) = int (count (conc_slots T) ?key) + 1"
    using assms(2) count_conc_le [of T ?key] by (intro wrap32_id) auto
  ultimately show ?thesis
    using assms(1) s1 check_ips_frame [OF c] by (simp add: acct_def res(3))
qed

lemma acct_release:
  assumes "acct s T" "t \<in># T" "size T < 2 ^ 31"
  shows "acct (release_session t s) (T - {#t#})"
proof -
  obtain T' where T: "T = add_mset t T'" using assms(2) by (metis insert_DiffM)
  let ?key = "path_key (k_hash t) (k_path t)"
  have pos: "pos_session s" and big: "big_cnt s = (\<lambda>k. int (count (big_slots T) k))"
    using assms(1) by (simp_all add: acct_def)
  have rel: "pos_session (release_hash (k_big t) (k_hash t) (k_path t) s) \<and>
      big_cnt (release_hash (k_big t) (k_hash t) (k_path t) s) = (\<lambda>k. int (count (big_slots T') k))"
  proof (cases "k_big t")
    case True
    have "(k_hash t, k_path t) \<in># big_slots T" "big_slots T - {#(k_hash t, k_path t)#} = big_slots T'"
      using True by (simp_all add: T)
    then show ?thesis using bs.track_del [OF pos big, of "(k_hash t, k_path t)"] True by simp
  next
    case False
    then show ?thesis using pos big by (simp add: T)
  qed
  have eq: "hash_of (release_session t s) = hash_of (release_hash (k_big t) (k_hash t) (k_path t) s)"
    by (simp add: release_session_def)
  have "pos_session (release_session t s) \<and>
      big_cnt (release_session t s) = (\<lambda>k. int (count (big_slots T') k))"
    using rel by (simp only: pos_session_def big_cnt_def fun_eq_iff eq simp_thms)
  moreover have "wrap32 (int (size T')) = int (size T')"
      "wrap32 (int (count (conc_slots T') ?key)) = int (count (conc_slots T') ?key)"
    using assms(3) count_conc_le [of T' ?key] by (auto simp: T intro!: wrap32_id)
  ultimately show ?thesis using assms(1) by (simp add: acct_def T release_session_def)
qed

section \<open>The limiter as a state machine\<close>

text \<open>
  A run of the limiter: requests arrive (\<open>Acquire\<close>) and finish (the release function of a
  granted request, once). The configuration pairs the limiter with the tickets of the
  requests in flight. The size table and the clock may differ from step to step; the caps
  are fixed. A step that would put more than \<open>2^31 - 1\<close> requests in flight is outside the
  model: the 32-bit counters of the code overflow there.
\<close>

definition with_sizes :: "Limits \<Rightarrow> (string \<Rightarrow> string \<Rightarrow> int option) option \<Rightarrow> Limits" where
  "with_sizes l f = l\<lparr>l_sizeLookup := f\<rparr>"

inductive lim_step ::
  "Limits \<Rightarrow> NetLib \<Rightarrow> LState \<times> ticket multiset \<Rightarrow> LState \<times> ticket multiset \<Rightarrow> bool" for l net where
  granted: "size T < 2 ^ 31 - 1 \<Longrightarrow>
     Acquire (with_sizes l f) net now sid h p ip st = (Granted (Some t), st') \<Longrightarrow>
     lim_step l net (st, T) (st', add_mset t T)"
| anonymous: "Acquire (with_sizes l f) net now sid h p ip st = (Granted None, st') \<Longrightarrow>
     lim_step l net (st, T) (st', T)"
| rejected: "Acquire (with_sizes l f) net now sid h p ip st = (Rejected r, st') \<Longrightarrow>
     lim_step l net (st, T) (st', T)"
| released: "t \<in># T \<Longrightarrow> lim_step l net (st, T) (Release t st, T - {#t#})"

definition lim_reachable :: "Limits \<Rightarrow> NetLib \<Rightarrow> LState \<Rightarrow> ticket multiset \<Rightarrow> bool" where
  "lim_reachable l net st T \<longleftrightarrow> (lim_step l net)\<^sup>*\<^sup>* (init_state, {#}) (st, T)"

definition of_session :: "string \<Rightarrow> ticket multiset \<Rightarrow> ticket multiset" where
  "of_session sid T = filter_mset (\<lambda>t. k_sid t = sid) T"

definition within_caps :: "Limits \<Rightarrow> ticket multiset \<Rightarrow> bool" where
  "within_caps l T \<longleftrightarrow> (0 < l_maxTotal l \<longrightarrow> int (size T) \<le> l_maxTotal l) \<and>
     (0 < l_maxPerPath l \<longrightarrow> (\<forall>key. int (count (conc_slots T) key) \<le> l_maxPerPath l)) \<and>
     (0 < l_maxBigFilesPerHash l \<longrightarrow>
        (\<forall>h. int (card (big_paths h T)) \<le> l_maxBigFilesPerHash l))"

definition lim_inv :: "Limits \<Rightarrow> LState \<Rightarrow> ticket multiset \<Rightarrow> bool" where
  "lim_inv l st T \<longleftrightarrow>
     (\<forall>t. t \<in># T \<longrightarrow> fmlookup (ls_sessions st) (k_sid t) = Some (k_addr t)) \<and>
     (\<forall>sid a. fmlookup (ls_sessions st) sid = Some a \<longrightarrow>
        a < ls_next st \<and> of_session sid T \<noteq> {#} \<and> acct (ls_heap st a) (of_session sid T) \<and>
        within_caps l (of_session sid T) \<and>
        (\<forall>sid'. fmlookup (ls_sessions st) sid' = Some a \<longrightarrow> sid' = sid)) \<and>
     size T < 2 ^ 31"

lemma of_session_simps [simp]:
  "of_session sid (add_mset t T) =
     (if k_sid t = sid then add_mset t (of_session sid T) else of_session sid T)"
  "of_session sid {#} = {#}"
  by (simp_all add: of_session_def)

lemma of_session_empty: "of_session sid T = {#} \<longleftrightarrow> (\<forall>t. t \<in># T \<longrightarrow> k_sid t \<noteq> sid)"
  by (simp add: of_session_def filter_mset_eq_conv) (metis)

lemma size_of_session: "size (of_session sid T) \<le> size T"
  unfolding of_session_def by (rule size_filter_mset_lesseq)

lemma within_caps_grant:
  assumes "within_caps l T" "decide l' T (k_hash t) (k_path t) ok = Inr (k_big t)"
    and "l' = with_sizes l f"
  shows "within_caps l (add_mset t T)"
proof -
  have d: "\<not> over (l_maxTotal l) (size T)"
      "\<not> over (l_maxPerPath l) (count (conc_slots T) (path_key (k_hash t) (k_path t)))"
      "k_big t \<Longrightarrow> (k_hash t, k_path t) \<in># big_slots T \<or>
         \<not> over (l_maxBigFilesPerHash l) (card (big_paths (k_hash t) T))"
    using assms(2) by (auto simp: decide_def assms(3) with_sizes_def split: if_splits)
  have "int (card (big_paths h (add_mset t T))) \<le> l_maxBigFilesPerHash l"
    if "0 < l_maxBigFilesPerHash l" for h
    using that assms(1) d(3) by (auto simp: within_caps_def over_def card_insert_if in_big_paths)
  then show ?thesis using assms(1) d(1,2) by (auto simp: within_caps_def over_def)
qed

lemma card_slots_le: "card (big_paths h T) \<le> card (big_paths h (add_mset t T))"
  by (rule card_mono) auto

lemma within_caps_release:
  assumes "within_caps l (add_mset t T)"
  shows "within_caps l T"
proof -
  have "count (conc_slots T) key \<le> count (conc_slots (add_mset t T)) key" for key by simp
  then show ?thesis
    using assms card_slots_le [of _ T t] unfolding within_caps_def
    by (smt (verit) of_nat_mono size_add_mset of_nat_Suc)
qed

lemma within_caps_empty: "within_caps l {#}"
  by (simp add: within_caps_def)

subsection \<open>The invariant\<close>

lemma of_session_mem: "t \<in># of_session sid T \<longleftrightarrow> t \<in># T \<and> k_sid t = sid"
  by (auto simp: of_session_def)

lemma lim_invD:
  assumes "lim_inv l st T"
  shows "t \<in># T \<Longrightarrow> fmlookup (ls_sessions st) (k_sid t) = Some (k_addr t)"
    and "fmlookup (ls_sessions st) sid = Some a \<Longrightarrow>
      a < ls_next st \<and> of_session sid T \<noteq> {#} \<and> acct (ls_heap st a) (of_session sid T) \<and>
      within_caps l (of_session sid T)"
    and "fmlookup (ls_sessions st) sid = Some a \<Longrightarrow> fmlookup (ls_sessions st) sid' = Some a \<Longrightarrow>
      sid' = sid"
    and "size T < 2 ^ 31"
  using assms unfolding lim_inv_def by blast+

text \<open>One session changes, at its own address or at a fresh one; the others keep theirs.\<close>

lemma lim_inv_update:
  assumes inv: "lim_inv l st T"
    and map: "\<And>sid'. sid' \<noteq> sid \<Longrightarrow> fmlookup (ls_sessions st') sid' = fmlookup (ls_sessions st) sid'"
    and tickets: "\<And>sid'. sid' \<noteq> sid \<Longrightarrow> of_session sid' T' = of_session sid' T"
    and heap: "\<And>b. b \<noteq> a \<Longrightarrow> ls_heap st' b = ls_heap st b" and "ls_next st \<le> ls_next st'"
    and addr: "fmlookup (ls_sessions st) sid = Some a \<or> ls_next st \<le> a"
    and new: "fmlookup (ls_sessions st') sid = None \<and> of_session sid T' = {#} \<or>
      fmlookup (ls_sessions st') sid = Some a \<and> a < ls_next st' \<and> of_session sid T' \<noteq> {#} \<and>
      acct (ls_heap st' a) (of_session sid T') \<and> within_caps l (of_session sid T') \<and>
      (\<forall>t. t \<in># of_session sid T' \<longrightarrow> k_addr t = a)"
    and "size T' < 2 ^ 31"
  shows "lim_inv l st' T'"
proof -
  have other: "b \<noteq> a" if "fmlookup (ls_sessions st) sid' = Some b" "sid' \<noteq> sid" for sid' b
  proof
    assume "b = a"
    with that addr have "fmlookup (ls_sessions st) sid = Some b \<or> ls_next st \<le> b" by simp
    then show False using that lim_invD(2) [OF inv that(1)] lim_invD(3) [OF inv that(1), of sid] by auto
  qed
  have entry: "sid' = sid \<and> b = a \<or> sid' \<noteq> sid \<and> fmlookup (ls_sessions st) sid' = Some b \<and> b \<noteq> a"
    if "fmlookup (ls_sessions st') sid' = Some b" for sid' b
    using that new map [of sid'] other [of sid' b] by (cases "sid' = sid") auto
  have uniq: "sid'' = sid'"
    if "fmlookup (ls_sessions st') sid' = Some b" "fmlookup (ls_sessions st') sid'' = Some b" for sid' sid'' b
    using entry [OF that(1)] entry [OF that(2)] lim_invD(3) [OF inv] by auto
  have "fmlookup (ls_sessions st') (k_sid t) = Some (k_addr t)" if t: "t \<in># T'" for t
  proof (cases "k_sid t = sid")
    case True
    then have "t \<in># of_session sid T'" using t by (simp add: of_session_mem)
    with new True show ?thesis by auto
  next
    case False
    have "t \<in># of_session (k_sid t) T'" using t by (simp add: of_session_mem)
    then have "t \<in># of_session (k_sid t) T" by (simp only: tickets [OF False])
    then show ?thesis using lim_invD(1) [OF inv, of t] map [OF False] by (simp add: of_session_mem)
  qed
  moreover have "b < ls_next st' \<and> of_session sid' T' \<noteq> {#} \<and> acct (ls_heap st' b) (of_session sid' T') \<and>
      within_caps l (of_session sid' T')"
    if b: "fmlookup (ls_sessions st') sid' = Some b" for sid' b
  proof (cases "sid' = sid")
    case True
    then show ?thesis using new b by auto
  next
    case False
    then have b': "fmlookup (ls_sessions st) sid' = Some b" using b map by simp
    show ?thesis
      using lim_invD(2) [OF inv b'] heap [OF other [OF b' False]] tickets [OF False] assms(5) by simp
  qed
  ultimately show ?thesis using assms(8) uniq by (simp add: lim_inv_def)
qed

lemma lim_inv_init: "lim_inv l init_state {#}"
  by (simp add: lim_inv_def init_state_def)

text \<open>The session object a request works on.\<close>

lemma getSession_acct:
  assumes "lim_inv l st T" "getSession sid st = (a, st1)"
  shows "acct (ls_heap st1 a) (of_session sid T)" "fmlookup (ls_sessions st1) sid = Some a"
    and "a < ls_next st1" "ls_next st \<le> ls_next st1" "within_caps l (of_session sid T)"
    and "sid' \<noteq> sid \<Longrightarrow> fmlookup (ls_sessions st1) sid' = fmlookup (ls_sessions st) sid'"
    and "b \<noteq> a \<Longrightarrow> ls_heap st1 b = ls_heap st b"
    and "fmlookup (ls_sessions st) sid = Some a \<or> ls_next st \<le> a"
    and "of_session sid T = {#} \<Longrightarrow> ls_heap st1 a = new_session"
    and "t \<in># of_session sid T \<Longrightarrow> k_addr t = a"
proof -
  have fresh: "fmlookup (ls_sessions st) sid = None \<longleftrightarrow> of_session sid T = {#}"
    using lim_invD(1,2) [OF assms(1)] by (metis not_None_eq of_session_empty option.distinct(1))
  note d = lim_invD [OF assms(1)]
  show "acct (ls_heap st1 a) (of_session sid T)" "within_caps l (of_session sid T)"
      "a < ls_next st1" "of_session sid T = {#} \<Longrightarrow> ls_heap st1 a = new_session"
    using assms(2) fresh d(2) [of sid]
    by (auto simp: getSession_def Let_def acct_new within_caps_empty split: option.splits)
  show lookup: "fmlookup (ls_sessions st1) sid = Some a" and "ls_next st \<le> ls_next st1"
    and "sid' \<noteq> sid \<Longrightarrow> fmlookup (ls_sessions st1) sid' = fmlookup (ls_sessions st) sid'"
    and "b \<noteq> a \<Longrightarrow> ls_heap st1 b = ls_heap st b"
    and own: "fmlookup (ls_sessions st) sid = Some a \<or> ls_next st \<le> a"
    using assms(2) by (auto simp: getSession_def Let_def split: option.splits)
  assume t: "t \<in># of_session sid T"
  then have "fmlookup (ls_sessions st) sid = Some (k_addr t)" using d(1) by (auto simp: of_session_mem)
  with assms(2) show "k_addr t = a" by (simp add: getSession_def)
qed

lemma on_heap_simps [simp]:
  "ls_sessions (on_heap a s st) = ls_sessions st" "ls_next (on_heap a s st) = ls_next st"
  "ls_heap (on_heap a s st) = (ls_heap st)(a := s)"
  by (simp_all add: on_heap_def)

lemma Acquire_cases:
  assumes "Acquire l net now sid h p ip st = (v, st')"
  obtains "sid = []" "v = Granted None" "st' = st"
    | a st1 r s where "sid \<noteq> []" "getSession sid st = (a, st1)" "st' = on_heap a s st1"
        "acquire_session l net now h p ip (ls_heap st1 a) = (Inl r, s)" "v = Rejected r"
    | a st1 big s where "sid \<noteq> []" "getSession sid st = (a, st1)" "st' = on_heap a s st1"
        "acquire_session l net now h p ip (ls_heap st1 a) = (Inr big, s)"
        "v = Granted (Some \<lparr>k_sid = sid, k_addr = a, k_hash = h, k_path = p, k_big = big\<rparr>)"
proof (cases "sid = []")
  case True
  then show thesis using assms that(1) by (simp add: Acquire_def)
next
  case False
  obtain a st1 where g: "getSession sid st = (a, st1)" by fastforce
  obtain r s where q: "acquire_session l net now h p ip (ls_heap st1 a) = (r, s)" by fastforce
  show thesis
    using assms that(2,3) [OF False g, of s] q False g by (cases r) (auto simp: Acquire_def)
qed

lemma new_path_ips_ok: "ips_ok l net now ip new_path"
  by (simp add: ips_ok_def trackIP_def new_path_def Let_def count_of_def ipWindow_def map_len_def
      fmdom'_alt_def)

lemma not_over_0 [simp]: "\<not> over m 0"
  by (simp add: over_def)

lemma idle_session_admitted:
  "\<exists>s. acquire_session l net now h p ip new_session = (Inr (isBigFile l h p), s)"
proof -
  have "path_of new_session k = new_path" for k by (simp add: path_of_def new_session_def)
  then have "fst (acquire_session l net now h p ip new_session) = Inr (isBigFile l h p)"
    by (simp add: acquire_session_decide [OF acct_new] decide_def new_path_ips_ok)
  then show ?thesis by (metis prod.collapse)
qed

lemma Acquire_inv:
  assumes inv: "lim_inv l st T" and acq: "Acquire (with_sizes l f) net now sid h p ip st = (v, st')"
  shows "v = Granted (Some t) \<Longrightarrow> size T < 2 ^ 31 - 1 \<Longrightarrow> lim_inv l st' (add_mset t T)"
    and "v = Granted None \<or> v = Rejected r \<Longrightarrow> lim_inv l st' T"
proof -
  show "lim_inv l st' (add_mset t T)" if "v = Granted (Some t)" "size T < 2 ^ 31 - 1"
    using acq
  proof (cases rule: Acquire_cases)
    case (3 a st1 big s)
    note g = getSession_acct [OF inv 3(2)]
    have t: "t = \<lparr>k_sid = sid, k_addr = a, k_hash = h, k_path = p, k_big = big\<rparr>" using 3 that by simp
    have "acct s (add_mset t (of_session sid T))"
      using acct_grant [OF g(1), of _ net now t ip s] 3(4) t that(2) size_of_session [of sid T] by simp
    moreover have "within_caps l (add_mset t (of_session sid T))"
      using acquire_session_decide [OF g(1), of "with_sizes l f" net now h p ip] 3(4) t
      by (intro within_caps_grant [OF g(5) _ refl]) simp
    ultimately show ?thesis
      using 3 t that g by (intro lim_inv_update [OF inv, of sid _ _ a]) auto
  qed (use that in simp_all)
  show "lim_inv l st' T" if "v = Granted None \<or> v = Rejected r"
    using acq
  proof (cases rule: Acquire_cases)
    case (2 a st1 r s)
    note g = getSession_acct [OF inv 2(2)]
    have "acct s (of_session sid T)" by (rule acct_refuse [OF g(1) 2(4)])
    moreover have "of_session sid T \<noteq> {#}"
    proof
      assume "of_session sid T = {#}"
      then have "ls_heap st1 a = new_session" by (rule g(9))
      then show False using idle_session_admitted [of "with_sizes l f" net now h p ip] 2(4) by auto
    qed
    ultimately show ?thesis
      using 2 g lim_invD(4) [OF inv] by (intro lim_inv_update [OF inv, of sid _ _ a]) auto
  qed (use that inv in simp_all)
qed

lemma Release_inv:
  assumes inv: "lim_inv l st T" and t: "t \<in># T"
  shows "lim_inv l (Release t st) (T - {#t#})"
proof -
  obtain T' where T: "T = add_mset t T'" using t by (metis insert_DiffM)
  let ?sid = "k_sid t" and ?a = "k_addr t"
  have look: "fmlookup (ls_sessions st) ?sid = Some ?a" by (rule lim_invD(1) [OF inv t])
  note d = lim_invD(2) [OF inv look]
  have sz: "size (of_session ?sid T) < 2 ^ 31"
    using size_of_session [of ?sid T] lim_invD(4) [OF inv] by simp
  have own: "of_session ?sid T - {#t#} = of_session ?sid T'" by (simp add: T)
  have acct': "acct (release_session t (ls_heap st ?a)) (of_session ?sid T')"
    using acct_release [of _ "of_session ?sid T" t] d sz t own by (simp add: of_session_mem)
  have tot: "ss_total (release_session t (ls_heap st ?a)) \<le> 0 \<longleftrightarrow> of_session ?sid T' = {#}"
    using acct' by (simp add: acct_def)
  have caps: "within_caps l (of_session ?sid T')"
    using d within_caps_release [of l t "of_session ?sid T'"] by (simp add: T)
  have addr: "k_addr u = ?a" if "u \<in># of_session ?sid T'" for u
    using that lim_invD(1) [OF inv, of u] look by (auto simp: of_session_mem T)
  show ?thesis
  proof (rule lim_inv_update [OF inv, of ?sid _ _ ?a])
    show "fmlookup (ls_sessions (Release t st)) ?sid = None \<and> of_session ?sid (T - {#t#}) = {#} \<or>
      fmlookup (ls_sessions (Release t st)) ?sid = Some ?a \<and> ?a < ls_next (Release t st) \<and>
      of_session ?sid (T - {#t#}) \<noteq> {#} \<and>
      acct (ls_heap (Release t st) ?a) (of_session ?sid (T - {#t#})) \<and>
      within_caps l (of_session ?sid (T - {#t#})) \<and>
      (\<forall>u. u \<in># of_session ?sid (T - {#t#}) \<longrightarrow> k_addr u = ?a)"
      using look d acct' caps addr tot by (auto simp: Release_def drop_if_idle_def T)
  qed (use look lim_invD(4) [OF inv] in \<open>auto simp: Release_def drop_if_idle_def T\<close>)
qed

lemma reachable_inv:
  assumes "lim_reachable l net st T"
  shows "lim_inv l st T"
proof -
  have "lim_inv l (fst c') (snd c')" if "(lim_step l net)\<^sup>*\<^sup>* c c'" "lim_inv l (fst c) (snd c)" for c c'
    using that
  proof (induction rule: rtranclp_induct)
    case (step y z)
    from step(2) show ?case
      by cases (use step in \<open>auto intro: Acquire_inv Release_inv\<close>)
  qed simp
  then show ?thesis using assms lim_inv_init [of l] by (fastforce simp: lim_reachable_def)
qed

section \<open>The address window\<close>

definition track_all :: "NetLib \<Rightarrow> int \<Rightarrow> (string \<times> int) list \<Rightarrow> pathState \<Rightarrow> pathState" where
  "track_all net window evs p = foldl (\<lambda>p (ip, now). snd (trackIP net ip window now p)) p evs"

text \<open>The addresses of a path after a sequence of requests with growing times, up to time \<open>n\<close>.\<close>

definition tracked :: "NetLib \<Rightarrow> int \<Rightarrow> (string \<times> int) list \<Rightarrow> int \<Rightarrow> pathState \<Rightarrow> bool" where
  "tracked net window evs n p \<longleftrightarrow>
     (\<forall>k t. fmlookup (ps_ips p) k = Some t \<longrightarrow> (\<exists>ip. (ip, t) \<in> set evs \<and> subnetKey net ip = k)) \<and>
     (\<forall>ip t. (ip, t) \<in> set evs \<longrightarrow> n - window \<le> t \<longrightarrow>
        (\<exists>t'. t \<le> t' \<and> fmlookup (ps_ips p) (subnetKey net ip) = Some t'))"

lemma lookup_trackIP:
  "fmlookup (ps_ips (snd (trackIP net ip window now p))) k =
     (if k = subnetKey net ip then (if 0 \<le> window then Some now else None)
      else case fmlookup (ps_ips p) k of
             Some t \<Rightarrow> if now - window \<le> t then Some t else None
           | None \<Rightarrow> None)"
  by (auto simp: trackIP_def Let_def count_of_def split: option.split)

lemma tracked_step:
  assumes "tracked net window evs n p" "n \<le> now" "\<forall>ip t. (ip, t) \<in> set evs \<longrightarrow> t \<le> now" "0 \<le> window"
  shows "tracked net window (evs @ [(ip, now)]) now (snd (trackIP net ip window now p))"
  using assms unfolding tracked_def lookup_trackIP
  by (auto split: option.splits if_splits) fastforce+

lemma tracked_all:
  assumes "0 \<le> window" "sorted (map snd evs)" "\<forall>ip t. (ip, t) \<in> set evs \<longrightarrow> t \<le> n"
  shows "tracked net window evs n (track_all net window evs new_path)"
  using assms(2,3)
proof (induction evs arbitrary: n rule: rev_induct)
  case Nil
  then show ?case by (simp add: tracked_def track_all_def new_path_def)
next
  case (snoc e evs)
  obtain ip now where e: "e = (ip, now)" by (cases e)
  have le: "\<forall>ip t. (ip, t) \<in> set evs \<longrightarrow> t \<le> now" and srt: "sorted (map snd evs)"
    using snoc.prems(1) by (auto simp: e sorted_append)
  have "tracked net window (evs @ [e]) now (track_all net window (evs @ [e]) new_path)"
    using tracked_step [OF snoc.IH [OF srt le] _ le assms(1)] by (simp add: e track_all_def)
  moreover have "now \<le> n" using snoc.prems(2) by (auto simp: e)
  ultimately show ?case unfolding tracked_def by (meson diff_right_mono order_trans)
qed

text \<open>C31: The number \<open>trackIP\<close> returns is the number of distinct client subnets (/24 or /64) among
  the requests recorded on the path during the last \<open>window\<close>, the current one included:
  expired entries are pruned, and an address that comes back is counted once.\<close>

theorem trackIP_counts_window:
  assumes "0 \<le> window" "sorted (map snd (evs @ [(ip, now)]))"
  shows "fst (trackIP net ip window now (track_all net window evs new_path)) =
     card {subnetKey net i | i t. (i, t) \<in> set (evs @ [(ip, now)]) \<and> now - window \<le> t}"
proof -
  let ?p = "track_all net window evs new_path"
  let ?q = "snd (trackIP net ip window now ?p)"
  have le: "\<forall>ip t. (ip, t) \<in> set evs \<longrightarrow> t \<le> now" using assms(2) by (auto simp: sorted_append)
  have tr: "tracked net window (evs @ [(ip, now)]) now ?q"
    using tracked_all [OF assms(1)] tracked_step [OF _ order_refl le assms(1)] assms(2) le
    by (simp add: sorted_append)
  have "now - window \<le> t" if "fmlookup (ps_ips ?q) k = Some t" for k t
    using that assms(1) by (auto simp: lookup_trackIP split: if_splits option.splits)
  with tr have "fmdom' (ps_ips ?q) = {subnetKey net i | i t. (i, t) \<in> set (evs @ [(ip, now)]) \<and> now - window \<le> t}"
    unfolding tracked_def by (auto simp: fmlookup_dom'_iff simp del: set_append) (metis)+
  moreover have "fst (trackIP net ip window now ?p) = card (fmdom' (ps_ips ?q))"
    by (simp add: trackIP_def map_len_def Let_def del: fmdom'_filter fmdom'_fmupd)
  ultimately show ?thesis by simp
qed

theorem trackIP_counts_window_witness:
  "fst (trackIP sample_net ''abcx'' ipWindow (65 * 10 ^ 9)
      (track_all sample_net ipWindow [(''wxyz'', 0), (''abcd'', 10 ^ 10), (''wxyz'', 2 * 10 ^ 10)] new_path)) =
   card {subnetKey sample_net i | i t.
      (i, t) \<in> set ([(''wxyz'', 0), (''abcd'', 10 ^ 10), (''wxyz'', 2 * 10 ^ 10)] @ [(''abcx'', 65 * 10 ^ 9)]) \<and>
      65 * 10 ^ 9 - ipWindow \<le> t}"
  by (rule trackIP_counts_window) (simp_all add: ipWindow_def)

definition session_at :: "string \<Rightarrow> LState \<Rightarrow> sessionState" where
  "session_at sid st = (case getSession sid st of (a, st1) \<Rightarrow> ls_heap st1 a)"

text \<open>A run with one request in flight: small caps, one file.\<close>

definition demo_limits :: Limits where
  "demo_limits = \<lparr>l_maxPerPath = 1, l_maxBigFilesPerHash = 1, l_bigFileThreshold = 10,
     l_lightExts = parseLightExts ''srt, .VTT'', l_maxTotal = 2, l_maxIPsPerSession = 1,
     l_sizeLookup = None\<rparr>"

definition demo_ticket :: ticket where
  "demo_ticket = \<lparr>k_sid = ''s'', k_addr = 0, k_hash = ''h'', k_path = ''/a.mp4'', k_big = True\<rparr>"

definition demo_state :: LState where
  "demo_state = snd (Acquire (with_sizes demo_limits None) sample_net 0 ''s'' ''h'' ''/a.mp4'' ''abcd'' init_state)"

lemma demo_granted:
  "fst (Acquire (with_sizes demo_limits None) sample_net 0 ''s'' ''h'' ''/a.mp4'' ''abcd'' init_state) =
     Granted (Some demo_ticket)"
  by code_simp

lemma demo_reachable: "lim_reachable demo_limits sample_net demo_state {#demo_ticket#}"
proof -
  have "Acquire (with_sizes demo_limits None) sample_net 0 ''s'' ''h'' ''/a.mp4'' ''abcd'' init_state =
      (Granted (Some demo_ticket), demo_state)"
    using demo_granted unfolding demo_state_def by (metis prod.collapse)
  then have "lim_step demo_limits sample_net (init_state, {#}) (demo_state, add_mset demo_ticket {#})"
    by (intro lim_step.granted) simp_all
  then show ?thesis by (simp add: lim_reachable_def r_into_rtranclp)
qed

section \<open>What the limiter guarantees\<close>

lemma reachable_caps:
  assumes "lim_reachable l net st T"
  shows "within_caps l (of_session sid T)"
proof (cases "fmlookup (ls_sessions st) sid")
  case None
  then have "of_session sid T = {#}"
    using lim_invD(1) [OF reachable_inv [OF assms]] by (fastforce simp: of_session_empty)
  then show ?thesis by (simp add: within_caps_empty)
next
  case (Some a)
  then show ?thesis using lim_invD(2) [OF reachable_inv [OF assms]] by blast
qed

text \<open>C10: In every run of the limiter in which no two calls overlap in time, each being one step (while requests arrive and
  finish in any order, and the size table and the clock change in between), the requests a session has in flight stay within
  the configured caps: their total, their number on one (torrent, path), and the number of
  distinct big files open in one torrent. Calls that overlap can exceed the first two, see the theory \<open>Session_Races\<close>.\<close>

theorem limiter_caps:
  assumes "lim_reachable l net st T"
  shows "within_caps l (of_session sid T)"
  by (rule reachable_caps [OF assms])

theorem limiter_caps_witness: "within_caps demo_limits (of_session ''s'' {#demo_ticket#})"
  by (rule limiter_caps [OF demo_reachable])

lemma reachable_counters:
  assumes "lim_reachable l net st T"
  shows "fmdom' (ls_sessions st) = k_sid ` set_mset T \<and>
    (\<forall>sid a. fmlookup (ls_sessions st) sid = Some a \<longrightarrow>
       ss_total (ls_heap st a) = int (size (of_session sid T)) \<and>
       (\<forall>key. ps_conc (path_of (ls_heap st a) key) = int (count (conc_slots (of_session sid T)) key)) \<and>
       (\<forall>h p. count_of (hash_of (ls_heap st a) h) p = int (count (big_slots (of_session sid T)) (h, p))))"
proof (intro conjI)
  note d = lim_invD [OF reachable_inv [OF assms]]
  show "fmdom' (ls_sessions st) = k_sid ` set_mset T"
  proof (intro set_eqI iffI)
    fix sid
    assume "sid \<in> fmdom' (ls_sessions st)"
    then show "sid \<in> k_sid ` set_mset T"
      using d(2) [of sid] by (auto simp: fmlookup_dom'_iff of_session_empty)
  qed (auto simp: fmlookup_dom'_iff dest: d(1))
qed (auto dest!: lim_invD(2) [OF reachable_inv [OF assms]] simp: acct_def big_cnt_def fun_eq_iff)

lemma reachable_sessions:
  assumes "lim_reachable l net st T"
  shows "fmdom' (ls_sessions st) = k_sid ` set_mset T"
  using reachable_counters [OF assms] by blast

text \<open>C11: In every run in which no two calls of the limiter overlap in time, each being one step, it keeps state
  exactly for the sessions that have a request in flight: no
  session object stays in the map after the last release, and none is dropped while a request
  still counts on it. The counters of a kept session equal the number of its requests in
  flight, in total and per (torrent, path), and the big-file slots of a torrent are those its
  requests hold: a rejected request leaves nothing behind.\<close>

theorem limiter_no_leak:
  assumes "lim_reachable l net st T"
  shows "fmdom' (ls_sessions st) = k_sid ` set_mset T \<and>
    (\<forall>sid a. fmlookup (ls_sessions st) sid = Some a \<longrightarrow>
       ss_total (ls_heap st a) = int (size (of_session sid T)) \<and>
       (\<forall>key. ps_conc (path_of (ls_heap st a) key) = int (count (conc_slots (of_session sid T)) key)) \<and>
       (\<forall>h p. count_of (hash_of (ls_heap st a) h) p = int (count (big_slots (of_session sid T)) (h, p))))"
  by (rule reachable_counters [OF assms])

theorem limiter_no_leak_witness:
  "fmdom' (ls_sessions demo_state) = k_sid ` set_mset {#demo_ticket#}"
  using limiter_no_leak [OF demo_reachable] by blast

text \<open>C13: In every reachable state the decision of \<open>Acquire\<close> for a named session is the abstract
  one, a function of the requests the session has in flight: \<open>total\<close>, \<open>bigfiles\<close>, \<open>path\<close> and \<open>ips\<close>
  are tried in this order, each exactly when its cap is reached, and a granted request carries
  a big-file slot exactly when the file counts as big.\<close>

theorem Acquire_refines_decide:
  assumes "lim_reachable l net st T" "sid \<noteq> []"
  shows "fst (Acquire (with_sizes l f) net now sid h p ip st) =
    (case decide (with_sizes l f) (of_session sid T) h p
        (ips_ok l net now ip (path_of (session_at sid st) (path_key h p))) of
       Inl r \<Rightarrow> Rejected r
     | Inr big \<Rightarrow> Granted (Some \<lparr>k_sid = sid, k_addr = fst (getSession sid st), k_hash = h,
                                k_path = p, k_big = big\<rparr>))"
proof -
  obtain a st1 where g: "getSession sid st = (a, st1)" by fastforce
  have "ips_ok (with_sizes l f) net now ip ps = ips_ok l net now ip ps" for ps
    by (simp add: ips_ok_def with_sizes_def)
  moreover note acquire_session_decide [OF getSession_acct(1) [OF reachable_inv [OF assms(1)] g],
      of "with_sizes l f" net now h p ip, symmetric]
  ultimately show ?thesis using assms(2)
    by (simp add: Acquire_def g session_at_def case_prod_beta Let_def split: sum.split)
qed

theorem Acquire_refines_decide_witness:
  "fst (Acquire (with_sizes demo_limits None) sample_net 1 ''s'' ''h'' ''/b.mp4'' [] demo_state) =
     Rejected ''bigfiles''"
proof -
  have "isBigFile (with_sizes demo_limits None) ''h'' ''/b.mp4''" by code_simp
  moreover have "l_maxTotal (with_sizes demo_limits None) = 2"
      "l_maxBigFilesPerHash (with_sizes demo_limits None) = 1"
    by (simp_all add: with_sizes_def demo_limits_def)
  ultimately show ?thesis
    by (subst Acquire_refines_decide [OF demo_reachable])
      (simp_all add: decide_def over_def demo_ticket_def big_slots_def)
qed

text \<open>C30: No self-lockout: a request of a session that has nothing in flight is always granted,
  whatever the session did before, since nothing of a finished session is remembered. This
  includes the client addresses it was used from, so the window of \<open>ipWindow\<close> covers only
  addresses seen while the session is continuously busy.\<close>

theorem idle_session_is_granted:
  assumes "lim_reachable l net st T" "sid \<noteq> []" "of_session sid T = {#}"
  shows "\<exists>a st'. Acquire (with_sizes l f) net now sid h p ip st =
     (Granted (Some \<lparr>k_sid = sid, k_addr = a, k_hash = h, k_path = p,
                     k_big = isBigFile (with_sizes l f) h p\<rparr>), st')"
proof -
  obtain a st1 where g: "getSession sid st = (a, st1)" by fastforce
  have "ls_heap st1 a = new_session"
    by (rule getSession_acct(9) [OF reachable_inv [OF assms(1)] g assms(3)])
  then show ?thesis
    using idle_session_admitted [of "with_sizes l f" net now h p ip] g assms(2)
    by (auto simp: Acquire_def)
qed

theorem idle_session_is_granted_witness:
  "\<exists>a st'. Acquire (with_sizes demo_limits None) sample_net 1 ''other'' ''h'' ''/b.srt'' ''efgh'' demo_state =
     (Granted (Some \<lparr>k_sid = ''other'', k_addr = a, k_hash = ''h'', k_path = ''/b.srt'',
                     k_big = isBigFile (with_sizes demo_limits None) ''h'' ''/b.srt''\<rparr>), st')"
  by (rule idle_session_is_granted [OF demo_reachable]) (simp_all add: demo_ticket_def)

end
