(* ===== verification/HTTP_Proxy.thy ===== *)
theory HTTP_Proxy
  imports Retry_Transport Manifest_Rewriter Session_Limiter
begin

text \<open>
  The HTTP proxy (\<open>services/http_proxy.go\<close>): the reverse proxy of a location, cached by its address,
  and the hook on its responses, which removes the CORS headers, records the file size and applies
  the response rules. \<open>httputil.ReverseProxy\<close> is a library; of the value the code builds, the host,
  the transport and the change of the request headers are modelled.
\<close>

datatype transport = StubTransport | RedirectTransport | RetryTransport

record ReverseProxy =
  rp_Host :: string
  rp_Transport :: transport

definition location_host :: "'w SLib \<Rightarrow> Location \<Rightarrow> string" where
  "location_host e loc = ip_string e (lo_IP loc) @ '':'' @ show_int (lo_HTTP loc)"

definition proxy_get :: "'w SLib \<Rightarrow> int \<Rightarrow> Location \<Rightarrow> ReverseProxy outcome" where
  "proxy_get e maxRetries loc =
     Ret \<lparr>rp_Host = location_host e loc,
          rp_Transport =
            (if lo_Unavailable loc then StubTransport
             else if 0 < maxRetries then RetryTransport else RedirectTransport)\<rparr>"

definition director :: "Request \<Rightarrow> Request" where
  "director req =
     (if has_suffix (u_Path (rq_URL req)) ''.m3u8''
      then req\<lparr>rq_Header := header_del ''Accept-Encoding'' (rq_Header req)\<rparr> else req)"

definition HTTPProxy_Get ::
  "(ReverseProxy, 'w) lazymap \<Rightarrow> 'w SLib \<Rightarrow> int \<Rightarrow> ServicesConfig \<Rightarrow> Source \<Rightarrow> MapClaims \<Rightarrow> 'w \<Rightarrow>
   ReverseProxy outcome \<times> 'w" where
  "HTTPProxy_Get lazy e maxRetries cfgs src claims w =
     (case Resolve e cfgs src claims w of
        (Fail x, w1) \<Rightarrow> (Fail (ErrWrap ''failed to get location'' x), w1)
      | (Panic k, w1) \<Rightarrow> (Panic k, w1)
      | (Ret loc, w1) \<Rightarrow> lazy (location_host e loc) (\<lambda>w. (proxy_get e maxRetries loc, w)) w1)"

text \<open>The transport of a proxy at work.\<close>

definition proxy_RoundTrip ::
  "'w SLib \<Rightarrow> ('b, 'w) HLib \<Rightarrow> RetryContext option \<Rightarrow> transport \<Rightarrow> Request \<Rightarrow> 'w \<Rightarrow>
   ('b Response \<times> ('b RRC \<times> (int \<Rightarrow> string \<Rightarrow> 'w \<Rightarrow> 'b reconn outcome \<times> string \<times> 'w)) option) outcome \<times> 'w" where
  "proxy_RoundTrip e h rc tr req w =
     (case tr of
        StubTransport \<Rightarrow> (let (r, w') = stub_RoundTrip h req w in (and_then r (\<lambda>x. Ret (x, None)), w'))
      | RedirectTransport \<Rightarrow> (let (r, w') = redirect_RoundTrip h req w in (and_then r (\<lambda>x. Ret (x, None)), w'))
      | RetryTransport \<Rightarrow> retry_RoundTrip e h (redirect_RoundTrip h) rc req w)"

section \<open>The response hook\<close>

definition corsHeaders :: "string list" where
  "corsHeaders = [''Access-Control-Allow-Credentials'', ''Access-Control-Allow-Origin'']"

fun del_headers :: "string list \<Rightarrow> Header \<Rightarrow> Header" where
  "del_headers [] h = h"
| "del_headers (k # ks) h = del_headers ks (header_del k h)"

definition delCORSHeaders :: "Header \<Rightarrow> Header" where
  "delCORSHeaders h = del_headers corsHeaders h"

text \<open>The key of the file is the one the request carries; \<open>ks\<close> is the order of the eviction.\<close>

definition captureFileSize ::
  "string list \<Rightarrow> (string \<times> string) option \<Rightarrow> 'b Response \<Rightarrow> FileSizeCache option \<Rightarrow> FileSizeCache option" where
  "captureFileSize ks fk r cache =
     (case (cache, fk) of
        (Some c, Some (infoHash, path)) \<Rightarrow>
          if infoHash = [] \<or> path = [] then cache
          else let sz = SizeFromHeaders (rs_StatusCode r) (rs_ContentLength r)
                          (header_get (rs_Header r) ''Content-Range'')
               in if 0 < sz then Some (SetSize c ks infoHash path sz) else cache
      | _ \<Rightarrow> cache)"

definition modifyResponse ::
  "'f FloatLib \<Rightarrow> string list \<Rightarrow> string \<Rightarrow> (string \<times> string) option \<Rightarrow> RulesContext option \<Rightarrow>
   string outcome Response \<Rightarrow> FileSizeCache option \<Rightarrow> string outcome Response outcome \<times> FileSizeCache option" where
  "modifyResponse fl ks urlPath fk rc r cache =
     (let r1 = r\<lparr>rs_Header := delCORSHeaders (rs_Header r)\<rparr>;
          cache' = captureFileSize ks fk r1 cache
      in (applyResponseRules fl urlPath r1 rc, cache'))"

section \<open>Properties\<close>

lemma del_headers_get:
  "header_get (del_headers ks h) k =
     (if canonical_key k \<in> canonical_key ` set ks then [] else header_get h k)"
  by (induction ks arbitrary: h) auto

lemma rewriteManifestForGrace_header:
  assumes "rewriteManifestForGrace fl p r rc = Ret r'" "canonical_key k \<noteq> canonical_key ''Content-Length''"
  shows "header_get (rs_Header r') k = header_get (rs_Header r) k"
  using assms by (auto simp: rewriteManifestForGrace_def outcome_simps Let_def split: if_splits option.splits)

lemma applyResponseRules_header:
  assumes "applyResponseRules fl p r rc = Ret r'" "canonical_key k \<noteq> canonical_key ''Content-Length''"
  shows "header_get (rs_Header r') k = header_get (rs_Header r) k"
  using assms rewriteManifestForGrace_header [OF _ assms(2)]
  by (auto simp: applyResponseRules_def split: option.splits if_splits)

text \<open>The CORS headers of the upstream never reach the client, whatever spelling the upstream
  uses and whether or not the body is rewritten: the proxy sets its own.\<close>

theorem modifyResponse_drops_cors:
  assumes "fst (modifyResponse fl ks p fk rc r cache) = Ret r'"
  shows "header_get (rs_Header r') ''access-control-allow-origin'' = [] \<and>
    header_get (rs_Header r') ''Access-Control-Allow-Credentials'' = []"
proof -
  have keys: "canonical_key ''access-control-allow-origin'' = ''Access-Control-Allow-Origin''"
      "canonical_key ''Access-Control-Allow-Credentials'' = ''Access-Control-Allow-Credentials''"
      "canonical_key ''Content-Length'' = ''Content-Length''"
      "canonical_key ''Access-Control-Allow-Origin'' = ''Access-Control-Allow-Origin''"
    by code_simp+
  have "applyResponseRules fl p (r\<lparr>rs_Header := delCORSHeaders (rs_Header r)\<rparr>) rc = Ret r'"
    using assms by (simp add: modifyResponse_def Let_def)
  from applyResponseRules_header [OF this, of "''access-control-allow-origin''"]
    applyResponseRules_header [OF this, of "''Access-Control-Allow-Credentials''"]
  show ?thesis by (simp add: delCORSHeaders_def del_headers_get corsHeaders_def keys)
qed

theorem modifyResponse_drops_cors_witness:
  "header_get (fmdrop ''Access-Control-Allow-Origin'' (fmdrop ''Access-Control-Allow-Credentials''
      (header_set ''Access-Control-Allow-Origin'' ''*'' fmempty))) ''access-control-allow-origin'' = []"
proof -
  have keys: "canonical_key ''Access-Control-Allow-Credentials'' = ''Access-Control-Allow-Credentials''"
      "canonical_key ''Access-Control-Allow-Origin'' = ''Access-Control-Allow-Origin''"
    by code_simp+
  have "fst (modifyResponse int_floats [] ''/f.mp4'' None None
      \<lparr>rs_StatusCode = 200, rs_Header = header_set ''Access-Control-Allow-Origin'' ''*'' fmempty,
       rs_ContentLength = 0, rs_Body = None\<rparr> None) =
    Ret \<lparr>rs_StatusCode = 200, rs_Header = fmdrop ''Access-Control-Allow-Origin'' (fmdrop ''Access-Control-Allow-Credentials''
      (header_set ''Access-Control-Allow-Origin'' ''*'' fmempty)), rs_ContentLength = 0, rs_Body = None\<rparr>"
    unfolding modifyResponse_def applyResponseRules_def delCORSHeaders_def corsHeaders_def del_headers.simps header_del_def keys
    by (simp add: Let_def)
  from modifyResponse_drops_cors [OF this] show ?thesis by simp
qed

text \<open>The loop from responses back to the limiter: once a partial response has told the total
  size of a file, the file counts as big for the limiter exactly if that size reaches the
  threshold, unless its extension already makes it light.\<close>

theorem captured_size_decides:
  assumes "captureFileSize ks (Some (infoHash, path)) r (Some c) = Some c'"
    and "rs_StatusCode r = 206" "header_get (rs_Header r) ''Content-Range'' = pre @ ''/'' @ show_nat n"
    and "0 < n" "n < 2 ^ 63" "infoHash \<noteq> []" "path \<noteq> []" "0 < l_bigFileThreshold l"
  shows "isBigFile (SetSizeLookup l (GetSize c')) infoHash path \<longleftrightarrow>
    \<not> isLightExt l path \<and> l_bigFileThreshold l \<le> int n"
proof -
  have "SizeFromHeaders 206 (rs_ContentLength r) (pre @ ''/'' @ show_nat n) = int n"
    by (rule SizeFromHeaders_range [OF assms(4,5)])
  then have "c' = SetSize c ks infoHash path (int n)"
    using assms(1-4,6,7) by (simp add: captureFileSize_def Let_def)
  then have "GetSize c' infoHash path = Some (int n)" using fsc.look_put_same [of "int n" c ks infoHash path] assms(4) by simp
  moreover have "isLightExt (SetSizeLookup l (GetSize c')) path = isLightExt l path"
    by (simp add: isLightExt_def SetSizeLookup_def split: option.split)
  ultimately show ?thesis using assms(8) by (simp add: isBigFile_def SetSizeLookup_def)
qed

theorem captured_size_decides_witness:
  "isBigFile (SetSizeLookup demo_limits (GetSize (SetSize (NewFileSizeCache 10) [] ''h'' ''/a.mp4'' 5))) ''h'' ''/a.mp4'' \<longleftrightarrow>
    \<not> isLightExt demo_limits ''/a.mp4'' \<and> l_bigFileThreshold demo_limits \<le> int 5"
proof -
  have five: "show_nat 5 = ''5''" by code_simp
  have size: "SizeFromHeaders 206 3 ''bytes 0-2/5'' = 5" by code_simp
  show ?thesis
    by (rule captured_size_decides [where ks = "[]" and c = "NewFileSizeCache 10" and pre = "''bytes 0-2''"
          and r = "\<lparr>rs_StatusCode = 206, rs_Header = header_set ''Content-Range'' ''bytes 0-2/5'' fmempty,
                    rs_ContentLength = 3, rs_Body = None\<rparr>"])
      (simp_all add: captureFileSize_def five size demo_limits_def)
qed

text \<open>A location without a pod is answered by the proxy itself with status 503 and an empty
  body: no request leaves it.\<close>

theorem unavailable_is_answered_locally:
  assumes "lo_Unavailable loc"
  shows "\<exists>rp. proxy_get e maxRetries loc = Ret rp \<and>
    proxy_RoundTrip e h rc (rp_Transport rp) req w =
      (Ret (\<lparr>rs_StatusCode = 503, rs_Header = fmempty, rs_ContentLength = 0, rs_Body = Some (h_empty_body h)\<rparr>, None), w)"
  using assms by (simp add: proxy_get_def proxy_RoundTrip_def stub_RoundTrip_def)

theorem unavailable_is_answered_locally_witness:
  "\<exists>rp. proxy_get demo_lib 3 unavailable = Ret rp \<and>
    proxy_RoundTrip demo_lib demo_hlib None (rp_Transport rp) sample_request [] =
      (Ret (\<lparr>rs_StatusCode = 503, rs_Header = fmempty, rs_ContentLength = 0, rs_Body = Some (h_empty_body demo_hlib)\<rparr>, None), [])"
  by (rule unavailable_is_answered_locally) (simp add: unavailable_def)

end
