(* ===== verification/Response_Writer.thy ===== *)
theory Response_Writer
  imports Prelude
begin

text \<open>
  The response writers: the interceptor that records status and bytes
  (\<open>services/response_writer_interceptor.go\<close>) and the throttled writer
  (\<open>services/throttled_request_writer.go\<close>). The writer below is the list of the calls it received;
  whether it can be flushed and what hijacking it yields are arguments.
\<close>

datatype call = CWriteHeader int | CWrite string | CFlush | CWait int

type_synonym writer = "call list"

record RWI =
  wi_out :: writer
  wi_statusCode :: int
  wi_bytesWritten :: int
  wi_start :: int
  wi_ttfb :: int
  wi_resolve :: bool
  wi_label :: "int option"
  wi_counter :: int

text \<open>\<open>wi_resolve\<close> says whether \<open>resolveSize\<close> is set; \<open>wi_label\<close> is the status the counter was bound
  to and \<open>wi_counter\<close> what was added to it.\<close>

definition NewResponseWriterInterceptor :: "writer \<Rightarrow> int \<Rightarrow> RWI" where
  "NewResponseWriterInterceptor w now =
     \<lparr>wi_out = w, wi_statusCode = 200, wi_bytesWritten = 0, wi_start = now, wi_ttfb = 0,
      wi_resolve = False, wi_label = None, wi_counter = 0\<rparr>"

definition RWI_WriteHeader :: "int \<Rightarrow> RWI \<Rightarrow> RWI" where
  "RWI_WriteHeader statusCode w =
     w\<lparr>wi_statusCode := statusCode, wi_out := wi_out w @ [CWriteHeader statusCode]\<rparr>"

definition GroupedStatusCode :: "RWI \<Rightarrow> int" where
  "GroupedStatusCode w = quot (wi_statusCode w) 100 * 100"

text \<open>The bookkeeping of \<open>Write\<close> for a write that is taken whole. What the writer below returns, a short count or an error included,
  is passed on by \<open>RWI_write_to\<close> in the theory on streaming, which does this bookkeeping whatever the result is, as the code does.\<close>

definition RWI_Write :: "int \<Rightarrow> string \<Rightarrow> RWI \<Rightarrow> RWI" where
  "RWI_Write now p w =
     (let w1 = (if wi_bytesWritten w = 0 then
                  (let w0 = w\<lparr>wi_ttfb := now - wi_start w\<rparr> in
                   if wi_resolve w0 then w0\<lparr>wi_label := Some (wi_statusCode w0)\<rparr> else w0)
                else w);
          n = int (length p);
          w2 = w1\<lparr>wi_bytesWritten := wi_bytesWritten w1 + n\<rparr>;
          w3 = (if wi_label w2 \<noteq> None then w2\<lparr>wi_counter := wi_counter w2 + n\<rparr> else w2)
      in w3\<lparr>wi_out := wi_out w3 @ [CWrite p]\<rparr>)"

text \<open>\<open>flusher\<close> says whether the writer below is an \<open>http.Flusher\<close>, \<open>hijacker\<close> is its \<open>Hijack\<close> if it has one.\<close>

definition RWI_Flush :: "bool \<Rightarrow> RWI \<Rightarrow> RWI" where
  "RWI_Flush flusher w = (if flusher then w\<lparr>wi_out := wi_out w @ [CFlush]\<rparr> else w)"

definition Hijack :: "('w \<Rightarrow> 'conn outcome \<times> 'w) option \<Rightarrow> 'w \<Rightarrow> 'conn outcome \<times> 'w" where
  "Hijack hijacker w =
     (case hijacker of
        None \<Rightarrow> (Fail (ErrMsg ''type assertion failed http.ResponseWriter not a http.Hijacker''), w)
      | Some h \<Rightarrow> h w)"

text \<open>The throttled writer waits for as many tokens as it has bytes, then writes.\<close>

definition Throttled_Write :: "string \<Rightarrow> writer \<Rightarrow> writer" where
  "Throttled_Write p w = w @ [CWait (int (length p)), CWrite p]"

definition Throttled_WriteHeader :: "int \<Rightarrow> writer \<Rightarrow> writer" where
  "Throttled_WriteHeader statusCode w = w @ [CWriteHeader statusCode]"

definition Throttled_Flush :: "bool \<Rightarrow> writer \<Rightarrow> writer" where
  "Throttled_Flush flusher w = (if flusher then w @ [CFlush] else w)"

section \<open>Properties\<close>

fun written :: "writer \<Rightarrow> string" where
  "written [] = []"
| "written (CWrite p # cs) = p @ written cs"
| "written (_ # cs) = written cs"

lemma written_append [simp]: "written (a @ b) = written a @ written b"
  by (induction a rule: written.induct) auto

lemma written_one [simp]:
  "written [CWrite p] = p" "written [CWriteHeader s] = []" "written [CFlush] = []"
  by simp_all

text \<open>The operations of the interceptor after the size counter was set up.\<close>

datatype op = OpHeader int | OpWrite int string | OpFlush bool

fun run_op :: "op \<Rightarrow> RWI \<Rightarrow> RWI" where
  "run_op (OpHeader s) w = RWI_WriteHeader s w"
| "run_op (OpWrite now p) w = RWI_Write now p w"
| "run_op (OpFlush f) w = RWI_Flush f w"

definition counted :: "RWI \<Rightarrow> bool" where
  "counted w \<longleftrightarrow> wi_resolve w \<and> wi_bytesWritten w = int (length (written (wi_out w))) \<and>
     wi_counter w = wi_bytesWritten w \<and> (wi_bytesWritten w \<noteq> 0 \<longrightarrow> wi_label w \<noteq> None)"

lemma run_op_counted: "counted w \<Longrightarrow> counted (run_op x w)"
  by (cases x) (auto simp: counted_def RWI_WriteHeader_def RWI_Write_def RWI_Flush_def Let_def)

text \<open>The size counter of a request counts what was written: after any sequence of writes,
  headers and flushes the recorded number of bytes is the length of what was handed to the
  client's writer, and the counter bound to the first write has received exactly that.\<close>

theorem interceptor_counts_bytes:
  assumes "written w = []"
  shows "counted (fold run_op ops ((NewResponseWriterInterceptor w now)\<lparr>wi_resolve := True\<rparr>))"
proof -
  have start: "counted ((NewResponseWriterInterceptor w now)\<lparr>wi_resolve := True\<rparr>)"
    using assms by (simp add: counted_def NewResponseWriterInterceptor_def)
  show ?thesis
    by (rule fold_invariant [where P = counted and Q = "\<lambda>_. True"]) (simp_all add: start run_op_counted)
qed

theorem interceptor_counts_bytes_witness:
  "counted (fold run_op [OpHeader 206, OpWrite 5 ''ab'', OpFlush True, OpWrite 6 ''c'']
     ((NewResponseWriterInterceptor [] 0)\<lparr>wi_resolve := True\<rparr>))"
  by (rule interceptor_counts_bytes) simp

end
