(* ===== verification/Hybrid_Bucket.thy ===== *)
theory Hybrid_Bucket
  imports Claims K8s Complex_Main "HOL-Library.Multiset"
begin

text \<open>
  The bandwidth limiter (\<open>services/hybrid_bucket.go\<close>): the token-bucket script that runs in Redis,
  the bucket of a proxy with its local balance, \<open>Wait\<close> with its polling loop, the probe that brings
  Redis back, and the pool of buckets.

  A \<open>float64\<close> is the rational number it stands for, and every operation rounds: \<open>n_rnd\<close> is IEEE
  rounding, \<open>n_txt\<close> what is read back from the decimal text Lua prints for a number (14 significant
  digits). Both are arguments of the definitions; \<open>accurate\<close> states how far they may be off and
  \<open>exact\<close> leaves rounding aside. Times are nanoseconds, as in \<open>time.Duration\<close>; Redis is given
  milliseconds.
\<close>

record Num =
  n_rnd :: "rat \<Rightarrow> rat"
  n_txt :: "rat \<Rightarrow> rat"

definition fadd :: "Num \<Rightarrow> rat \<Rightarrow> rat \<Rightarrow> rat" where "fadd N x y = n_rnd N (x + y)"

definition fsub :: "Num \<Rightarrow> rat \<Rightarrow> rat \<Rightarrow> rat" where "fsub N x y = n_rnd N (x - y)"

definition fmul :: "Num \<Rightarrow> rat \<Rightarrow> rat \<Rightarrow> rat" where "fmul N x y = n_rnd N (x * y)"

definition fdiv :: "Num \<Rightarrow> rat \<Rightarrow> rat \<Rightarrow> rat" where "fdiv N x y = n_rnd N (x / y)"

definition fnum :: "Num \<Rightarrow> int \<Rightarrow> rat" where "fnum N i = n_rnd N (of_int i)"

text \<open>\<open>int64(x)\<close> truncates towards zero.\<close>

definition trunc64 :: "rat \<Rightarrow> int" where
  "trunc64 x = (if 0 \<le> x then floor x else ceiling x)"

section \<open>The script\<close>

text \<open>The hash of a key in Redis; \<open>None\<close> stands for a missing key, whose fields read as nil.\<close>

record RHash =
  h_tokens :: rat
  h_last_tick :: rat
  h_ttl :: int

definition accrued :: "Num \<Rightarrow> rat \<Rightarrow> rat \<Rightarrow> rat \<Rightarrow> rat \<Rightarrow> rat" where
  "accrued N cap rate elapsed tokens =
     (if 0 < elapsed then (let t = fadd N tokens (fmul N elapsed rate) in if cap < t then cap else t)
      else tokens)"

definition grant :: "Num \<Rightarrow> rat \<Rightarrow> rat \<Rightarrow> rat \<times> rat" where
  "grant N req tokens =
     (if req \<le> tokens then (req, fsub N tokens req)
      else if 0 < tokens then (tokens, 0)
      else (0, tokens))"

definition luaTokenBucket ::
  "Num \<Rightarrow> int \<Rightarrow> int \<Rightarrow> int \<Rightarrow> int \<Rightarrow> int \<Rightarrow> RHash option \<Rightarrow> rat \<times> RHash" where
  "luaTokenBucket N cap rate req now ttl vals =
     (let tokens = (case vals of Some h \<Rightarrow> h_tokens h | None \<Rightarrow> fnum N cap);
          lastTick = (case vals of Some h \<Rightarrow> h_last_tick h | None \<Rightarrow> fnum N now);
          elapsed = fdiv N (fsub N (fnum N now) lastTick) 1000;
          (granted, tokens') = grant N (fnum N req) (accrued N (fnum N cap) (fnum N rate) elapsed tokens)
      in (n_txt N granted,
          \<lparr>h_tokens = n_txt N tokens', h_last_tick = n_txt N (fnum N now), h_ttl = ttl\<rparr>))"

section \<open>The bucket of a proxy\<close>

text \<open>\<open>hb_rc\<close> says whether there is a Redis client.\<close>

record HybridBucket =
  hb_local :: rat
  hb_rate :: rat
  hb_capacity :: rat
  hb_lastRefill :: int
  hb_rc :: bool
  hb_redisKey :: string
  hb_redisOK :: bool
  hb_probing :: bool

definition NewHybridBucket :: "rat \<Rightarrow> rat \<Rightarrow> bool \<Rightarrow> string \<Rightarrow> int \<Rightarrow> HybridBucket" where
  "NewHybridBucket rate capacity rc sessionID now =
     \<lparr>hb_local = 0, hb_rate = rate, hb_capacity = capacity, hb_lastRefill = now, hb_rc = rc,
      hb_redisKey = ''bw:limit:'' @ sessionID, hb_redisOK = rc, hb_probing = False\<rparr>"

text \<open>\<open>Duration.Seconds\<close>\<close>

definition seconds :: "Num \<Rightarrow> int \<Rightarrow> rat" where
  "seconds N d =
     (let sec = quot d (10 ^ 9); nsec = d - sec * 10 ^ 9
      in fadd N (fnum N sec) (fdiv N (fnum N nsec) (10 ^ 9)))"

definition accrue_local :: "Num \<Rightarrow> int \<Rightarrow> HybridBucket \<Rightarrow> HybridBucket" where
  "accrue_local N now hb =
     (let elapsed = seconds N (now - hb_lastRefill hb) in
      if 0 < elapsed then
        (let l = fadd N (hb_local hb) (fmul N elapsed (hb_rate hb))
         in hb\<lparr>hb_local := (if hb_capacity hb < l then hb_capacity hb else l), hb_lastRefill := now\<rparr>)
      else hb)"

text \<open>The first critical section of \<open>Wait\<close>: served from the local balance, or what is still needed
  and whether Redis is to be asked for it.\<close>

datatype entered = Served | Missing bool rat

definition wait_enter :: "Num \<Rightarrow> int \<Rightarrow> int \<Rightarrow> HybridBucket \<Rightarrow> entered \<times> HybridBucket" where
  "wait_enter N now cnt hb =
     (let need = fnum N cnt;
          canRedis = (hb_redisOK hb \<and> hb_rc hb);
          hb1 = (if canRedis then hb else accrue_local N now hb)
      in if need \<le> hb_local hb1 then (Served, hb1\<lparr>hb_local := fsub N (hb_local hb1) need\<rparr>)
         else (Missing canRedis (fsub N need (hb_local hb1)), hb1\<lparr>hb_local := 0\<rparr>))"

text \<open>\<open>time.Duration(need / hb.rate * float64(time.Second))\<close>\<close>

definition sleep_dur :: "Num \<Rightarrow> HybridBucket \<Rightarrow> rat \<Rightarrow> int" where
  "sleep_dur N hb need = trunc64 (fmul N (fdiv N need (hb_rate hb)) (10 ^ 9))"

definition batch_of :: "HybridBucket \<Rightarrow> rat \<Rightarrow> rat" where
  "batch_of hb need = (if need < hb_rate hb then hb_rate hb else need)"

text \<open>The critical section that follows a failed call: Redis is marked as unavailable and a probe is
  started unless one is running.\<close>

definition mark_down :: "HybridBucket \<Rightarrow> bool \<times> HybridBucket" where
  "mark_down hb = (\<not> hb_probing hb, hb\<lparr>hb_redisOK := False, hb_probing := True\<rparr>)"

text \<open>The critical section of the probe after an answered ping.\<close>

definition mark_up :: "HybridBucket \<Rightarrow> HybridBucket" where
  "mark_up hb = hb\<lparr>hb_redisOK := True, hb_probing := False\<rparr>"

text \<open>The probe up to now: \<open>pings\<close> says which of the pings it has sent, one every five seconds, were answered.\<close>

fun probeRedis :: "bool list \<Rightarrow> HybridBucket \<Rightarrow> HybridBucket" where
  "probeRedis [] hb = hb"
| "probeRedis (ok # pings) hb = (if ok then mark_up hb else probeRedis pings hb)"

lemma probeRedis_restores:
  "probeRedis pings hb = (if True \<in> set pings then mark_up hb else hb)"
  by (induction pings) auto

definition deposit :: "Num \<Rightarrow> rat \<Rightarrow> HybridBucket \<Rightarrow> HybridBucket" where
  "deposit N surplus hb = hb\<lparr>hb_local := fadd N (hb_local hb) surplus\<rparr>"

section \<open>Waiting\<close>

text \<open>
  The world of a waiter: the clock, sleeping, and a script run on the hash of a key, which is
  atomic in Redis; its result is \<open>None\<close> if the call fails.
\<close>

record 'w BwLib =
  bw_now :: "'w \<Rightarrow> int \<times> 'w"
  bw_sleep :: "int \<Rightarrow> 'w \<Rightarrow> 'w"
  bw_run :: "string \<Rightarrow> (RHash option \<Rightarrow> rat \<times> RHash) \<Rightarrow> 'w \<Rightarrow> rat option \<times> 'w"
  bw_probe :: "'w \<Rightarrow> 'w"

definition script_of :: "Num \<Rightarrow> HybridBucket \<Rightarrow> rat \<Rightarrow> int \<Rightarrow> RHash option \<Rightarrow> rat \<times> RHash" where
  "script_of N hb requested now =
     luaTokenBucket N (trunc64 (hb_capacity hb)) (trunc64 (hb_rate hb)) (trunc64 requested) (quot now (10 ^ 6)) 300"

definition refillFromRedis ::
  "'w BwLib \<Rightarrow> Num \<Rightarrow> rat \<Rightarrow> HybridBucket \<times> 'w \<Rightarrow> rat \<times> HybridBucket \<times> 'w" where
  "refillFromRedis lib N requested s =
     (let (hb, w) = s; (now, w1) = bw_now lib w in
      case bw_run lib (hb_redisKey hb) (script_of N hb requested now) w1 of
        (Some granted, w2) \<Rightarrow> (granted, hb, w2)
      | (None, w2) \<Rightarrow>
          (case mark_down hb of (shouldProbe, hb') \<Rightarrow>
             (0, hb', if shouldProbe then bw_probe lib w2 else w2)))"

definition degraded_sleep :: "'w BwLib \<Rightarrow> Num \<Rightarrow> HybridBucket \<Rightarrow> rat \<Rightarrow> 'w \<Rightarrow> 'w" where
  "degraded_sleep lib N hb need w =
     (if 0 < hb_rate hb \<and> 0 < sleep_dur N hb need then bw_sleep lib (sleep_dur N hb need) w else w)"

definition poll_dur :: "Num \<Rightarrow> HybridBucket \<Rightarrow> rat \<Rightarrow> int" where
  "poll_dur N hb need =
     (let d = sleep_dur N hb need;
          d1 = (if 100 * 10 ^ 6 < d then 100 * 10 ^ 6 else d)
      in if d1 < 10 ^ 6 then 10 ^ 6 else d1)"

text \<open>The loop may never end: not returning is \<open>None\<close>.\<close>

partial_function (option) wait_loop ::
  "'w BwLib \<Rightarrow> Num \<Rightarrow> rat \<Rightarrow> HybridBucket \<times> 'w \<Rightarrow> (HybridBucket \<times> 'w) option" where
  "wait_loop lib N need s =
     (if \<not> 0 < need then Some s
      else case refillFromRedis lib N (batch_of (fst s) need) s of
        (granted, hb, w) \<Rightarrow>
          if need \<le> granted then Some (deposit N (fsub N granted need) hb, w)
          else let need' = (if 0 < granted then fsub N need granted else need) in
            if \<not> hb_redisOK hb then Some (hb, degraded_sleep lib N hb need' w)
            else wait_loop lib N need' (hb, bw_sleep lib (poll_dur N hb need') w))"

definition Wait ::
  "'w BwLib \<Rightarrow> Num \<Rightarrow> int \<Rightarrow> HybridBucket \<times> 'w \<Rightarrow> (HybridBucket \<times> 'w) option" where
  "Wait lib N cnt s =
     (if cnt \<le> 0 then Some s
      else let (hb, w) = s;
               (now, w1) = (if hb_redisOK hb \<and> hb_rc hb then (0, w) else bw_now lib w)
           in case wait_enter N now cnt hb of
                (Served, hb1) \<Rightarrow> Some (hb1, w1)
              | (Missing canRedis need, hb1) \<Rightarrow>
                  if \<not> canRedis then Some (hb1, degraded_sleep lib N hb1 need w1)
                  else wait_loop lib N need (hb1, w1))"

section \<open>The pool\<close>

text \<open>The pool returns no throttler for claims without a session or a rate. \<open>bytefmt.ToBytes\<close>, the
  lazy map and the clock are arguments.\<close>

definition Pool_Get ::
  "(HybridBucket, 'w) lazymap \<Rightarrow> ('w \<Rightarrow> int \<times> 'w) \<Rightarrow> Num \<Rightarrow> (string \<Rightarrow> nat outcome) \<Rightarrow> bool \<Rightarrow> MapClaims \<Rightarrow> 'w \<Rightarrow>
   HybridBucket option outcome \<times> 'w" where
  "Pool_Get lazy clock N toBytes rc mc w =
     (case (claim_str mc ''sessionID'', claim_str mc ''rate'') of
        (Some sessionID, Some rate) \<Rightarrow>
          (case toBytes rate of
             Ret r \<Rightarrow>
               (let bytesPerSec = fdiv N (fnum N (int r)) 8;
                    load = (\<lambda>w. let (now, w') = clock w
                                in (Ret (NewHybridBucket bytesPerSec bytesPerSec rc sessionID now), w'))
                in case lazy (sessionID @ rate) load w of
                     (Ret hb, w') \<Rightarrow> (Ret (Some hb), w')
                   | (Fail e, w') \<Rightarrow> (Fail e, w')
                   | (Panic k, w') \<Rightarrow> (Panic k, w'))
           | Fail e \<Rightarrow> (Fail (ErrMsg (''failed to parse rate '' @ rate)), w)
           | Panic k \<Rightarrow> (Panic k, w))
      | _ \<Rightarrow> (Ret None, w))"

section \<open>What the script grants\<close>

text \<open>
  The documented accuracy of the arithmetic: rounding is monotone, keeps the integers of up to 14
  digits, and takes a non-negative number to at most \<open>1 + u\<close> times its value.
\<close>

definition rounding :: "(rat \<Rightarrow> rat) \<Rightarrow> rat \<Rightarrow> bool" where
  "rounding f u \<longleftrightarrow> mono f \<and> (\<forall>x. 0 \<le> x \<longrightarrow> f x \<le> x * (1 + u)) \<and>
     (\<forall>i. \<bar>i\<bar> < 10 ^ 14 \<longrightarrow> f (of_int i) = of_int i)"

definition accurate :: "Num \<Rightarrow> rat \<Rightarrow> bool" where
  "accurate N u \<longleftrightarrow> 0 \<le> u \<and> rounding (n_rnd N) u \<and> rounding (n_txt N) u"

definition exact :: "Num \<Rightarrow> bool" where
  "exact N \<longleftrightarrow> n_rnd N = (\<lambda>x. x) \<and> n_txt N = (\<lambda>x. x)"

lemma exact_accurate: "exact N \<Longrightarrow> accurate N 0"
  by (simp add: exact_def accurate_def rounding_def mono_def)

lemma exact_ops:
  assumes "exact N"
  shows "fadd N x y = x + y" "fsub N x y = x - y" "fmul N x y = x * y" "fdiv N x y = x / y"
    "fnum N i = of_int i" "n_txt N x = x"
  using assms by (simp_all add: exact_def fadd_def fsub_def fmul_def fdiv_def fnum_def)

lemma roundingD:
  assumes "rounding f u"
  shows "0 \<le> x \<Longrightarrow> 0 \<le> f x" "0 \<le> x \<Longrightarrow> f x \<le> x * (1 + u)"
    "\<bar>i\<bar> < 10 ^ 14 \<Longrightarrow> f (of_int i) = of_int i" "\<bar>i\<bar> < 10 ^ 14 \<Longrightarrow> x \<le> of_int i \<Longrightarrow> f x \<le> of_int i"
proof -
  have m: "mono f" and i: "\<And>i. \<bar>i\<bar> < 10 ^ 14 \<Longrightarrow> f (of_int i) = of_int i"
    using assms by (auto simp: rounding_def)
  show "0 \<le> x \<Longrightarrow> 0 \<le> f x" using monoD [OF m, of 0 x] i [of 0] by simp
  show "\<bar>i\<bar> < 10 ^ 14 \<Longrightarrow> x \<le> of_int i \<Longrightarrow> f x \<le> of_int i" using monoD [OF m, of x "of_int i"] i [of i] by simp
qed (use assms in \<open>auto simp: rounding_def\<close>)

lemma accurateD:
  assumes "accurate N u"
  shows "0 \<le> u" "rounding (n_rnd N) u" "rounding (n_txt N) u"
  using assms by (auto simp: accurate_def)

text \<open>The error of one call of the script.\<close>

definition call_error :: "rat \<Rightarrow> int \<Rightarrow> rat" where
  "call_error u cap = ((1 + u) ^ 3 + (1 + u) ^ 2 - 2) * of_int cap"

lemma call_error_nonneg: "0 \<le> u \<Longrightarrow> 0 \<le> cap \<Longrightarrow> 0 \<le> call_error u cap"
  unfolding call_error_def
  by (intro mult_nonneg_nonneg, use one_le_power [of "1 + u" 3] one_le_power [of "1 + u" 2] in linarith) simp

lemma scale_up: "0 \<le> (u :: rat) \<Longrightarrow> 0 \<le> x \<Longrightarrow> x * (1 + u) ^ m \<le> x * (1 + u) ^ (m + k)"
  by (intro mult_left_mono power_increasing) auto

lemma scale_up0: "0 \<le> (u :: rat) \<Longrightarrow> 0 \<le> x \<Longrightarrow> x \<le> x * (1 + u) ^ k"
  using scale_up [of u x 0 k] by (simp only: power_0 mult_1_right add_0)

lemma scale_mono: "0 \<le> (u :: rat) \<Longrightarrow> x \<le> y \<Longrightarrow> x * (1 + u) \<le> y * (1 + u)"
  by (simp add: mult_right_mono)

text \<open>A value that is at most a bound and at most a scaled one exceeds it by a part of the bound.\<close>

lemma clip_error:
  assumes "(t :: rat) \<le> C" "t \<le> v * k" "1 \<le> k" "0 \<le> C"
  shows "t \<le> v + (k - 1) * C"
proof (cases "C \<le> v")
  case True
  moreover have "0 \<le> (k - 1) * C" using assms by simp
  ultimately show ?thesis using assms(1) by linarith
next
  case False
  have "v * k = v + (k - 1) * v" by (simp add: algebra_simps)
  also have "\<dots> \<le> v + (k - 1) * C" using False assms(3) by (intro add_left_mono mult_left_mono) auto
  finally show ?thesis using assms(2) by simp
qed

lemma accrued_bounds:
  assumes acc: "accurate N u" and cap: "0 \<le> cap" "cap < 10 ^ 14" and "0 \<le> rate" "0 \<le> d"
    and tok: "0 \<le> tokens" "tokens \<le> of_int cap"
  defines "t \<equiv> accrued N (of_int cap) rate (n_rnd N (d / 1000)) tokens"
  shows "0 \<le> t" "t \<le> of_int cap" "t \<le> tokens + d / 1000 * rate + ((1 + u) ^ 3 - 1) * of_int cap"
proof -
  note u = accurateD(1) [OF acc] and r = roundingD [OF accurateD(2) [OF acc]]
  let ?e = "n_rnd N (d / 1000)" and ?v = "tokens + d / 1000 * rate"
  let ?s = "fadd N tokens (fmul N ?e rate)"
  have e: "0 \<le> ?e" "?e \<le> d / 1000 * (1 + u)" using r(1,2) [of "d / 1000"] \<open>0 \<le> d\<close> by auto
  have f: "0 \<le> fmul N ?e rate" using r(1) e(1) \<open>0 \<le> rate\<close> by (simp add: fmul_def)
  have "fmul N ?e rate \<le> ?e * rate * (1 + u)" using r(2) e(1) \<open>0 \<le> rate\<close> by (simp add: fmul_def)
  also have "\<dots> \<le> d / 1000 * (1 + u) * rate * (1 + u)"
    using e u \<open>0 \<le> rate\<close> by (intro mult_right_mono) auto
  also have "\<dots> = d / 1000 * rate * (1 + u) ^ 2" by (simp add: power2_eq_square)
  finally have f2: "tokens + fmul N ?e rate \<le> ?v * (1 + u) ^ 2"
    unfolding distrib_right by (rule add_mono [OF scale_up0 [OF u tok(1)]])
  have s: "0 \<le> ?s" using r(1) f tok by (simp add: fadd_def)
  have "?s \<le> (tokens + fmul N ?e rate) * (1 + u)" using r(2) f tok by (simp add: fadd_def)
  also have "\<dots> \<le> ?v * (1 + u) ^ 2 * (1 + u)" by (rule scale_mono [OF u f2])
  finally have s2: "?s \<le> ?v * (1 + u) ^ 3" by (simp add: power3_eq_cube power2_eq_square mult.assoc)
  have "0 \<le> d / 1000 * rate" using \<open>0 \<le> d\<close> \<open>0 \<le> rate\<close> by simp
  then have "tokens \<le> ?v * (1 + u) ^ 3"
    using scale_up0 [OF u, of ?v 3] tok(1) by simp
  then have "t \<le> ?v * (1 + u) ^ 3" using s2 by (auto simp: t_def accrued_def Let_def)
  moreover show "t \<le> of_int cap" using tok by (auto simp: t_def accrued_def Let_def)
  ultimately show "t \<le> ?v + ((1 + u) ^ 3 - 1) * of_int cap"
    using u cap(1) by (intro clip_error) (auto simp: one_le_power)
  show "0 \<le> t" using s tok cap(1) by (auto simp: t_def accrued_def Let_def)
qed

lemma grant_bounds:
  assumes acc: "accurate N u" and req: "0 \<le> req" "req < 10 ^ 14" and cap: "0 \<le> cap" "cap < 10 ^ 14"
    and t: "0 \<le> t" "t \<le> of_int cap" and g: "grant N (of_int req) t = (g, t')"
  shows "0 \<le> n_txt N g" "n_txt N g \<le> of_int req" "0 \<le> n_txt N t'" "n_txt N t' \<le> of_int cap"
    "n_txt N g + n_txt N t' \<le> t * (1 + u) ^ 2"
proof -
  note u = accurateD(1) [OF acc] and r = roundingD [OF accurateD(2) [OF acc]]
    and x = roundingD [OF accurateD(3) [OF acc]]
  have le: "0 \<le> g" "g \<le> of_int req" "0 \<le> t'" "t' \<le> of_int cap"
    using g t req cap r(1) [of "t - of_int req"] r(4) [of cap "t - of_int req"]
    by (auto simp: grant_def fsub_def split: if_splits)
  show "0 \<le> n_txt N g" "n_txt N g \<le> of_int req" "0 \<le> n_txt N t'" "n_txt N t' \<le> of_int cap"
    using x(1) x(4) [of req g] x(4) [of cap t'] req cap le by auto
  have "g \<le> g * (1 + u)" using scale_up0 [OF u le(1), of 1] by simp
  moreover have "t' \<le> (t - g) * (1 + u)"
    using g r(2) [of "t - of_int req"] u t by (auto simp: grant_def fsub_def split: if_splits)
  ultimately have "g + t' \<le> t * (1 + u)" by (simp add: algebra_simps)
  then have "(g + t') * (1 + u) \<le> t * (1 + u) * (1 + u)" by (rule scale_mono [OF u])
  then show "n_txt N g + n_txt N t' \<le> t * (1 + u) ^ 2"
    using x(2) [OF le(1)] x(2) [OF le(3)] by (simp add: power2_eq_square algebra_simps)
qed

text \<open>A hash as the script leaves it.\<close>

definition hash_ok :: "int \<Rightarrow> int \<Rightarrow> RHash \<Rightarrow> bool" where
  "hash_ok cap t h \<longleftrightarrow> h_last_tick h = of_int t \<and> 0 \<le> h_tokens h \<and> h_tokens h \<le> of_int cap"

definition small :: "int \<Rightarrow> bool" where
  "small i \<longleftrightarrow> 0 \<le> i \<and> i < 10 ^ 14"

lemma small_exact:
  assumes "accurate N u" "small i"
  shows "fnum N i = of_int i" "n_txt N (fnum N i) = of_int i"
  using roundingD(3) [OF accurateD(2) [OF assms(1)], of i] roundingD(3) [OF accurateD(3) [OF assms(1)], of i] assms(2)
  by (auto simp: fnum_def small_def)

text \<open>A missing hash reads as a full one that was written just now.\<close>

lemma script_fresh:
  "luaTokenBucket N cap rate req now ttl None =
     luaTokenBucket N cap rate req now ttl (Some \<lparr>h_tokens = fnum N cap, h_last_tick = fnum N now, h_ttl = ttl\<rparr>)"
  by (simp add: luaTokenBucket_def)

lemma script_call:
  assumes acc: "accurate N u" and sm: "small cap" "small rate" "small req" "small now" "small t0"
    and "hash_ok cap t0 h"
    and call: "luaTokenBucket N cap rate req now ttl (Some h) = (g, h')"
  shows "0 \<le> g" "g \<le> of_int req" "hash_ok cap now h'"
    "g + h_tokens h' \<le> h_tokens h + of_int (max 0 (now - t0)) / 1000 * of_int rate + call_error u cap"
proof -
  note u = accurateD(1) [OF acc] and r = roundingD [OF accurateD(2) [OF acc]]
  have h: "h_last_tick h = of_int t0" "0 \<le> h_tokens h" "h_tokens h \<le> of_int cap"
    using assms(7) by (auto simp: hash_ok_def)
  have cap: "0 \<le> cap" "cap < 10 ^ 14" and req: "0 \<le> req" "req < 10 ^ 14" using sm by (auto simp: small_def)
  have "\<bar>now - t0\<bar> < 10 ^ 14" using sm by (auto simp: small_def)
  from r(3) [OF this] have d: "fsub N (of_int now) (of_int t0) = of_int now - of_int t0" by (simp add: fsub_def)
  define t where "t = accrued N (of_int cap) (of_int rate) (n_rnd N (of_int (now - t0) / 1000)) (h_tokens h)"
  obtain g0 t' where gr: "grant N (of_int req) t = (g0, t')" by fastforce
  have res: "g = n_txt N g0" "h' = \<lparr>h_tokens = n_txt N t', h_last_tick = of_int now, h_ttl = ttl\<rparr>"
    using call gr small_exact [OF acc] sm
    by (auto simp: luaTokenBucket_def Let_def h(1) d fdiv_def t_def)
  have t: "0 \<le> t" "t \<le> of_int cap"
    "t \<le> h_tokens h + of_int (max 0 (now - t0)) / 1000 * of_int rate + ((1 + u) ^ 3 - 1) * of_int cap"
  proof -
    have rate: "0 \<le> (of_int rate :: rat)" using sm(2) by (simp add: small_def)
    have err: "0 \<le> ((1 + u) ^ 3 - 1) * of_int cap" using u cap(1) by (intro mult_nonneg_nonneg) (auto simp: one_le_power)
    have "0 \<le> t \<and> t \<le> of_int cap \<and> t \<le> h_tokens h + of_int (max 0 (now - t0)) / 1000 * of_int rate + ((1 + u) ^ 3 - 1) * of_int cap"
    proof (cases "t0 \<le> now")
      case True
      note ab = accrued_bounds [OF acc cap rate _ h(2,3), of "of_int (now - t0)", folded t_def]
      show ?thesis using ab True by (simp add: max_def)
    next
      case False
      have "n_rnd N (of_int (now - t0) / 1000) \<le> of_int 0" using False by (intro r(4)) (auto simp: divide_nonpos_pos)
      then have "t = h_tokens h" by (simp add: t_def accrued_def)
      then show ?thesis using h err False by (simp add: max_def)
    qed
    then show "0 \<le> t" "t \<le> of_int cap"
      "t \<le> h_tokens h + of_int (max 0 (now - t0)) / 1000 * of_int rate + ((1 + u) ^ 3 - 1) * of_int cap" by blast+
  qed
  note gb = grant_bounds [OF acc req cap t(1,2) gr]
  show "0 \<le> g" "g \<le> of_int req" "hash_ok cap now h'" using gb(1-4) by (auto simp: res hash_ok_def)
  have "t * (1 + u) ^ 2 = t + ((1 + u) ^ 2 - 1) * t" by (simp add: algebra_simps)
  also have "\<dots> \<le> t + ((1 + u) ^ 2 - 1) * of_int cap"
    using t(2) one_le_power [of "1 + u" 2] u by (intro add_left_mono mult_left_mono) auto
  finally have "g + h_tokens h' \<le> t + ((1 + u) ^ 2 - 1) * of_int cap" using gb(5) by (simp add: res)
  moreover have "((1 + u) ^ 3 - 1) * of_int cap + ((1 + u) ^ 2 - 1) * of_int cap = call_error u cap"
    by (simp add: call_error_def algebra_simps)
  ultimately show "g + h_tokens h' \<le> h_tokens h + of_int (max 0 (now - t0)) / 1000 * of_int rate + call_error u cap"
    using t(3) by linarith
qed

text \<open>What a sequence of calls grants, whoever makes them.\<close>

fun script_run :: "Num \<Rightarrow> int \<Rightarrow> int \<Rightarrow> (int \<times> int) list \<Rightarrow> RHash option \<Rightarrow> rat" where
  "script_run N cap rate [] vals = 0"
| "script_run N cap rate ((req, now) # calls) vals =
     (let (g, h) = luaTokenBucket N cap rate req now 300 vals in g + script_run N cap rate calls (Some h))"

text \<open>By how much a sequence of times goes back in all.\<close>

fun setbacks :: "int list \<Rightarrow> int" where
  "setbacks (x # y # xs) = max 0 (x - y) + setbacks (y # xs)"
| "setbacks _ = 0"

lemma setbacks_sorted: "sorted xs \<Longrightarrow> setbacks xs = 0"
  by (induction xs rule: setbacks.induct) auto

lemma script_run_bound:
  assumes acc: "accurate N u" and sm: "small cap" "small rate"
    and "\<forall>(req, now) \<in> set calls. small req \<and> small now" "small t0" "hash_ok cap t0 h"
  shows "script_run N cap rate calls (Some h) \<le>
    h_tokens h + of_int (last (t0 # map snd calls) - t0 + setbacks (t0 # map snd calls)) / 1000 * of_int rate +
    of_nat (length calls) * call_error u cap"
  using assms(4-)
proof (induction calls arbitrary: t0 h)
  case Nil
  then show ?case by (simp add: hash_ok_def)
next
  case (Cons c calls)
  obtain req now where c: "c = (req, now)" by fastforce
  obtain g h' where call: "luaTokenBucket N cap rate req now 300 (Some h) = (g, h')" by fastforce
  have s: "small req" "small now" using Cons.prems by (auto simp: c)
  note sc = script_call [OF acc sm s Cons.prems(2,3) call]
  let ?l = "last (now # map snd calls)" and ?b = "setbacks (now # map snd calls)"
  define X where "X = of_int (max 0 (now - t0)) / (1000 :: rat) * of_int rate"
  define Y where "Y = of_int (?l - now + ?b) / (1000 :: rat) * of_int rate"
  define E where "E = of_nat (length calls) * call_error u cap"
  have "script_run N cap rate calls (Some h') \<le> h_tokens h' + Y + E"
    unfolding Y_def E_def using Cons.prems by (intro Cons.IH) (auto simp: c s sc(3))
  moreover have "max 0 (now - t0) + (?l - now + ?b) = ?l - t0 + (max 0 (t0 - now) + ?b)" by (simp add: max_def)
  then have "X + Y = of_int (?l - t0 + (max 0 (t0 - now) + ?b)) / 1000 * of_int rate"
    unfolding X_def Y_def by (metis (no_types, lifting) add_divide_distrib distrib_right of_int_add)
  moreover have "script_run N cap rate (c # calls) (Some h) = g + script_run N cap rate calls (Some h')" by (simp add: c call)
  moreover have "of_nat (length (c # calls)) * call_error u cap = call_error u cap + E" by (simp add: E_def distrib_right)
  ultimately show ?case using sc(4) [folded X_def] by (simp add: c)
qed


text \<open>C29: What the calls of the script for one key grant together, however many proxies make them, whatever they ask
  for and in whichever order they arrive: at most what the hash held before them, a full capacity if it was missing,
  plus what accrues at the rate between the first and the last of them and, once more, over all the time by which
  the clock readings they carry go back from one call to the next. Each call may add the rounding error of its arithmetic.\<close>

theorem script_grants_at_rate:
  assumes "accurate N u" "small cap" "small rate" "cs \<noteq> []" "\<forall>(req, now) \<in> set cs. small req \<and> small now"
  shows "script_run N cap rate cs None \<le>
      of_int cap + of_int (snd (last cs) - snd (hd cs) + setbacks (map snd cs)) / 1000 * of_int rate + of_nat (length cs) * call_error u cap \<and>
    (\<forall>t0 h. small t0 \<and> hash_ok cap t0 h \<longrightarrow> script_run N cap rate cs (Some h) \<le>
      h_tokens h + of_int (snd (last cs) - t0 + setbacks (t0 # map snd cs)) / 1000 * of_int rate + of_nat (length cs) * call_error u cap)"
proof -
  obtain req now cs' where cs: "cs = (req, now) # cs'" using assms(4) by (cases cs) auto
  have last: "last (t # map snd cs) = snd (last cs)" for t by (simp add: cs last_map)
  have hash: "script_run N cap rate cs (Some h) \<le>
      h_tokens h + of_int (snd (last cs) - t0 + setbacks (t0 # map snd cs)) / 1000 * of_int rate + of_nat (length cs) * call_error u cap"
    if "small t0" "hash_ok cap t0 h" for t0 h
    using script_run_bound [OF assms(1-3,5) that] by (simp only: last)
  let ?h = "\<lparr>h_tokens = fnum N cap, h_last_tick = fnum N now, h_ttl = 300\<rparr>"
  have sm: "small now" using assms(5) by (simp add: cs)
  have "hash_ok cap now ?h"
    using small_exact(1) [OF assms(1)] assms(2) sm by (simp add: hash_ok_def small_def)
  from hash [OF sm this] have "script_run N cap rate cs None \<le>
      of_int cap + of_int (snd (last cs) - snd (hd cs) + setbacks (map snd cs)) / 1000 * of_int rate + of_nat (length cs) * call_error u cap"
    using small_exact(1) [OF assms(1,2)] by (simp add: cs script_fresh)
  with hash show ?thesis by blast
qed

definition ideal :: Num where
  "ideal = \<lparr>n_rnd = (\<lambda>x. x), n_txt = (\<lambda>x. x)\<rparr>"

lemma exact_ideal: "exact ideal"
  by (simp add: exact_def ideal_def)

theorem script_grants_at_rate_witness:
  "script_run ideal 10 10 [(4, 0), (8, 500), (20, 1500), (5, 500), (10, 1500)] None \<le> 45 \<and>
   script_run ideal 10 10 [(4, 0), (8, 500), (20, 1500), (5, 500), (10, 1500)] None = 32"
proof
  show "script_run ideal 10 10 [(4, 0), (8, 500), (20, 1500), (5, 500), (10, 1500)] None \<le> 45"
    using script_grants_at_rate [OF exact_accurate [OF exact_ideal], of 10 10 "[(4, 0), (8, 500), (20, 1500), (5, 500), (10, 1500)]"]
    by (simp add: small_def call_error_def)
qed (simp add: luaTokenBucket_def accrued_def grant_def exact_ops [OF exact_ideal])

text \<open>If the clocks of two proxies differ, the script moves the last tick back and the time between
  the clocks accrues again with every call: two calls per round that are one second apart on the
  clocks grant a full bucket, at any speed.\<close>

lemma script_skew_step:
  assumes "exact N" "0 < cap"
  shows "luaTokenBucket N cap cap cap (t + 1000) 300 (Some \<lparr>h_tokens = 0, h_last_tick = of_int t, h_ttl = 300\<rparr>) =
      (of_int cap, \<lparr>h_tokens = 0, h_last_tick = of_int t + 1000, h_ttl = 300\<rparr>)"
    "luaTokenBucket N cap cap cap t 300 (Some \<lparr>h_tokens = 0, h_last_tick = of_int t + 1000, h_ttl = 300\<rparr>) =
      (0, \<lparr>h_tokens = 0, h_last_tick = of_int t, h_ttl = 300\<rparr>)"
  using assms(2) by (simp_all add: luaTokenBucket_def accrued_def grant_def exact_ops [OF assms(1)])

theorem script_skewed_clocks:
  assumes "exact N" "0 < cap"
  shows "script_run N cap cap (concat (replicate n [(cap, t + 1000), (cap, t)]))
    (Some \<lparr>h_tokens = 0, h_last_tick = of_int t, h_ttl = 300\<rparr>) = of_nat n * of_int cap"
  by (induction n) (simp_all add: script_skew_step [OF assms] algebra_simps)

end
