(* ===== verification/Web.thy ===== *)
theory Web
  imports HTTP_Proxy Response_Writer Hybrid_Bucket
begin

text \<open>
  The request handler (\<open>services/web.go\<close>). Handling a request has two parts: \<open>proxy_begin\<close> is
  \<open>proxyHTTP\<close> up to the call of the reverse proxy, with every early return, and \<open>proxy_end\<close> is what is
  deferred to its end; in between the response is streamed and other requests come and go. The record
  sent to ClickHouse is the subject of the theory on the statistics of requests; logging and Prometheus
  metrics are left out.
\<close>

record 'w WebLib =
  wl_jwt :: "string \<Rightarrow> Keyfunc \<Rightarrow> Token outcome"
  wl_wrapf :: "gerror option \<Rightarrow> string \<Rightarrow> gerror option"
  wl_slib :: "'w SLib"
  wl_proxy_map :: "(ReverseProxy, 'w) lazymap"
  wl_bucket_map :: "(HybridBucket, 'w) lazymap"
  wl_clock :: "'w \<Rightarrow> int \<times> 'w"
  wl_num :: Num
  wl_toBytes :: "string \<Rightarrow> nat outcome"

record WebServer =
  ws_baseURL :: string
  ws_claims :: ClaimsCfg
  ws_limits :: "Limits option"
  ws_enforceSessionIP :: bool
  ws_bandwidthLimit :: bool
  ws_redis :: bool
  ws_maxRetries :: int
  ws_cfg :: ServicesConfig

record Inbound =
  ib_req :: Request
  ib_RemoteAddr :: string

definition getIP :: "Inbound \<Rightarrow> string" where
  "getIP r =
     (let forwarded = header_get (rq_Header (ib_req r)) ''X-FORWARDED-FOR'' in
      if forwarded \<noteq> [] then hd (split_all (CHR '','') forwarded) else ib_RemoteAddr r)"

definition is_external :: "Inbound \<Rightarrow> bool" where
  "is_external r \<longleftrightarrow> header_get (rq_Header (ib_req r)) ''X-FORWARDED-FOR'' \<noteq> []"

definition query_of :: "Inbound \<Rightarrow> string \<Rightarrow> string" where
  "query_of r k = query_get (u_RawQuery (rq_URL (ib_req r))) k"

text \<open>A string claim, or the empty string.\<close>

definition str_claim :: "MapClaims \<Rightarrow> string \<Rightarrow> string" where
  "str_claim claims k = (case claim_str claims k of Some v \<Rightarrow> v | None \<Rightarrow> [])"

section \<open>Admission\<close>

definition hash_mismatch :: "MapClaims \<Rightarrow> Source \<Rightarrow> bool" where
  "hash_mismatch claims src \<longleftrightarrow>
     (let boundHash = str_claim claims ''hash'' in boundHash \<noteq> [] \<and> boundHash \<noteq> s_InfoHash src)"

definition ip_mismatch :: "NetLib \<Rightarrow> WebServer \<Rightarrow> MapClaims \<Rightarrow> Inbound \<Rightarrow> bool" where
  "ip_mismatch net s claims r \<longleftrightarrow>
     ws_enforceSessionIP s \<and> is_external r \<and> str_claim claims ''sessionID'' \<noteq> [] \<and>
     (case claim_str claims ''remoteAddress'' of
        Some bound \<Rightarrow> bound \<noteq> [] \<and> \<not> sameSubnet net bound (getIP r)
      | None \<Rightarrow> False)"

text \<open>The answer to a request that is not admitted, or its claims and the ticket of the limiter.\<close>

datatype answer = Status int | Crash panic

definition limit_session ::
  "NetLib \<Rightarrow> WebServer \<Rightarrow> (string \<Rightarrow> string \<Rightarrow> int option) option \<Rightarrow> int \<Rightarrow> MapClaims \<Rightarrow> Source \<Rightarrow> Inbound \<Rightarrow>
   LState \<Rightarrow> (answer + ticket option) \<times> LState" where
  "limit_session net s sizes now claims src r ls =
     (case ws_limits s of
        None \<Rightarrow> (Inr None, ls)
      | Some l \<Rightarrow>
          if Enabled l \<and> is_external r then
            (case Acquire (with_sizes l sizes) net now (str_claim claims ''sessionID'') (s_InfoHash src)
                    (s_Path src) (getIP r) ls of
               (Rejected reason, ls') \<Rightarrow> (Inl (Status 429), ls')
             | (Granted t, ls') \<Rightarrow> (Inr t, ls'))
          else (Inr None, ls))"

definition admit ::
  "'w WebLib \<Rightarrow> WebServer \<Rightarrow> (string \<Rightarrow> string \<Rightarrow> int option) option \<Rightarrow> int \<Rightarrow> Source \<Rightarrow> Inbound \<Rightarrow>
   LState \<Rightarrow> (answer + MapClaims \<times> ticket option) \<times> LState" where
  "admit lib s sizes now src r ls =
     (case Get (ws_claims s) (wl_jwt lib) (wl_wrapf lib) (query_of r ''token'') (query_of r ''api-key'') of
        Fail x \<Rightarrow> (Inl (Status 403), ls)
      | Panic k \<Rightarrow> (Inl (Crash k), ls)
      | Ret claims \<Rightarrow>
          if hash_mismatch claims src then (Inl (Status 403), ls)
          else if ip_mismatch (e_net (wl_slib lib)) s claims r then (Inl (Status 429), ls)
          else (case limit_session (e_net (wl_slib lib)) s sizes now claims src r ls of
                  (Inl a, ls') \<Rightarrow> (Inl a, ls')
                | (Inr t, ls') \<Rightarrow> (Inr (claims, t), ls')))"

section \<open>Proxying\<close>

definition path_segment_byte :: "char \<Rightarrow> bool" where
  "path_segment_byte c \<longleftrightarrow>
     c \<in> set ''abcdefghijklmnopqrstuvwxyzABCDEFGHIJKLMNOPQRSTUVWXYZ0123456789-_.~$&+=:@''"

definition hex_upper :: "nat \<Rightarrow> char" where
  "hex_upper d = ''0123456789ABCDEF'' ! d"

text \<open>\<open>url.PathEscape\<close>\<close>

fun path_escape :: "string \<Rightarrow> string" where
  "path_escape [] = []"
| "path_escape (c # cs) =
     (if path_segment_byte c then c # path_escape cs
      else CHR ''%'' # hex_upper (code_of c div 16) # hex_upper (code_of c mod 16) # path_escape cs)"

definition proxy_headers :: "WebServer \<Rightarrow> MapClaims \<Rightarrow> Source \<Rightarrow> string \<Rightarrow> (string \<times> string) list" where
  "proxy_headers s claims src apiKey =
     [(''X-Source-Url'', ws_baseURL s @ ''/'' @ s_InfoHash src @ s_Path src @ ''?'' @ s_Query src),
      (''X-Proxy-Url'', ws_baseURL s),
      (''X-Info-Hash'', s_InfoHash src),
      (''X-Path'', s_Path src),
      (''X-Origin-Path'', s_OriginPath src),
      (''X-Full-Path'', ''/'' @ s_InfoHash src @ ''/'' @ path_escape (trim_prefix (s_Path src) ''/'')),
      (''X-Token'', s_Token src),
      (''X-Api-Key'', apiKey),
      (''X-Session-ID'', str_claim claims ''sessionID'')] @
     (case claim_str claims ''rate'' of Some rate \<Rightarrow> [(''X-Download-Rate'', rate)] | None \<Rightarrow> [])"

fun set_headers :: "(string \<times> string) list \<Rightarrow> Header \<Rightarrow> Header" where
  "set_headers [] h = h"
| "set_headers ((k, v) # kvs) h = set_headers kvs (header_set k v h)"

text \<open>What a request takes to the reverse proxy.\<close>

record Serving =
  sv_ticket :: "ticket option"
  sv_claims :: MapClaims
  sv_proxy :: ReverseProxy
  sv_req :: Request
  sv_throttler :: "HybridBucket option"
  sv_retry :: "RetryContext option"
  sv_rules :: RulesContext
  sv_fileKey :: "string \<times> string"

definition serving_of ::
  "WebServer \<Rightarrow> MapClaims \<Rightarrow> ticket option \<Rightarrow> Source \<Rightarrow> Inbound \<Rightarrow> HybridBucket option \<Rightarrow> ReverseProxy \<Rightarrow> Serving" where
  "serving_of s claims t src r throttler pr =
     \<lparr>sv_ticket = t, sv_claims = claims, sv_proxy = pr,
      sv_req = (ib_req r)\<lparr>rq_Header :=
        set_headers (proxy_headers s claims src (query_of r ''api-key'')) (rq_Header (ib_req r))\<rparr>,
      sv_throttler = throttler,
      sv_retry = (if 0 < ws_maxRetries s
        then Some \<lparr>rc_Src = src, rc_Claims = claims, rc_Cfg = ws_cfg s, rc_MaxRetries = ws_maxRetries s\<rparr> else None),
      sv_rules = \<lparr>ru_Claims = claims, ru_PrimaryToken = query_of r ''token'', ru_InfoHash = s_InfoHash src\<rparr>,
      sv_fileKey = (s_InfoHash src, s_Path src)\<rparr>"

text \<open>\<open>HTTPProxy_Get\<close> returns a proxy or an error, so the branch of the code for a missing proxy, which answers 501, is
  never taken and has no counterpart.\<close>

definition prepare ::
  "'w WebLib \<Rightarrow> WebServer \<Rightarrow> MapClaims \<Rightarrow> ticket option \<Rightarrow> Source \<Rightarrow> Inbound \<Rightarrow> 'w \<Rightarrow> (answer + Serving) \<times> 'w" where
  "prepare lib s claims t src r w =
     (case (if ws_bandwidthLimit s \<and> is_external r
            then Pool_Get (wl_bucket_map lib) (wl_clock lib) (wl_num lib) (wl_toBytes lib) (ws_redis s) claims w
            else (Ret None, w)) of
        (Fail x, w1) \<Rightarrow> (Inl (Status 500), w1)
      | (Panic k, w1) \<Rightarrow> (Inl (Crash k), w1)
      | (Ret throttler, w1) \<Rightarrow>
          (case HTTPProxy_Get (wl_proxy_map lib) (wl_slib lib) (ws_maxRetries s) (ws_cfg s) src claims w1 of
             (Fail x, w2) \<Rightarrow> (Inl (Status 500), w2)
           | (Panic k, w2) \<Rightarrow> (Inl (Crash k), w2)
           | (Ret pr, w2) \<Rightarrow> (Inr (serving_of s claims t src r throttler pr), w2)))"

text \<open>The deferred release.\<close>

definition proxy_end :: "ticket option \<Rightarrow> LState \<Rightarrow> LState" where
  "proxy_end t ls = (case t of None \<Rightarrow> ls | Some k \<Rightarrow> Release k ls)"

definition proxy_begin ::
  "'w WebLib \<Rightarrow> WebServer \<Rightarrow> (string \<Rightarrow> string \<Rightarrow> int option) option \<Rightarrow> int \<Rightarrow> Source \<Rightarrow> Inbound \<Rightarrow>
   LState \<times> 'w \<Rightarrow> (answer + Serving) \<times> LState \<times> 'w" where
  "proxy_begin lib s sizes now src r st =
     (case st of (ls, w) \<Rightarrow>
      (case admit lib s sizes now src r ls of
         (Inl a, ls1) \<Rightarrow> (Inl a, ls1, w)
       | (Inr (claims, t), ls1) \<Rightarrow>
           (case prepare lib s claims t src r w of
              (Inl a, w1) \<Rightarrow> (Inl a, proxy_end t ls1, w1)
            | (Inr sv, w1) \<Rightarrow> (Inr sv, ls1, w1))))"

section \<open>Routing\<close>

definition is_static :: "string \<Rightarrow> bool" where
  "is_static path \<longleftrightarrow> path = ''/'' \<or> has_prefix path ''/favicon'' \<or> has_prefix path ''/ads.txt'' \<or>
     has_prefix path ''/robots.txt''"

text \<open>The handler of \<open>/\<close>: the request is passed on with the path of the modification, or of the
  file if there is none.\<close>

definition handle_root ::
  "'w WebLib \<Rightarrow> WebServer \<Rightarrow> string list \<Rightarrow> (string \<Rightarrow> string \<Rightarrow> int option) option \<Rightarrow> int \<Rightarrow> Inbound \<Rightarrow>
   LState \<times> 'w \<Rightarrow> (answer + Serving) \<times> LState \<times> 'w" where
  "handle_root lib s ks sizes now r st =
     (let url = rq_URL (ib_req r) in
      if is_static (u_Path url) then (Inl (Status 200), st)
      else case Parse (ws_cfg s) ks url of
        Fail x \<Rightarrow> (Inl (Status 500), st)
      | Panic k \<Rightarrow> (Inl (Crash k), st)
      | Ret src \<Rightarrow>
          (let newPath = (case s_Mod src of Some m \<Rightarrow> m_Path m | None \<Rightarrow> s_Path src);
               r' = r\<lparr>ib_req := (ib_req r)\<lparr>rq_URL := url\<lparr>u_Path := newPath\<rparr>\<rparr>\<rparr>
           in proxy_begin lib s sizes now src r' st))"

section \<open>Access control\<close>

lemma proxy_begin_served:
  assumes "proxy_begin lib s sizes now src r (ls, w) = (Inr sv, ls', w')"
  obtains claims t throttler pr where
    "admit lib s sizes now src r ls = (Inr (claims, t), ls')"
    "sv = serving_of s claims t src r throttler pr"
proof -
  obtain claims t ls1 where a: "admit lib s sizes now src r ls = (Inr (claims, t), ls1)"
    using assms by (auto simp: proxy_begin_def split: sum.splits prod.splits)
  then have "ls' = ls1" "prepare lib s claims t src r w = (Inr sv, w')"
    using assms by (auto simp: proxy_begin_def split: sum.splits prod.splits)
  moreover from this(2) obtain throttler pr where "sv = serving_of s claims t src r throttler pr"
    by (auto simp: prepare_def split: if_splits outcome.splits prod.splits)
  ultimately show thesis using that a by blast
qed

text \<open>A server with two pods and an external request with a token of session \<open>s1\<close>.\<close>

definition demo_jwt :: "string \<Rightarrow> Keyfunc \<Rightarrow> Token outcome" where
  "demo_jwt ts kf =
     (let tok = \<lparr>t_HMAC = True, t_Alg = ''HS256'', t_Claims = Some (Some (fmupd ''sessionID'' (JStr ''s1'') fmempty)),
                 t_Valid = True\<rparr>
      in and_then (kf tok) (\<lambda>key. if key = ts then Ret tok else Fail (ErrMsg ''signature is invalid'')))"

lemma demo_jwt_contract: "jwt_contract demo_jwt (=)"
  by (auto simp: jwt_contract_def demo_jwt_def Let_def outcome_simps split: if_splits)

definition demo_weblib :: "string list WebLib" where
  "demo_weblib = \<lparr>wl_jwt = demo_jwt, wl_wrapf = (\<lambda>e m. e), wl_slib = demo_lib,
     wl_proxy_map = (\<lambda>key load w. load w), wl_bucket_map = (\<lambda>key load w. load w),
     wl_clock = (\<lambda>w. (0, w)), wl_num = ideal, wl_toBytes = (\<lambda>r. Ret 80)\<rparr>"

definition demo_server :: WebServer where
  "demo_server = \<lparr>ws_baseURL = ''http://thp'', ws_claims = \<lparr>c_apiKey = ''k'', c_apiSecret = ''secret''\<rparr>,
     ws_limits = Some demo_limits, ws_enforceSessionIP = True, ws_bandwidthLimit = True, ws_redis = False, ws_maxRetries = 3,
     ws_cfg = small_config\<rparr>"

definition demo_inbound :: Inbound where
  "demo_inbound = \<lparr>ib_req = \<lparr>rq_Method = ''GET'',
       rq_URL = \<lparr>u_Path = ''/00000/f'', u_RawQuery = ''token=secret&api-key=k'', u_Host = ''thp''\<rparr>,
       rq_Header = header_set ''X-FORWARDED-FOR'' ''abcd,10.9'' fmempty\<rparr>, ib_RemoteAddr = ''10.9''\<rparr>"

lemma demo_handled: "\<not> isl (fst (handle_root demo_weblib demo_server small_range None 0 demo_inbound (init_state, [])))"
  by code_simp

lemma not_isl_Inr: "\<not> isl (fst x) \<Longrightarrow> \<exists>sv ls' w'. x = (Inr sv, ls', w')"
  by (cases x) (auto simp: isl_def split: sum.splits intro: sum.exhaust)

lemma handle_root_served:
  assumes "handle_root lib s ks sizes now r st = (Inr sv, ls', w')"
  obtains src r' where "proxy_begin lib s sizes now src r' st = (Inr sv, ls', w')"
  using assms by (auto simp: handle_root_def Let_def split: if_splits outcome.splits)

lemma demo_served:
  "\<exists>src r sv ls' w'. proxy_begin demo_weblib demo_server None 0 src r (init_state, []) = (Inr sv, ls', w')"
  using not_isl_Inr [OF demo_handled] by (metis handle_root_served)

text \<open>C2: A request reaches a backend only if it is authorised: authentication is switched off, or
  the request carries the configured API key and a token whose signature verifies under the
  secret; if the token is bound to a torrent, it is the requested one; and if the token is
  bound to an address and this is enforced, an external client of a session is in the same
  subnet.\<close>

theorem served_request_is_authorised:
  assumes "jwt_contract (wl_jwt lib) verifies"
    and "proxy_begin lib s sizes now src r (ls, w) = (Inr sv, ls', w')"
  shows "(c_apiKey (ws_claims s) = [] \<and> c_apiSecret (ws_claims s) = [] \<or>
      c_apiKey (ws_claims s) = query_of r ''api-key'' \<and> query_of r ''token'' \<noteq> [] \<and>
      verifies (c_apiSecret (ws_claims s)) (query_of r ''token'')) \<and>
    (str_claim (sv_claims sv) ''hash'' = [] \<or> str_claim (sv_claims sv) ''hash'' = s_InfoHash src) \<and>
    \<not> ip_mismatch (e_net (wl_slib lib)) s (sv_claims sv) r"
  using assms(2)
proof (rule proxy_begin_served)
  fix claims t throttler pr
  assume a: "admit lib s sizes now src r ls = (Inr (claims, t), ls')"
    and sv: "sv = serving_of s claims t src r throttler pr"
  have get: "Get (ws_claims s) (wl_jwt lib) (wl_wrapf lib) (query_of r ''token'') (query_of r ''api-key'') = Ret claims"
    and "\<not> hash_mismatch claims src" "\<not> ip_mismatch (e_net (wl_slib lib)) s claims r"
    using a by (auto simp: admit_def split: outcome.splits if_splits sum.splits prod.splits)
  moreover have "sv_claims sv = claims" by (simp add: sv serving_of_def)
  ultimately show ?thesis
    using Get_sound [OF assms(1) get] by (auto simp: hash_mismatch_def Let_def)
qed

theorem served_request_is_authorised_witness:
  "\<exists>src r sv ls' w'. proxy_begin demo_weblib demo_server None 0 src r (init_state, []) = (Inr sv, ls', w') \<and>
     query_of r ''token'' = ''secret'' \<and> \<not> ip_mismatch (e_net demo_lib) demo_server (sv_claims sv) r"
proof -
  obtain src r sv ls' w' where p: "proxy_begin demo_weblib demo_server None 0 src r (init_state, []) = (Inr sv, ls', w')"
    using demo_served by blast
  have "jwt_contract (wl_jwt demo_weblib) (=)" using demo_jwt_contract by (simp add: demo_weblib_def)
  moreover have "ws_claims demo_server = \<lparr>c_apiKey = ''k'', c_apiSecret = ''secret''\<rparr>"
      "wl_slib demo_weblib = demo_lib"
    by (simp_all add: demo_weblib_def demo_server_def)
  ultimately have "query_of r ''token'' = ''secret'' \<and> \<not> ip_mismatch (e_net demo_lib) demo_server (sv_claims sv) r"
    using served_request_is_authorised [OF _ p, of "(=)"] by auto
  with p show ?thesis by blast
qed

section \<open>The server as a state machine\<close>

text \<open>What handling a request does to the limiter.\<close>

lemma admit_limiter:
  assumes "ws_limits s = Some l" "admit lib s sizes now src r ls = (x, ls')"
  obtains (none) "ls' = ls" "\<And>claims t. x = Inr (claims, t) \<Longrightarrow> t = None"
  | (rejected) sid h p ip reason where
      "Acquire (with_sizes l sizes) (e_net (wl_slib lib)) now sid h p ip ls = (Rejected reason, ls')" "x = Inl (Status 429)"
  | (granted) sid h p ip claims t where
      "Acquire (with_sizes l sizes) (e_net (wl_slib lib)) now sid h p ip ls = (Granted t, ls')" "x = Inr (claims, t)"
proof (cases "\<exists>claims. Get (ws_claims s) (wl_jwt lib) (wl_wrapf lib) (query_of r ''token'') (query_of r ''api-key'') = Ret claims \<and>
    \<not> hash_mismatch claims src \<and> \<not> ip_mismatch (e_net (wl_slib lib)) s claims r \<and> Enabled l \<and> is_external r")
  case True
  then obtain claims where c: "Get (ws_claims s) (wl_jwt lib) (wl_wrapf lib) (query_of r ''token'') (query_of r ''api-key'') = Ret claims"
      "\<not> hash_mismatch claims src" "\<not> ip_mismatch (e_net (wl_slib lib)) s claims r" "Enabled l" "is_external r"
    by blast
  obtain v ls1 where acq: "Acquire (with_sizes l sizes) (e_net (wl_slib lib)) now (str_claim claims ''sessionID'')
      (s_InfoHash src) (s_Path src) (getIP r) ls = (v, ls1)" by fastforce
  show thesis
    using assms(2) c acq rejected granted by (cases v) (auto simp: admit_def limit_session_def assms(1))
next
  case False
  then have "ls' = ls \<and> (\<forall>claims t. x = Inr (claims, t) \<longrightarrow> t = None)"
    using assms(2) by (auto simp: admit_def limit_session_def assms(1) split: outcome.splits if_splits)
  then show thesis using none by blast
qed

inductive web_step ::
  "'w WebLib \<Rightarrow> WebServer \<Rightarrow> string list \<Rightarrow> LState \<times> 'w \<times> Serving multiset \<Rightarrow> LState \<times> 'w \<times> Serving multiset \<Rightarrow> bool"
  for lib s ks where
  served: "size M < 2 ^ 31 - 1 \<Longrightarrow> handle_root lib s ks sizes now r (ls, w) = (Inr sv, ls', w') \<Longrightarrow>
     web_step lib s ks (ls, w, M) (ls', w', add_mset sv M)"
| answered: "size M < 2 ^ 31 - 1 \<Longrightarrow> handle_root lib s ks sizes now r (ls, w) = (Inl a, ls', w') \<Longrightarrow>
     web_step lib s ks (ls, w, M) (ls', w', M)"
| finished: "sv \<in># M \<Longrightarrow> web_step lib s ks (ls, w, M) (proxy_end (sv_ticket sv) ls, w', M - {#sv#})"

definition tickets :: "Serving multiset \<Rightarrow> ticket multiset" where
  "tickets M = image_mset (\<lambda>sv. the (sv_ticket sv)) (filter_mset (\<lambda>sv. sv_ticket sv \<noteq> None) M)"

lemma tickets_simps [simp]:
  "tickets {#} = {#}"
  "tickets (add_mset sv M) = (case sv_ticket sv of None \<Rightarrow> tickets M | Some t \<Rightarrow> add_mset t (tickets M))"
  by (auto simp: tickets_def split: option.split)

lemma size_tickets: "size (tickets M) \<le> size M"
  unfolding tickets_def by (simp add: size_filter_mset_lesseq)

lemma reach_step: "lim_reachable l net st T \<Longrightarrow> lim_step l net (st, T) (st', T') \<Longrightarrow> lim_reachable l net st' T'"
  unfolding lim_reachable_def by (rule rtranclp.rtrancl_into_rtrancl)

lemma proxy_begin_reach:
  assumes "ws_limits s = Some l" "lim_reachable l (e_net (wl_slib lib)) ls T" "size T < 2 ^ 31 - 1"
    and "proxy_begin lib s sizes now src r (ls, w) = (x, ls', w')"
  shows "x = Inl a \<Longrightarrow> lim_reachable l (e_net (wl_slib lib)) ls' T"
    and "x = Inr sv \<Longrightarrow> lim_reachable l (e_net (wl_slib lib)) ls' (case sv_ticket sv of None \<Rightarrow> T | Some t \<Rightarrow> add_mset t T)"
proof -
  obtain y ls1 where ad: "admit lib s sizes now src r ls = (y, ls1)" by fastforce
  have "(x = Inl a \<longrightarrow> lim_reachable l (e_net (wl_slib lib)) ls' T) \<and>
    (x = Inr sv \<longrightarrow> lim_reachable l (e_net (wl_slib lib)) ls' (case sv_ticket sv of None \<Rightarrow> T | Some t \<Rightarrow> add_mset t T))"
    using assms(1) ad
  proof (cases rule: admit_limiter)
    case none
    then show ?thesis
      using assms(2,4) ad
      by (auto simp: proxy_begin_def proxy_end_def prepare_def serving_of_def
          split: sum.splits prod.splits outcome.splits if_splits)
  next
    case (rejected sid h p ip reason)
    then show ?thesis
      using assms(4) ad reach_step [OF assms(2) lim_step.rejected [OF rejected(1)]] by (auto simp: proxy_begin_def)
  next
    case (granted sid h p ip claims t)
    obtain z w1 where p: "prepare lib s claims t src r w = (z, w1)" by fastforce
    have tk: "sv_ticket sv' = t" if "z = Inr sv'" for sv'
      using p that by (auto simp: prepare_def serving_of_def split: prod.splits outcome.splits if_splits)
    show ?thesis
    proof (cases t)
      case None
      then have "lim_reachable l (e_net (wl_slib lib)) ls1 T"
        using reach_step [OF assms(2) lim_step.anonymous] granted by blast
      then show ?thesis
        using assms(4) ad granted p tk None by (cases z) (auto simp: proxy_begin_def proxy_end_def)
    next
      case (Some k)
      have g: "lim_reachable l (e_net (wl_slib lib)) ls1 (add_mset k T)"
        using reach_step [OF assms(2) lim_step.granted [OF assms(3)]] granted(1) Some by blast
      then have "lim_reachable l (e_net (wl_slib lib)) (Release k ls1) T"
        using reach_step [OF g lim_step.released [of k]] by simp
      with g show ?thesis
        using assms(4) ad granted p tk Some by (cases z) (auto simp: proxy_begin_def proxy_end_def)
    qed
  qed
  then show "x = Inl a \<Longrightarrow> lim_reachable l (e_net (wl_slib lib)) ls' T"
    and "x = Inr sv \<Longrightarrow> lim_reachable l (e_net (wl_slib lib)) ls' (case sv_ticket sv of None \<Rightarrow> T | Some t \<Rightarrow> add_mset t T)"
    by blast+
qed

lemma handle_root_reach:
  assumes "ws_limits s = Some l" "lim_reachable l (e_net (wl_slib lib)) ls T" "size T < 2 ^ 31 - 1"
    and "handle_root lib s ks sizes now r (ls, w) = (x, ls', w')"
  shows "x = Inl a \<Longrightarrow> lim_reachable l (e_net (wl_slib lib)) ls' T"
    and "x = Inr sv \<Longrightarrow> lim_reachable l (e_net (wl_slib lib)) ls' (case sv_ticket sv of None \<Rightarrow> T | Some t \<Rightarrow> add_mset t T)"
  using assms(2,4) proxy_begin_reach [OF assms(1-3)]
  by (auto simp: handle_root_def Let_def split: if_splits outcome.splits)

definition web_reachable ::
  "'w WebLib \<Rightarrow> WebServer \<Rightarrow> string list \<Rightarrow> LState \<Rightarrow> Serving multiset \<Rightarrow> bool" where
  "web_reachable lib s ks ls M \<longleftrightarrow> (\<exists>w0 w. (web_step lib s ks)\<^sup>*\<^sup>* (init_state, w0, {#}) (ls, w, M))"

lemma web_refines_limiter:
  assumes "ws_limits s = Some l" "web_reachable lib s ks ls M"
  shows "lim_reachable l (e_net (wl_slib lib)) ls (tickets M)"
proof -
  have "lim_reachable l (e_net (wl_slib lib)) (fst c) (tickets (snd (snd c)))"
    if "(web_step lib s ks)\<^sup>*\<^sup>* c0 c" "fst c0 = init_state" "snd (snd c0) = {#}" for c0 c
    using that
  proof (induction rule: rtranclp_induct)
    case base
    then show ?case by (simp add: lim_reachable_def)
  next
    case (step y z)
    note IH = step.IH [OF step.prems]
    from step.hyps(2) show ?case
    proof cases
      case (served M sizes now r ls w sv ls' w')
      have "size (tickets M) < 2 ^ 31 - 1" using served(3) size_tickets [of M] by linarith
      with IH served handle_root_reach(2) [OF assms(1) _ _ served(4) refl] show ?thesis by simp
    next
      case (answered M sizes now r ls w a ls' w')
      have "size (tickets M) < 2 ^ 31 - 1" using answered(3) size_tickets [of M] by linarith
      with IH answered handle_root_reach(1) [OF assms(1) _ _ answered(4) refl] show ?thesis by simp
    next
      case (finished sv M ls w w')
      obtain M' where M: "M = add_mset sv M'" using finished(3) by (metis insert_DiffM)
      show ?thesis
      proof (cases "sv_ticket sv")
        case None
        then show ?thesis using IH finished by (simp add: M proxy_end_def)
      next
        case (Some t)
        then have "lim_reachable l (e_net (wl_slib lib)) ls (add_mset t (tickets M'))"
          using IH finished by (simp add: M)
        from reach_step [OF this lim_step.released [of t]] show ?thesis
          using finished Some by (simp add: M proxy_end_def)
      qed
    qed
  qed
  then show ?thesis using assms(2) unfolding web_reachable_def by fastforce
qed

text \<open>C6: As long as no two of its calls of the limiter overlap in time, the server as a whole respects it: in every state that
  is reached by requests of which one at a time is being admitted or released, while any number of
  responses are being streamed, and whatever errors happen in between, the tickets of these responses
  are exactly what the limiter accounts for, so for each session they are within the caps, and the limiter
  remembers no other session. When admissions overlap neither holds; the theory \<open>Session_Races\<close> shows what does.\<close>

theorem server_respects_caps:
  assumes "ws_limits s = Some l" "web_reachable lib s ks ls M"
  shows "within_caps l (of_session sid (tickets M)) \<and>
    fmdom' (ls_sessions ls) = k_sid ` set_mset (tickets M)"
  using reachable_caps [OF web_refines_limiter [OF assms]] reachable_sessions [OF web_refines_limiter [OF assms]]
  by simp

theorem server_respects_caps_witness:
  "\<exists>(ls :: LState) M. M \<noteq> {#} \<and> within_caps demo_limits (of_session ''s1'' (tickets M)) \<and>
     fmdom' (ls_sessions ls) = k_sid ` set_mset (tickets M)"
proof -
  obtain sv ls' w' where p: "handle_root demo_weblib demo_server small_range None 0 demo_inbound (init_state, []) = (Inr sv, ls', w')"
    using not_isl_Inr [OF demo_handled] by blast
  have "web_step demo_weblib demo_server small_range (init_state, [], {#}) (ls', w', add_mset sv {#})"
    by (rule web_step.served [OF _ p]) simp
  then have "web_reachable demo_weblib demo_server small_range ls' (add_mset sv {#})"
    unfolding web_reachable_def by blast
  moreover have "ws_limits demo_server = Some demo_limits" by (simp add: demo_server_def)
  ultimately have "within_caps demo_limits (of_session ''s1'' (tickets (add_mset sv {#}))) \<and>
      fmdom' (ls_sessions ls') = k_sid ` set_mset (tickets (add_mset sv {#}))"
    using server_respects_caps by blast
  then show ?thesis by - (rule exI [of _ ls'], rule exI [of _ "add_mset sv {#}"], simp)
qed

section \<open>What the backend is told\<close>

lemma set_headers_get:
  "header_get (set_headers kvs h) k =
     (case map_of (rev (map (\<lambda>(k, v). (canonical_key k, v)) kvs)) (canonical_key k) of
        Some v \<Rightarrow> v | None \<Rightarrow> header_get h k)"
proof (induction kvs arbitrary: h)
  case (Cons kv kvs)
  then show ?case by (cases kv) (auto split: option.split)
qed simp

text \<open>C28: The backend is told the torrent, the path, the token and the session by the proxy: the
  headers that carry them are those of the parsed source and of the claims, whatever the
  client put there. The exception is \<open>X-Download-Rate\<close>: for a token without a rate the value
  the client sent is passed on.\<close>

theorem backend_headers:
  assumes "proxy_begin lib s sizes now src r (ls, w) = (Inr sv, ls', w')"
  shows "header_get (rq_Header (sv_req sv)) ''X-Info-Hash'' = s_InfoHash src \<and>
    header_get (rq_Header (sv_req sv)) ''X-Path'' = s_Path src \<and>
    header_get (rq_Header (sv_req sv)) ''X-Token'' = s_Token src \<and>
    header_get (rq_Header (sv_req sv)) ''X-Session-ID'' = str_claim (sv_claims sv) ''sessionID'' \<and>
    header_get (rq_Header (sv_req sv)) ''X-Download-Rate'' =
      (case claim_str (sv_claims sv) ''rate'' of
         Some rate \<Rightarrow> rate
       | None \<Rightarrow> header_get (rq_Header (ib_req r)) ''X-Download-Rate'')"
  using assms
proof (rule proxy_begin_served)
  fix claims t throttler pr
  assume sv: "sv = serving_of s claims t src r throttler pr"
  have keys: "canonical_key ''X-Source-Url'' = ''X-Source-Url''" "canonical_key ''X-Proxy-Url'' = ''X-Proxy-Url''"
      "canonical_key ''X-Info-Hash'' = ''X-Info-Hash''" "canonical_key ''X-Path'' = ''X-Path''"
      "canonical_key ''X-Origin-Path'' = ''X-Origin-Path''" "canonical_key ''X-Full-Path'' = ''X-Full-Path''"
      "canonical_key ''X-Token'' = ''X-Token''" "canonical_key ''X-Api-Key'' = ''X-Api-Key''"
      "canonical_key ''X-Session-ID'' = ''X-Session-Id''" "canonical_key ''X-Download-Rate'' = ''X-Download-Rate''"
    by code_simp+
  show ?thesis
    by (simp add: sv serving_of_def set_headers_get proxy_headers_def keys split: option.split)
qed

theorem backend_headers_witness:
  "\<exists>src r sv ls' w'. proxy_begin demo_weblib demo_server None 0 src r (init_state, []) = (Inr sv, ls', w') \<and>
     header_get (rq_Header (sv_req sv)) ''X-Info-Hash'' = s_InfoHash src"
proof -
  obtain src r sv ls' w' where p: "proxy_begin demo_weblib demo_server None 0 src r (init_state, []) = (Inr sv, ls', w')"
    using demo_served by blast
  from backend_headers [OF p] p show ?thesis by blast
qed

end
