(* ===== verification/ClickHouse.thy ===== *)
theory ClickHouse
  imports Go_Strings "HOL-Library.Word" "HOL-Library.Multiset"
begin

text \<open>
  The statistics (\<open>services/clickhouse.go\<close>, \<open>services/clickhouse_db.go\<close>): the record of a request, the
  table, the batch that \<open>Add\<close> fills and hands to a goroutine, and \<open>store\<close>, which writes a batch in one
  transaction. Package \<open>database/sql\<close> is a function that answers the calls made to it, with nil
  or an error; a recorder of the calls lets theorems speak about what reached the database. The two
  mutexes are part of the state: \<open>storeMux\<close> is a flag, and a goroutine that finds it taken blocks.
\<close>

record StatRecord =
  sr_Timestamp :: int
  sr_ApiKey :: string
  sr_BytesWritten :: "64 word"
  sr_TTFB :: "64 word"
  sr_Duration :: "64 word"
  sr_Path :: string
  sr_InfoHash :: string
  sr_OriginalPath :: string
  sr_SessionID :: string
  sr_Domain :: string
  sr_Status :: "64 word"
  sr_GroupedStatus :: "64 word"
  sr_Edge :: string
  sr_Source :: string
  sr_Role :: string
  sr_Ads :: bool

record ClickHouse =
  ch_batchSize :: int
  ch_batch :: "StatRecord list"
  ch_storeMux :: bool
  ch_init :: bool
  ch_nodeName :: string
  ch_replicated :: bool
  ch_sharded :: bool

definition NewClickHouse :: "int \<Rightarrow> string \<Rightarrow> bool \<Rightarrow> bool \<Rightarrow> ClickHouse" where
  "NewClickHouse batchSize nodeName replicated sharded =
     \<lparr>ch_batchSize = batchSize, ch_batch = [], ch_storeMux = False, ch_init = False, ch_nodeName = nodeName,
      ch_replicated = replicated, ch_sharded = sharded\<rparr>"

section \<open>The statements\<close>

definition NL :: string where
  "NL = [CHR 0x0A]"

definition tabs :: "nat \<Rightarrow> string" where
  "tabs n = replicate n (CHR 0x09)"

definition quoted :: "string \<Rightarrow> string" where
  "quoted s = CHR 0x27 # s @ [CHR 0x27]"

definition table_columns :: "(string \<times> string) list" where
  "table_columns =
     [(''timestamp'', ''DateTime''), (''api_key'', ''String''), (''bytes_written'', ''UInt64''),
      (''ttfb'', ''UInt32''), (''duration'', ''UInt32''), (''path'', ''String''), (''infohash'', ''String''),
      (''original_path'', ''String''), (''session_id'', ''String''), (''domain'', ''String''),
      (''status'', ''UInt16''), (''grouped_status'', ''UInt16''), (''edge'', ''String''),
      (''source'', ''String''), (''role'', ''String''), (''ads'', ''UInt8''), (''node'', ''String'')]"

definition column_line :: "string \<times> string \<Rightarrow> string" where
  "column_line c = tabs 3 @ fst c @ replicate (15 - length (fst c)) (CHR '' '') @ snd c"

fun join_str :: "string \<Rightarrow> string list \<Rightarrow> string" where
  "join_str sep [] = []"
| "join_str sep [x] = x"
| "join_str sep (x # y # xs) = x @ sep @ join_str sep (y # xs)"

definition create_sql :: "string \<Rightarrow> string \<Rightarrow> string \<Rightarrow> string" where
  "create_sql tableExpr engine ttl =
     ''CREATE TABLE IF NOT EXISTS '' @ tableExpr @ '' ('' @ NL @
     join_str ('','' @ NL) (map column_line table_columns) @ NL @
     tabs 2 @ '') engine = '' @ engine @ NL @
     tabs 2 @ ''PARTITION BY toYYYYMM(timestamp)'' @ NL @
     tabs 2 @ ''ORDER BY (timestamp)'' @ NL @
     tabs 2 @ ''TTL timestamp + INTERVAL '' @ ttl"

definition create_all_sql :: "string \<Rightarrow> string" where
  "create_all_sql table =
     ''CREATE TABLE IF NOT EXISTS '' @ table @ ''_all on cluster '' @ quoted ''{cluster}'' @ '' as '' @ table @ NL @
     tabs 3 @ ''ENGINE = Distributed('' @ quoted ''{cluster}'' @ '', default, '' @ table @ '', rand())''"


text \<open>The columns of the insert statement, on the lines they are written on.\<close>

definition insert_columns :: "string list list" where
  "insert_columns =
     [[''timestamp'', ''api_key'', ''bytes_written'', ''ttfb''],
      [''duration'', ''path'', ''infohash'', ''original_path'', ''session_id'', ''domain'', ''status'', ''grouped_status'', ''edge''],
      [''source'', ''role'', ''ads'', ''node'']]"

definition placeholders :: nat where
  "placeholders = 17"

definition insert_sql :: "string \<Rightarrow> string" where
  "insert_sql table =
     ''INSERT INTO '' @ table @ '' ('' @ join_str ('','' @ NL @ tabs 2) (map (join_str '', '') insert_columns) @
     '') VALUES ('' @ join_str '', '' (replicate placeholders ''?'') @ '')''"

datatype SqlVal = VTime int | VString string | VU64 "64 word" | VU32 "32 word" | VU16 "16 word" | VU8 "8 word"

text \<open>The arguments of one execution of the statement; the conversions truncate.\<close>

definition row_of :: "ClickHouse \<Rightarrow> StatRecord \<Rightarrow> SqlVal list" where
  "row_of s r =
     [VTime (sr_Timestamp r), VString (sr_ApiKey r), VU64 (sr_BytesWritten r), VU32 (ucast (sr_TTFB r)),
      VU32 (ucast (sr_Duration r)), VString (sr_Path r), VString (sr_InfoHash r), VString (sr_OriginalPath r),
      VString (sr_SessionID r), VString (sr_Domain r), VU16 (ucast (sr_Status r)),
      VU16 (ucast (sr_GroupedStatus r)), VString (sr_Edge r), VString (sr_Source r), VString (sr_Role r),
      VU8 (if sr_Ads r then 1 else 0), VString (ch_nodeName s)]"

section \<open>Storing a batch\<close>

datatype dbcall =
  DbGet | DbExec string | DbPing | DbBegin | DbPrepare string | DbStmtExec "SqlVal list" | DbCommit | DbStmtClose

type_synonym 'w db = "dbcall \<Rightarrow> 'w \<Rightarrow> gerror option \<times> 'w"

definition table_expr :: "ClickHouse \<Rightarrow> string" where
  "table_expr s = ''proxy_stat'' @ (if ch_sharded s then '' on cluster '' @ quoted ''{cluster}'' else [])"

definition engine_of :: "ClickHouse \<Rightarrow> string" where
  "engine_of s =
     (if ch_replicated s
      then ''ReplicatedMergeTree('' @ quoted ''/clickhouse/{installation}/{cluster}/tables/{shard}/{database}/{table}'' @
           '', '' @ quoted ''{replica}'' @ '')''
      else ''MergeTree()'')"

definition makeTable :: "'w db \<Rightarrow> ClickHouse \<Rightarrow> 'w \<Rightarrow> gerror option \<times> 'w" where
  "makeTable db s w =
     (case db (DbExec (create_sql (table_expr s) (engine_of s) ''3 MONTH'')) w of
        (Some e, w1) \<Rightarrow> (Some e, w1)
      | (None, w1) \<Rightarrow>
          if ch_sharded s then db (DbExec (create_all_sql ''proxy_stat'')) w1 else (None, w1))"

definition insert_table :: "ClickHouse \<Rightarrow> string" where
  "insert_table s = ''proxy_stat'' @ (if ch_replicated s then ''_all'' else [])"

fun exec_rows :: "'w db \<Rightarrow> ClickHouse \<Rightarrow> StatRecord list \<Rightarrow> 'w \<Rightarrow> gerror option \<times> 'w" where
  "exec_rows db s [] w = (None, w)"
| "exec_rows db s (r # rs) w =
     (case db (DbStmtExec (row_of s r)) w of
        (Some e, w1) \<Rightarrow> (Some (ErrWrap ''failed to exec'' e), w1)
      | (None, w1) \<Rightarrow> exec_rows db s rs w1)"

text \<open>A call whose error is wrapped and returned, and what follows otherwise.\<close>

definition or_fail ::
  "string \<Rightarrow> gerror option \<times> 'w \<Rightarrow> ('w \<Rightarrow> gerror option \<times> 'w) \<Rightarrow> gerror option \<times> 'w" where
  "or_fail m x k = (case x of (Some e, w) \<Rightarrow> (Some (ErrWrap m e), w) | (None, w) \<Rightarrow> k w)"

text \<open>From the prepared statement to the commit; closing the statement is deferred.\<close>

definition insert_rows :: "'w db \<Rightarrow> ClickHouse \<Rightarrow> StatRecord list \<Rightarrow> 'w \<Rightarrow> gerror option \<times> 'w" where
  "insert_rows db s rs w =
     (let (res, w1) = (case exec_rows db s rs w of
                         (Some e, w') \<Rightarrow> (Some e, w')
                       | (None, w') \<Rightarrow> or_fail ''failed to commit'' (db DbCommit w') (\<lambda>w. (None, w)))
      in (res, snd (db DbStmtClose w1)))"

definition transact :: "'w db \<Rightarrow> ClickHouse \<Rightarrow> StatRecord list \<Rightarrow> 'w \<Rightarrow> gerror option \<times> 'w" where
  "transact db s rs w =
     or_fail ''failed to ping'' (db DbPing w) (\<lambda>w.
     or_fail ''failed to begin'' (db DbBegin w) (\<lambda>w.
     or_fail ''failed to prepare'' (db (DbPrepare (insert_sql (insert_table s))) w) (insert_rows db s rs)))"

text \<open>\<open>s.init.Do\<close>; \<open>sync.Once\<close> counts a failed creation of the table as done.\<close>

definition ensure_table :: "'w db \<Rightarrow> ClickHouse \<times> 'w \<Rightarrow> gerror option \<times> ClickHouse \<times> 'w" where
  "ensure_table db st =
     (case st of (s, w) \<Rightarrow>
      if ch_init s then (None, s, w)
      else case makeTable db s w of (e, w') \<Rightarrow> (e, s\<lparr>ch_init := True\<rparr>, w'))"

text \<open>The body of \<open>store\<close> under the lock.\<close>

definition store_batch :: "'w db \<Rightarrow> StatRecord list \<Rightarrow> ClickHouse \<times> 'w \<Rightarrow> gerror option \<times> ClickHouse \<times> 'w" where
  "store_batch db rs st =
     (case st of (s, w) \<Rightarrow>
      case db DbGet w of
        (Some e, w1) \<Rightarrow> (Some (ErrWrap ''failed to get ClickHouse DB'' e), s, w1)
      | (None, w1) \<Rightarrow>
          (case ensure_table db (s, w1) of
             (Some e, s', w2) \<Rightarrow> (Some (ErrWrap ''failed to create table'' e), s', w2)
           | (None, s', w2) \<Rightarrow> (case transact db s' rs w2 of (res, w3) \<Rightarrow> (res, s', w3))))"

text \<open>\<open>None\<close>: blocked on the mutex. The lock is taken before the empty batch is sorted out and only
  released for others.\<close>

definition store ::
  "'w db \<Rightarrow> StatRecord list \<Rightarrow> ClickHouse \<times> 'w \<Rightarrow> (gerror option \<times> ClickHouse \<times> 'w) option" where
  "store db rs st =
     (case st of (s, w) \<Rightarrow>
      if ch_storeMux s then None
      else if rs = [] then Some (None, s\<lparr>ch_storeMux := True\<rparr>, w)
      else case store_batch db rs (s\<lparr>ch_storeMux := True\<rparr>, w) of
             (res, s', w') \<Rightarrow> Some (res, s'\<lparr>ch_storeMux := False\<rparr>, w'))"

definition CH_Close :: "'w db \<Rightarrow> ClickHouse \<times> 'w \<Rightarrow> (ClickHouse \<times> 'w) option" where
  "CH_Close db st =
     (case store db (ch_batch (fst st)) st of
        None \<Rightarrow> None
      | Some (_, s, w) \<Rightarrow> Some (s\<lparr>ch_batch := []\<rparr>, w))"

section \<open>Adding a record\<close>

definition add_append :: "StatRecord \<Rightarrow> ClickHouse \<Rightarrow> ClickHouse" where
  "add_append sr s = s\<lparr>ch_batch := ch_batch s @ [sr]\<rparr>"

definition add_full :: "ClickHouse \<Rightarrow> bool" where
  "add_full s \<longleftrightarrow> ch_batchSize s \<le> int (length (ch_batch s))"

definition add_reset :: "ClickHouse \<Rightarrow> ClickHouse" where
  "add_reset s = s\<lparr>ch_batch := []\<rparr>"

text \<open>\<open>Add\<close> with nobody else around: the batch it hands to a new goroutine, if any.\<close>

definition Add :: "StatRecord \<Rightarrow> ClickHouse \<Rightarrow> StatRecord list option \<times> ClickHouse" where
  "Add sr s =
     (let s1 = add_append sr s
      in if add_full s1 then (Some (ch_batch s1), add_reset s1) else (None, s1))"

section \<open>The connection\<close>

text \<open>\<open>ClickHouseDB\<close> opens the database once and remembers the result, also a failed one.\<close>

record 'c ClickHouseDB =
  cd_dsn :: string
  cd_once :: "'c outcome option"

definition ClickHouseDB_Get ::
  "(string \<Rightarrow> 'w \<Rightarrow> 'c outcome \<times> 'w) \<Rightarrow> 'c ClickHouseDB \<times> 'w \<Rightarrow> 'c outcome \<times> 'c ClickHouseDB \<times> 'w" where
  "ClickHouseDB_Get sql_open st =
     (case st of (s, w) \<Rightarrow>
      case cd_once s of
        Some r \<Rightarrow> (r, s, w)
      | None \<Rightarrow> (case sql_open (cd_dsn s) w of (r, w1) \<Rightarrow> (r, s\<lparr>cd_once := Some r\<rparr>, w1)))"

definition NewClickHouseDB :: "string \<Rightarrow> 'c ClickHouseDB" where
  "NewClickHouseDB dsn = \<lparr>cd_dsn = dsn, cd_once = None\<rparr>"

text \<open>\<open>sql.Open\<close> returns no connection together with an error.\<close>

definition ClickHouseDB_Close :: "('c \<Rightarrow> 'w \<Rightarrow> 'w) \<Rightarrow> 'c ClickHouseDB \<times> 'w \<Rightarrow> 'c ClickHouseDB \<times> 'w" where
  "ClickHouseDB_Close close st =
     (case st of (s, w) \<Rightarrow> (s, case cd_once s of Some (Ret c) \<Rightarrow> close c w | _ \<Rightarrow> w))"

text \<open>The connection is opened at most once, however often it is asked for.\<close>

lemma ClickHouseDB_opened_once:
  assumes "ClickHouseDB_Get sql_open (s, w) = (r, s', w')"
  shows "ClickHouseDB_Get sql_open' (s', w'') = (r, s', w'')"
  using assms by (auto simp: ClickHouseDB_Get_def split: option.splits prod.splits)

section \<open>What reaches the database\<close>

fun sql_type :: "SqlVal \<Rightarrow> string" where
  "sql_type (VTime _) = ''DateTime''"
| "sql_type (VString _) = ''String''"
| "sql_type (VU64 _) = ''UInt64''"
| "sql_type (VU32 _) = ''UInt32''"
| "sql_type (VU16 _) = ''UInt16''"
| "sql_type (VU8 _) = ''UInt8''"

text \<open>The statements fit together: the insert statement names the columns of the table in their
  order, it has a placeholder for each, and the arguments of every row have the types of the
  columns.\<close>

theorem rows_match_table:
  "concat insert_columns = map fst table_columns \<and> placeholders = length (row_of s r) \<and>
   map sql_type (row_of s r) = map snd table_columns"
  by (simp add: insert_columns_def table_columns_def placeholders_def row_of_def)

text \<open>A database that keeps a log of the calls.\<close>

definition recording :: "'w db \<Rightarrow> ('w \<times> dbcall list) db" where
  "recording db c st = (fst (db c (fst st)), snd (db c (fst st)), snd st @ [c])"

lemma recording_eq: "recording db c (w, l) = (fst (db c w), snd (db c w), l @ [c])"
  by (simp add: recording_def)

definition create_calls :: "ClickHouse \<Rightarrow> dbcall list" where
  "create_calls s =
     (if ch_init s then []
      else DbExec (create_sql (table_expr s) (engine_of s) ''3 MONTH'') #
           (if ch_sharded s then [DbExec (create_all_sql ''proxy_stat'')] else []))"

definition batch_calls :: "ClickHouse \<Rightarrow> StatRecord list \<Rightarrow> dbcall list" where
  "batch_calls s rs =
     DbGet # create_calls s @ [DbPing, DbBegin, DbPrepare (insert_sql (insert_table s))] @
     map (\<lambda>r. DbStmtExec (row_of s r)) rs @ [DbCommit, DbStmtClose]"

lemma exec_rows_log:
  assumes "exec_rows (recording db) s rs (w, l) = (res, w', l')"
  shows "(\<exists>n. l' = l @ map (\<lambda>r. DbStmtExec (row_of s r)) (take n rs)) \<and>
    (res = None \<longrightarrow> l' = l @ map (\<lambda>r. DbStmtExec (row_of s r)) rs) \<and>
    ((\<forall>c w. fst (db c w) = None) \<longrightarrow> res = None)"
  using assms
proof (induction rs arbitrary: w l)
  case (Cons r rs)
  show ?case
  proof (cases "fst (db (DbStmtExec (row_of s r)) w)")
    case None
    then have "exec_rows (recording db) s rs (snd (db (DbStmtExec (row_of s r)) w), l @ [DbStmtExec (row_of s r)]) = (res, w', l')"
      using Cons.prems by (simp add: recording_eq)
    note IH = Cons.IH [OF this]
    then obtain n where "l' = l @ map (\<lambda>r. DbStmtExec (row_of s r)) (take (Suc n) (r # rs))" by auto
    then show ?thesis using IH by (intro conjI) (blast, simp_all)
  next
    case (Some e)
    then show ?thesis using Cons.prems by (auto simp: recording_eq intro: exI [of _ 1])
  qed
qed simp

lemma insert_rows_log:
  assumes "insert_rows (recording db) s rs (w, l) = (res, w', l')"
  shows "(res = None \<or> DbCommit \<in> set l' - set l \<longrightarrow>
      l' = l @ map (\<lambda>r. DbStmtExec (row_of s r)) rs @ [DbCommit, DbStmtClose]) \<and>
    ((\<forall>c w. fst (db c w) = None) \<longrightarrow> res = None)"
proof -
  obtain e w1 l1 where x: "exec_rows (recording db) s rs (w, l) = (e, w1, l1)" by (metis prod_cases3)
  note log = exec_rows_log [OF x]
  then obtain n where n: "l1 = l @ map (\<lambda>r. DbStmtExec (row_of s r)) (take n rs)" by blast
  show ?thesis
  proof (cases e)
    case None
    then show ?thesis using assms x log
      by (auto simp: insert_rows_def or_fail_def recording_eq split: option.splits)
  next
    case (Some a)
    then show ?thesis using assms x log n
      by (auto simp: insert_rows_def recording_eq)
  qed
qed

lemma makeTable_log:
  assumes "makeTable (recording db) s (w, l) = (e, w', l')" "\<not> ch_init s"
  shows "\<exists>cs. l' = l @ cs \<and> DbCommit \<notin> set cs \<and> (e = None \<longrightarrow> cs = create_calls s)"
proof (cases "fst (db (DbExec (create_sql (table_expr s) (engine_of s) ''3 MONTH'')) w)")
  case None
  then show ?thesis using assms by (auto simp: makeTable_def recording_eq create_calls_def split: if_splits)
next
  case (Some x)
  then have "e = Some x" using assms(1) by (simp add: makeTable_def recording_eq)
  then show ?thesis using assms Some by (auto simp: makeTable_def recording_eq)
qed

lemma ensure_table_log:
  assumes "ensure_table (recording db) (s, w, l) = (e, s', w', l')"
  shows "s' = s\<lparr>ch_init := True\<rparr>" "\<exists>cs. l' = l @ cs \<and> DbCommit \<notin> set cs \<and> (e = None \<longrightarrow> cs = create_calls s)"
proof -
  show "s' = s\<lparr>ch_init := True\<rparr>" using assms by (auto simp: ensure_table_def split: if_splits prod.splits)
  show "\<exists>cs. l' = l @ cs \<and> DbCommit \<notin> set cs \<and> (e = None \<longrightarrow> cs = create_calls s)"
    using assms makeTable_log [of db s w l e w' l']
    by (cases "ch_init s") (auto simp: ensure_table_def create_calls_def split: prod.splits)
qed

lemma or_fail_recording:
  "or_fail m (recording db c (w, l)) k =
     (case fst (db c w) of Some e \<Rightarrow> (Some (ErrWrap m e), snd (db c w), l @ [c]) | None \<Rightarrow> k (snd (db c w), l @ [c]))"
  by (simp add: or_fail_def recording_eq split: option.split)

lemma transact_log:
  assumes "transact (recording db) s rs (w, l) = (res, w', l')"
  shows "res = None \<or> DbCommit \<in> set l' - set l \<Longrightarrow>
    l' = l @ [DbPing, DbBegin, DbPrepare (insert_sql (insert_table s))] @
      map (\<lambda>r. DbStmtExec (row_of s r)) rs @ [DbCommit, DbStmtClose]"
  using assms insert_rows_log
  by (fastforce simp: transact_def or_fail_recording split: option.splits)

lemma store_batch_log:
  assumes "store_batch (recording db) rs (s, w, []) = (res, s', w', log)" "res = None \<or> DbCommit \<in> set log"
  shows "log = batch_calls s rs"
proof (cases "fst (db DbGet w)")
  case (Some e)
  then show ?thesis using assms by (auto simp: store_batch_def recording_eq)
next
  case None
  obtain e s2 w2 l2 where en: "ensure_table (recording db) (s, snd (db DbGet w), [DbGet]) = (e, s2, w2, l2)" by (metis prod_cases4)
  note el = ensure_table_log [OF en]
  obtain r w3 l3 where tr: "transact (recording db) s2 rs (w2, l2) = (r, w3, l3)" by (metis prod_cases3)
  obtain cs where cs: "l2 = [DbGet] @ cs" "DbCommit \<notin> set cs" "e = None \<longrightarrow> cs = create_calls s" using el(2) by blast
  have "e = None" using assms None en cs by (cases e) (auto simp: store_batch_def recording_eq)
  then have "res = r" "log = l3" using assms(1) None en tr by (simp_all add: store_batch_def recording_eq)
  then show ?thesis using transact_log [OF tr] assms(2) cs \<open>e = None\<close>
    by (auto simp: batch_calls_def el(1) row_of_def insert_table_def)
qed

text \<open>A database that answers every call without an error.\<close>

definition healthy :: "'w db \<Rightarrow> bool" where
  "healthy db \<longleftrightarrow> (\<forall>c w. fst (db c w) = None)"

lemma healthy_case:
  assumes "healthy db"
  shows "fst (db c w) = None" "or_fail m (db c w) k = k (snd (db c w))"
  using assms by (auto simp: healthy_def or_fail_def case_prod_beta)

lemma healthy_recording: "healthy db \<Longrightarrow> healthy (recording db)"
  by (simp add: healthy_def recording_def)

lemma exec_rows_healthy: "healthy db \<Longrightarrow> fst (exec_rows db s rs w) = None"
  by (induction rs arbitrary: w) (simp_all add: healthy_def case_prod_beta)

lemma insert_rows_healthy: "healthy db \<Longrightarrow> fst (insert_rows db s rs w) = None"
  using exec_rows_healthy [of db s rs w]
  by (cases "exec_rows db s rs w") (simp add: insert_rows_def healthy_case)

lemma ensure_table_healthy: "healthy db \<Longrightarrow> fst (ensure_table db (s, w)) = None"
  by (simp add: ensure_table_def makeTable_def healthy_case case_prod_beta)

lemma store_batch_healthy:
  assumes "healthy db"
  shows "fst (store_batch db rs (s, w)) = None"
proof -
  obtain e s' w' where e: "ensure_table db (s, snd (db DbGet w)) = (e, s', w')" by (metis prod_cases3)
  then have "e = None" using ensure_table_healthy [OF assms, of s "snd (db DbGet w)"] by simp
  moreover have "fst (transact db s' rs w') = None"
    by (simp add: transact_def healthy_case [OF assms] insert_rows_healthy [OF assms])
  ultimately show ?thesis
    using healthy_case(1) [OF assms, of DbGet w] by (simp add: store_batch_def e split_beta split: option.split)
qed

text \<open>C24: Storing a batch is all or nothing: whatever the database answers, \<open>store\<close> reports success or
  commits only after exactly the calls of a complete batch, one execution per record in their order
  in a single transaction; a database that answers every call gets all of them; and the lock is
  released for the next batch.\<close>

theorem store_commits_batch:
  assumes "store (recording db) rs (s, w, []) = Some (res, s', w', log)" "rs \<noteq> []"
  shows "(res = None \<or> DbCommit \<in> set log \<longrightarrow> log = batch_calls s rs) \<and> (healthy db \<longrightarrow> res = None) \<and>
    \<not> ch_storeMux s'"
proof -
  let ?s = "s\<lparr>ch_storeMux := True\<rparr>"
  obtain r s1 w1 l1 where b: "store_batch (recording db) rs (?s, w, []) = (r, s1, w1, l1)" by (metis prod_cases4)
  have eq: "res = r" "log = l1" "s' = s1\<lparr>ch_storeMux := False\<rparr>"
    using assms b by (auto simp: store_def split: if_splits)
  have "batch_calls ?s rs = batch_calls s rs"
    by (simp add: batch_calls_def create_calls_def table_expr_def engine_of_def insert_table_def row_of_def)
  then have "res = None \<or> DbCommit \<in> set log \<longrightarrow> log = batch_calls s rs" using store_batch_log [OF b] by (simp add: eq)
  moreover have "healthy db \<longrightarrow> res = None" using store_batch_healthy [OF healthy_recording, of db rs ?s "(w, [])"] by (simp add: b eq)
  ultimately show ?thesis by (simp add: eq)
qed

definition demo_record :: StatRecord where
  "demo_record = \<lparr>sr_Timestamp = 0, sr_ApiKey = ''k'', sr_BytesWritten = 10, sr_TTFB = 1, sr_Duration = 2, sr_Path = ''/f'',
     sr_InfoHash = ''00000'', sr_OriginalPath = ''/f'', sr_SessionID = ''s1'', sr_Domain = ''default'', sr_Status = 206,
     sr_GroupedStatus = 200, sr_Edge = ''default'', sr_Source = ''external'', sr_Role = ''nobody'', sr_Ads = False\<rparr>"

theorem store_commits_batch_witness:
  "\<exists>s' w' log. store (recording (\<lambda>c w. (None, w))) [demo_record] (NewClickHouse 1 ''n'' False False, (), []) = Some (None, s', w', log) \<and>
     log = batch_calls (NewClickHouse 1 ''n'' False False) [demo_record] \<and> \<not> ch_storeMux s'"
proof -
  let ?db = "\<lambda>c w. (None :: gerror option, w :: unit)" and ?s = "NewClickHouse 1 ''n'' False False"
  have h: "healthy ?db" by (simp add: healthy_def)
  have "\<not> ch_storeMux ?s" by (simp add: NewClickHouse_def)
  then obtain res s' w' log where st: "store (recording ?db) [demo_record] (?s, (), []) = Some (res, s', w', log)"
    by (cases "store_batch (recording ?db) [demo_record] (?s\<lparr>ch_storeMux := True\<rparr>, (), [])") (auto simp: store_def)
  from store_commits_batch [OF st] h st show ?thesis by auto
qed

lemma insert_rows_no_exec:
  assumes "insert_rows (recording db) s rs (w, l) = (res, w', l')" "DbExec q \<notin> set l"
  shows "DbExec q \<notin> set l'"
proof -
  obtain e w1 l1 where x: "exec_rows (recording db) s rs (w, l) = (e, w1, l1)" by (metis prod_cases3)
  then have "DbExec q \<notin> set l1" using exec_rows_log [OF x] assms(2) by auto
  then show ?thesis
    using assms(1) x by (auto simp: insert_rows_def or_fail_def recording_eq split: option.splits)
qed

lemma transact_no_exec:
  assumes "transact (recording db) s rs (w, l) = (res, w', l')" "DbExec q \<notin> set l"
  shows "DbExec q \<notin> set l'"
  using assms insert_rows_no_exec
  by (fastforce simp: transact_def or_fail_recording split: option.splits)

lemma store_batch_no_exec:
  assumes "store_batch (recording db) rs (s, w, []) = (res, s', w', log)" "ch_init s"
  shows "DbExec q \<notin> set log"
proof (cases "fst (db DbGet w)")
  case None
  obtain r w2 l2 where tr: "transact (recording db) s rs (snd (db DbGet w), [DbGet]) = (r, w2, l2)" by (metis prod_cases3)
  then have "log = l2" using assms None by (simp add: store_batch_def recording_eq ensure_table_def)
  then show ?thesis using transact_no_exec [OF tr] by simp
qed (use assms in \<open>auto simp: store_batch_def recording_eq\<close>)

text \<open>The table is created at most once, also if that failed: after a batch that reached the database
  no later batch creates it.\<close>

theorem table_created_once:
  assumes "store db rs (s, w) = Some (res, s', w')" "rs \<noteq> []" "fst (db DbGet w) = None"
    and "store (recording db2) rs2 (s', w2, []) = Some (res2, s2, w3, log)" "rs2 \<noteq> []"
  shows "DbExec q \<notin> set log"
proof -
  have init: "ch_init s'"
    using assms(1-3) by (auto simp: store_def store_batch_def ensure_table_def split: if_splits prod.splits option.splits)
  obtain r s1 w1 l1 where b: "store_batch (recording db2) rs2 (s'\<lparr>ch_storeMux := True\<rparr>, w2, []) = (r, s1, w1, l1)" by (metis prod_cases4)
  then have "log = l1" using assms(4,5) by (auto simp: store_def split: if_splits)
  then show ?thesis using store_batch_no_exec [OF b] init by simp
qed

section \<open>Conservation of records\<close>

text \<open>A sequence of calls of \<open>Add\<close>, one after the other.\<close>

fun add_all :: "StatRecord list \<Rightarrow> ClickHouse \<Rightarrow> StatRecord list list \<times> ClickHouse" where
  "add_all [] s = ([], s)"
| "add_all (r # rs) s =
     (let (b, s1) = Add r s; (bs, s2) = add_all rs s1
      in (case b of Some x \<Rightarrow> x # bs | None \<Rightarrow> bs, s2))"

text \<open>C25: Records added one after the other are neither lost nor duplicated nor reordered: the batches
  handed over and the one being filled make up exactly the records added, every batch handed over
  has the configured size and the one being filled is smaller.\<close>

theorem adds_conserve:
  assumes "int (length (ch_batch s)) < ch_batchSize s"
  shows "concat (fst (add_all rs s)) @ ch_batch (snd (add_all rs s)) = ch_batch s @ rs \<and>
    (\<forall>b \<in> set (fst (add_all rs s)). int (length b) = ch_batchSize s) \<and>
    int (length (ch_batch (snd (add_all rs s)))) < ch_batchSize s"
  using assms
proof (induction rs arbitrary: s)
  case (Cons r rs)
  let ?s = "snd (Add r s)"
  have sz: "int (length (ch_batch ?s)) < ch_batchSize ?s" "ch_batchSize ?s = ch_batchSize s"
    using Cons.prems by (auto simp: Add_def Let_def add_append_def add_full_def add_reset_def)
  note IH = Cons.IH [OF sz(1)]
  show ?case
  proof (cases "add_full (add_append r s)")
    case True
    then have "int (length (ch_batch s @ [r])) = ch_batchSize s" "fst (Add r s) = Some (ch_batch s @ [r])" "ch_batch ?s = []"
      using Cons.prems by (auto simp: Add_def Let_def add_append_def add_full_def add_reset_def)
    then show ?thesis using IH sz by (simp add: case_prod_beta)
  next
    case False
    then have "fst (Add r s) = None" "ch_batch ?s = ch_batch s @ [r]"
      by (auto simp: Add_def Let_def add_append_def)
    then show ?thesis using IH sz by (simp add: case_prod_beta)
  qed
qed simp

theorem adds_conserve_witness:
  "concat (fst (add_all [demo_record, demo_record, demo_record] (NewClickHouse 2 ''n'' False False))) @
     ch_batch (snd (add_all [demo_record, demo_record, demo_record] (NewClickHouse 2 ''n'' False False))) =
   [demo_record, demo_record, demo_record]"
  using adds_conserve [of "NewClickHouse 2 ''n'' False False" "[demo_record, demo_record, demo_record]"]
  by (simp add: NewClickHouse_def)

section \<open>Concurrent calls of Add\<close>

text \<open>
  \<open>Add\<close> reads the batch outside of its mutex. A call is in one of three places: it has appended its
  record, it has found the batch full, or it has handed the batch over. \<open>ad_in\<close> are the records added,
  \<open>ad_out\<close> the batches handed over.
\<close>

datatype add_pc = Appended | Full | Handed

record Adders =
  ad_ch :: ClickHouse
  ad_pcs :: "add_pc multiset"
  ad_in :: "StatRecord list"
  ad_out :: "StatRecord list list"

inductive add_step :: "Adders \<Rightarrow> Adders \<Rightarrow> bool" where
  append: "add_step a (a\<lparr>ad_ch := add_append r (ad_ch a), ad_pcs := add_mset Appended (ad_pcs a), ad_in := ad_in a @ [r]\<rparr>)"
| full: "\<lbrakk>ad_pcs a = add_mset Appended M; add_full (ad_ch a)\<rbrakk> \<Longrightarrow> add_step a (a\<lparr>ad_pcs := add_mset Full M\<rparr>)"
| not_full: "\<lbrakk>ad_pcs a = add_mset Appended M; \<not> add_full (ad_ch a)\<rbrakk> \<Longrightarrow> add_step a (a\<lparr>ad_pcs := M\<rparr>)"
| hand_over: "ad_pcs a = add_mset Full M \<Longrightarrow>
    add_step a (a\<lparr>ad_pcs := add_mset Handed M, ad_out := ad_out a @ [ch_batch (ad_ch a)]\<rparr>)"
| reset: "ad_pcs a = add_mset Handed M \<Longrightarrow> add_step a (a\<lparr>ad_ch := add_reset (ad_ch a), ad_pcs := M\<rparr>)"

definition adders_init :: "int \<Rightarrow> Adders" where
  "adders_init n = \<lparr>ad_ch = NewClickHouse n ''n'' False False, ad_pcs = {#}, ad_in = [], ad_out = []\<rparr>"

text \<open>A schedule is a list of the steps that are taken.\<close>

datatype move = MAppend StatRecord | MFull | MNotFull | MHandOver | MReset

fun do_move :: "move \<Rightarrow> Adders \<Rightarrow> Adders option" where
  "do_move (MAppend r) a =
     Some (a\<lparr>ad_ch := add_append r (ad_ch a), ad_pcs := add_mset Appended (ad_pcs a), ad_in := ad_in a @ [r]\<rparr>)"
| "do_move MFull a =
     (if Appended \<in># ad_pcs a \<and> add_full (ad_ch a)
      then Some (a\<lparr>ad_pcs := add_mset Full (ad_pcs a - {#Appended#})\<rparr>) else None)"
| "do_move MNotFull a =
     (if Appended \<in># ad_pcs a \<and> \<not> add_full (ad_ch a)
      then Some (a\<lparr>ad_pcs := ad_pcs a - {#Appended#}\<rparr>) else None)"
| "do_move MHandOver a =
     (if Full \<in># ad_pcs a
      then Some (a\<lparr>ad_pcs := add_mset Handed (ad_pcs a - {#Full#}), ad_out := ad_out a @ [ch_batch (ad_ch a)]\<rparr>) else None)"
| "do_move MReset a =
     (if Handed \<in># ad_pcs a
      then Some (a\<lparr>ad_ch := add_reset (ad_ch a), ad_pcs := ad_pcs a - {#Handed#}\<rparr>) else None)"

fun do_moves :: "move list \<Rightarrow> Adders \<Rightarrow> Adders option" where
  "do_moves [] a = Some a"
| "do_moves (m # ms) a = (case do_move m a of None \<Rightarrow> None | Some b \<Rightarrow> do_moves ms b)"

lemma do_move_step: "do_move m a = Some b \<Longrightarrow> add_step a b"
  by (cases m) (auto split: if_splits intro!: add_step.append intro: add_step.full add_step.not_full add_step.hand_over add_step.reset)

lemma do_moves_steps: "do_moves ms a = Some b \<Longrightarrow> add_step\<^sup>*\<^sup>* a b"
  by (induction ms arbitrary: a) (auto split: option.splits intro: converse_rtranclp_into_rtranclp do_move_step)

text \<open>Every record of a batch that is handed over or being filled was added, whatever the schedule.\<close>

theorem adds_invent_nothing:
  assumes "add_step\<^sup>*\<^sup>* (adders_init n) a"
  shows "set (concat (ad_out a)) \<union> set (ch_batch (ad_ch a)) \<subseteq> set (ad_in a)"
  using assms
proof (induction rule: rtranclp_induct)
  case (step a b)
  from step(2) show ?case
    by cases (use step(3) in \<open>auto simp: add_append_def add_reset_def\<close>)
qed (simp add: adders_init_def NewClickHouse_def)

lemmas add_ops = adders_init_def NewClickHouse_def add_append_def add_reset_def add_full_def

lemma store_empty_locks: "store db [] (s, w) = Some (e, s', w') \<Longrightarrow> store db' rs (s', w'') = None"
  by (auto simp: store_def split: if_splits)

text \<open>C39: Concurrent calls of \<open>Add\<close> go wrong in three ways. A record that is appended between the hand-over
  and the reset is lost; two calls that both find the batch full hand it over twice, or the
  second hands over an empty batch. Storing an empty batch takes the lock for good: every later
  batch blocks.\<close>

theorem concurrent_adds_race:
  "(\<exists>a. add_step\<^sup>*\<^sup>* (adders_init 1) a \<and> ad_pcs a = {#} \<and> ad_in a = [x, y] \<and> ad_out a = [[x]] \<and> ch_batch (ad_ch a) = []) \<and>
   (\<exists>a. add_step\<^sup>*\<^sup>* (adders_init 1) a \<and> ad_pcs a = {#} \<and> ad_in a = [x, y] \<and> ad_out a = [[x, y], [x, y]]) \<and>
   (\<exists>a. add_step\<^sup>*\<^sup>* (adders_init 1) a \<and> ad_pcs a = {#} \<and> ad_in a = [x, y] \<and> ad_out a = [[x, y], []]) \<and>
   (store db [] (s, w) = Some (e, s', w') \<longrightarrow> store db' rs (s', w'') = None)"
proof (intro conjI)
  have "do_moves [MAppend x, MFull, MHandOver, MAppend y, MReset, MNotFull] (adders_init 1) =
    Some \<lparr>ad_ch = (NewClickHouse 1 ''n'' False False), ad_pcs = {#}, ad_in = [x, y], ad_out = [[x]]\<rparr>"
    by (simp add: add_ops)
  then show "\<exists>a. add_step\<^sup>*\<^sup>* (adders_init 1) a \<and> ad_pcs a = {#} \<and> ad_in a = [x, y] \<and> ad_out a = [[x]] \<and> ch_batch (ad_ch a) = []"
    by - (rule exI, rule conjI, erule do_moves_steps, simp add: NewClickHouse_def)
  have "do_moves [MAppend x, MAppend y, MFull, MHandOver, MFull, MHandOver, MReset, MReset] (adders_init 1) =
    Some \<lparr>ad_ch = (NewClickHouse 1 ''n'' False False), ad_pcs = {#}, ad_in = [x, y], ad_out = [[x, y], [x, y]]\<rparr>"
    by (simp add: add_ops)
  then show "\<exists>a. add_step\<^sup>*\<^sup>* (adders_init 1) a \<and> ad_pcs a = {#} \<and> ad_in a = [x, y] \<and> ad_out a = [[x, y], [x, y]]"
    by - (rule exI, rule conjI, erule do_moves_steps, simp)
  have "do_moves [MAppend x, MAppend y, MFull, MFull, MHandOver, MReset, MHandOver, MReset] (adders_init 1) =
    Some \<lparr>ad_ch = (NewClickHouse 1 ''n'' False False), ad_pcs = {#}, ad_in = [x, y], ad_out = [[x, y], []]\<rparr>"
    by (simp add: add_ops)
  then show "\<exists>a. add_step\<^sup>*\<^sup>* (adders_init 1) a \<and> ad_pcs a = {#} \<and> ad_in a = [x, y] \<and> ad_out a = [[x, y], []]"
    by - (rule exI, rule conjI, erule do_moves_steps, simp)
qed (intro impI, erule store_empty_locks)

theorem concurrent_adds_race_witness:
  "store (\<lambda>c w. (None, w)) [demo_record] (fst (snd (the (store (\<lambda>c w. (None, w)) [] (NewClickHouse 1 ''n'' False False, ())))), ()) = None \<and>
   (\<exists>a. add_step\<^sup>*\<^sup>* (adders_init 1) a \<and> ad_in a = [demo_record, demo_record] \<and> ad_out a = [[demo_record, demo_record], []])"
proof -
  let ?db = "\<lambda>c w. (None :: gerror option, w :: unit)" and ?s = "NewClickHouse 1 ''n'' False False"
  have "store ?db [] (?s, ()) = Some (None, ?s\<lparr>ch_storeMux := True\<rparr>, ())" by (simp add: store_def NewClickHouse_def)
  with concurrent_adds_race [of demo_record demo_record ?db ?s "()" None "?s\<lparr>ch_storeMux := True\<rparr>" "()" ?db "[demo_record]" "()"]
  show ?thesis by auto
qed

end
