(* ===== verification/Web_Handlers.thy ===== *)
theory Web_Handlers
  imports Web ClickHouse
begin

text \<open>
  The rest of the web server (\<open>services/web.go\<close>): the routes and the debug page, the record of a finished
  request that goes to ClickHouse, and the speed test (\<open>services/speedtest.go\<close>).
\<close>

section \<open>Routes\<close>

datatype route = RDebug | RSpeedtest | RRoot

text \<open>The patterns of the mux have no trailing slash, so they match one path each.\<close>

definition route_of :: "string \<Rightarrow> route" where
  "route_of path = (if path = ''/debug'' then RDebug else if path = ''/speedtest'' then RSpeedtest else RRoot)"

datatype ifaddr = IPNet IP | IPAddr IP | OtherAddr

fun last_ip :: "ifaddr list \<Rightarrow> IP option \<Rightarrow> IP option" where
  "last_ip [] ip = ip"
| "last_ip (IPNet v # as) ip = last_ip as (Some v)"
| "last_ip (IPAddr v # as) ip = last_ip as (Some v)"
| "last_ip (OtherAddr # as) ip = last_ip as ip"

definition debug_page :: "'w SLib \<Rightarrow> IP option \<Rightarrow> Inbound \<Rightarrow> string" where
  "debug_page e ip r =
     ''Current ip:'' @ [CHR 0x09] @ ip_string e ip @ [CHR 0x0A] @
     ''Remote addr:'' @ [CHR 0x09] @ ib_RemoteAddr r @ [CHR 0x0A]"

text \<open>Listening; the listener is kept for \<open>Close\<close>.\<close>

definition Serve :: "(string \<Rightarrow> 'w \<Rightarrow> 'l outcome \<times> 'w) \<Rightarrow> string \<Rightarrow> int \<Rightarrow> 'w \<Rightarrow> 'l outcome \<times> 'w" where
  "Serve listen host port w =
     (case listen (host @ '':'' @ show_int port) w of
        (r, w') \<Rightarrow> (wrap_err ''failed to web listen to tcp connection'' r, w'))"

section \<open>The record of a request\<close>

definition role_of :: "MapClaims \<Rightarrow> string" where
  "role_of claims = (case claim_str claims ''role'' of Some r \<Rightarrow> r | None \<Rightarrow> ''nobody'')"

definition domain_of :: "MapClaims \<Rightarrow> string" where
  "domain_of claims = (case claim_str claims ''domain'' of Some d \<Rightarrow> d | None \<Rightarrow> ''default'')"

definition ads_of :: "MapClaims \<Rightarrow> bool" where
  "ads_of claims = (case as_bool (claim claims ''ads'') of Some b \<Rightarrow> b | None \<Rightarrow> False)"

definition source_of :: "Inbound \<Rightarrow> string" where
  "source_of r = (if is_external r then ''external'' else ''internal'')"

definition millisec :: "int \<Rightarrow> int" where
  "millisec d = quot d (10 ^ 6)"

definition stat_record :: "MapClaims \<Rightarrow> Source \<Rightarrow> Inbound \<Rightarrow> RWI \<Rightarrow> int \<Rightarrow> StatRecord" where
  "stat_record claims src r wi now =
     \<lparr>sr_Timestamp = now, sr_ApiKey = query_of r ''api-key'', sr_BytesWritten = word_of_int (wi_bytesWritten wi),
      sr_TTFB = word_of_int (millisec (wi_ttfb wi)), sr_Duration = word_of_int (millisec (now - wi_start wi)),
      sr_Path = s_Path src, sr_InfoHash = s_InfoHash src, sr_OriginalPath = s_OriginPath src,
      sr_SessionID = str_claim claims ''sessionID'', sr_Domain = domain_of claims,
      sr_Status = word_of_int (wi_statusCode wi), sr_GroupedStatus = word_of_int (GroupedStatusCode wi),
      sr_Edge = GetEdgeName src, sr_Source = source_of r, sr_Role = role_of claims, sr_Ads = ads_of claims\<rparr>"

text \<open>The deferred functions of \<open>proxyHTTP\<close> in the order they run: the record first, then the release of
  the limiter. The result is the batch handed over for storing, if any.\<close>

definition record_request ::
  "ClickHouse option \<Rightarrow> MapClaims \<Rightarrow> Source \<Rightarrow> Inbound \<Rightarrow> RWI \<Rightarrow> int \<Rightarrow> StatRecord list option \<times> ClickHouse option" where
  "record_request ch claims src r wi now =
     (case ch of
        Some c \<Rightarrow>
          if 0 < wi_bytesWritten wi \<and> GroupedStatusCode wi = 200
          then (case Add (stat_record claims src r wi now) c of (b, c') \<Rightarrow> (b, Some c'))
          else (None, ch)
      | None \<Rightarrow> (None, ch))"

definition request_end ::
  "MapClaims \<Rightarrow> Source \<Rightarrow> Inbound \<Rightarrow> RWI \<Rightarrow> int \<Rightarrow> ticket option \<Rightarrow> ClickHouse option \<times> LState \<Rightarrow>
   StatRecord list option \<times> ClickHouse option \<times> LState" where
  "request_end claims src r wi now t st =
     (case st of (ch, ls) \<Rightarrow>
      case record_request ch claims src r wi now of (b, ch') \<Rightarrow> (b, ch', proxy_end t ls))"

lemma grouped_200: "0 \<le> wi_statusCode w \<Longrightarrow> GroupedStatusCode w = 200 \<longleftrightarrow> 200 \<le> wi_statusCode w \<and> wi_statusCode w < 300"
  by (simp add: GroupedStatusCode_def quot_pos) presburger

text \<open>C34: A request leaves a record exactly if bytes of its body were written and its status is 2xx, and the
  record has the number of bytes that were handed to the client's connection; the limiter is released
  in any case.\<close>

theorem request_recorded:
  assumes "wi = fold run_op ops ((NewResponseWriterInterceptor [] start)\<lparr>wi_resolve := True\<rparr>)" "0 \<le> wi_statusCode wi"
    and "request_end claims src r wi now t (Some ch, ls) = (b, Some ch', ls')"
  shows "ls' = proxy_end t ls \<and>
    (if written (wi_out wi) \<noteq> [] \<and> 200 \<le> wi_statusCode wi \<and> wi_statusCode wi < 300
     then \<exists>sr :: StatRecord. (b, ch') = Add sr ch \<and> sr_BytesWritten sr = of_nat (length (written (wi_out wi))) \<and>
            sr_InfoHash sr = s_InfoHash src \<and> sr_SessionID sr = str_claim claims ''sessionID''
     else b = None \<and> ch' = ch)"
proof -
  have "counted wi" unfolding assms(1) by (rule interceptor_counts_bytes) simp
  then have n: "wi_bytesWritten wi = int (length (written (wi_out wi)))" by (simp add: counted_def)
  let ?sr = "stat_record claims src r wi now"
  have "sr_BytesWritten ?sr = of_nat (length (written (wi_out wi)))" "sr_InfoHash ?sr = s_InfoHash src"
      "sr_SessionID ?sr = str_claim claims ''sessionID''"
    by (simp_all add: stat_record_def n)
  moreover have "0 < wi_bytesWritten wi \<longleftrightarrow> written (wi_out wi) \<noteq> []" by (simp add: n)
  ultimately show ?thesis
    using assms(3)
    by (auto simp: request_end_def record_request_def grouped_200 [OF assms(2)] intro!: exI [of _ ?sr] split: if_splits prod.splits)
qed

definition demo_wi :: RWI where
  "demo_wi = fold run_op [OpHeader 206, OpWrite 5 ''abc''] ((NewResponseWriterInterceptor [] 0)\<lparr>wi_resolve := True\<rparr>)"

theorem request_recorded_witness:
  "\<exists>b ch' ls'. \<exists>sr :: StatRecord. request_end None demo_source demo_inbound demo_wi 9 None
      (Some (NewClickHouse 10 ''n'' False False), init_state) = (b, Some ch', ls') \<and>
    (b, ch') = Add sr (NewClickHouse 10 ''n'' False False) \<and> sr_BytesWritten sr = 3"
proof -
  have wi: "wi_statusCode demo_wi = 206" "written (wi_out demo_wi) = ''abc''" "wi_bytesWritten demo_wi = 3"
      "GroupedStatusCode demo_wi = 200"
    by (simp_all add: demo_wi_def NewResponseWriterInterceptor_def RWI_WriteHeader_def RWI_Write_def GroupedStatusCode_def quot_def)
  obtain b ch' ls' where e: "request_end None demo_source demo_inbound demo_wi 9 None
      (Some (NewClickHouse 10 ''n'' False False), init_state) = (b, Some ch', ls')"
    by (cases "Add (stat_record None demo_source demo_inbound demo_wi 9) (NewClickHouse 10 ''n'' False False)")
      (simp add: request_end_def record_request_def wi)
  from request_recorded [OF demo_wi_def _ e] e show ?thesis by (auto simp: wi)
qed

section \<open>Speed test\<close>

definition speedtestDefaultSize :: int where
  "speedtestDefaultSize = 10 * 1024 * 1024"

definition speedtestMinSize :: int where
  "speedtestMinSize = 1 * 1024 * 1024"

definition speedtestMaxSize :: int where
  "speedtestMaxSize = 50 * 1024 * 1024"

definition speedtest_size :: "string \<Rightarrow> int" where
  "speedtest_size sizeStr =
     (let size0 = (if sizeStr = [] then speedtestDefaultSize
                   else case parse_int 10 sizeStr of Some parsed \<Rightarrow> parsed | None \<Rightarrow> speedtestDefaultSize);
          size1 = (if size0 < speedtestMinSize then speedtestMinSize else size0)
      in if speedtestMaxSize < size1 then speedtestMaxSize else size1)"

text \<open>\<open>zeroReader.Read\<close> on a buffer, and the limit put on it: \<open>None\<close> is the end of the stream.\<close>

definition zero_read :: "nat \<Rightarrow> string" where
  "zero_read len = replicate len (CHR 0x00)"

definition limited_read :: "nat \<Rightarrow> nat \<Rightarrow> (string \<times> nat) option" where
  "limited_read len n = (if n = 0 then None else let k = min len n in Some (zero_read k, n - k))"

text \<open>\<open>io.Copy\<close> with a buffer of \<open>b\<close> bytes; the writer answers with nil or an error.\<close>

function copy_zeros ::
  "(string \<Rightarrow> 'w \<Rightarrow> gerror option \<times> 'w) \<Rightarrow> nat \<Rightarrow> nat \<Rightarrow> nat \<Rightarrow> 'w \<Rightarrow> nat \<times> gerror option \<times> 'w" where
  "copy_zeros wr b n done w =
     (if b = 0 then (done, None, w)
      else case limited_read b n of
        None \<Rightarrow> (done, None, w)
      | Some (d, n') \<Rightarrow>
          (case wr d w of
             (Some e, w') \<Rightarrow> (done, Some e, w')
           | (None, w') \<Rightarrow> copy_zeros wr b n' (done + length d) w'))"
  by pat_completeness auto
termination
  by (relation "measure (\<lambda>(wr, b, n, d, w). n)") (auto simp: limited_read_def Let_def split: if_splits)

declare copy_zeros.simps [simp del]

datatype 'w speed = Refused int | Crashed panic | Streamed Header nat "gerror option" 'w

definition speed_headers :: "int \<Rightarrow> Header" where
  "speed_headers size' =
     set_headers [(''Access-Control-Allow-Origin'', ''*''), (''Content-Type'', ''application/octet-stream''),
       (''Content-Length'', show_int size'), (''Cache-Control'', ''no-store'')] fmempty"

definition handleSpeedtest ::
  "'w0 WebLib \<Rightarrow> WebServer \<Rightarrow> Inbound \<Rightarrow> (string \<Rightarrow> 'w \<Rightarrow> gerror option \<times> 'w) \<Rightarrow> 'w \<Rightarrow> 'w speed" where
  "handleSpeedtest lib s r wr w =
     (case Get (ws_claims s) (wl_jwt lib) (wl_wrapf lib) (query_of r ''token'') (query_of r ''api-key'') of
        Fail x \<Rightarrow> Refused 403
      | Panic k \<Rightarrow> Crashed k
      | Ret claims \<Rightarrow>
          (let n = speedtest_size (query_of r ''size'') in
           case copy_zeros wr 32768 (nat n) 0 w of (m, e, w') \<Rightarrow> Streamed (speed_headers n) m e w'))"

lemma speedtest_size_bounds: "speedtestMinSize \<le> speedtest_size q" "speedtest_size q \<le> speedtestMaxSize"
  by (auto simp: speedtest_size_def Let_def speedtestMinSize_def speedtestMaxSize_def)

lemma copy_zeros_all:
  assumes "0 < b"
  shows "copy_zeros (\<lambda>d w. (None, w @ d)) b n m w = (m + n, None, w @ zero_read n)"
  using assms
proof (induction n arbitrary: m w rule: less_induct)
  case (less n)
  show ?case
  proof (cases "n = 0")
    case True
    then show ?thesis using less.prems by (simp add: copy_zeros.simps [of _ b] limited_read_def zero_read_def)
  next
    case False
    let ?k = "min b n"
    have "copy_zeros (\<lambda>d w. (None, w @ d)) b (n - ?k) (m + ?k) (w @ zero_read ?k) =
        (m + ?k + (n - ?k), None, (w @ zero_read ?k) @ zero_read (n - ?k))"
      using less.IH [of "n - ?k"] less.prems False by auto
    moreover have "zero_read ?k @ zero_read (n - ?k) = zero_read n" by (simp add: zero_read_def flip: replicate_add)
    ultimately show ?thesis
      using False less.prems by (simp add: copy_zeros.simps [of _ b n] limited_read_def Let_def zero_read_def)
  qed
qed

text \<open>The speed test is for authorised clients and ends: with valid credentials and a client that
  takes the data, whatever size is asked for, exactly as many zero bytes are written as
  \<open>Content-Length\<close> says, between 1 and 50 MB; without, nothing is written.\<close>

theorem speedtest_streams:
  "case Get (ws_claims s) (wl_jwt lib) (wl_wrapf lib) (query_of r ''token'') (query_of r ''api-key'') of
     Ret claims \<Rightarrow>
       \<exists>n. speedtestMinSize \<le> int n \<and> int n \<le> speedtestMaxSize \<and>
         handleSpeedtest lib s r (\<lambda>d w. (None, w @ d)) [] = Streamed (speed_headers (int n)) n None (zero_read n) \<and>
         header_get (speed_headers (int n)) ''Content-Length'' = show_int (int n)
   | Fail x \<Rightarrow> handleSpeedtest lib s r wr w = Refused 403
   | Panic k \<Rightarrow> handleSpeedtest lib s r wr w = Crashed k"
proof (cases "Get (ws_claims s) (wl_jwt lib) (wl_wrapf lib) (query_of r ''token'') (query_of r ''api-key'')")
  case (Ret claims)
  let ?n = "nat (speedtest_size (query_of r ''size''))"
  have n: "int ?n = speedtest_size (query_of r ''size'')"
    using speedtest_size_bounds(1) [of "query_of r ''size''"] by (simp add: speedtestMinSize_def)
  have keys: "canonical_key ''Access-Control-Allow-Origin'' = ''Access-Control-Allow-Origin''"
      "canonical_key ''Content-Type'' = ''Content-Type''" "canonical_key ''Content-Length'' = ''Content-Length''"
      "canonical_key ''Cache-Control'' = ''Cache-Control''"
    by code_simp+
  have "header_get (speed_headers (int ?n)) ''Content-Length'' = show_int (int ?n)"
    by (simp add: speed_headers_def keys)
  moreover have "handleSpeedtest lib s r (\<lambda>d w. (None, w @ d)) [] = Streamed (speed_headers (int ?n)) ?n None (zero_read ?n)"
    using n by (simp add: handleSpeedtest_def Ret Let_def copy_zeros_all)
  ultimately show ?thesis
    using n speedtest_size_bounds [of "query_of r ''size''"] by (simp only: Ret outcome.case) (metis n)
qed (simp_all add: handleSpeedtest_def)

end
