(* ===== verification/Access_History.thy ===== *)
theory Access_History
  imports Prelude "HOL-Library.Multiset"
begin

text \<open>
  The access history (\<open>services/access_history.go\<close>): for each original client (address and user agent)
  the first few other clients that use its access, forgotten after a fixed time. The goroutine that waits
  and deletes an entry is a pending timer of the state; the hash of \<open>crypto/sha1\<close> in hexadecimal is an
  argument. Times are nanoseconds.
\<close>

definition accessHistoryLimit :: int where
  "accessHistoryLimit = 5"

definition accessHistoryExpire :: int where
  "accessHistoryExpire = 3 * 3600 * 10 ^ 9"

record AccessHistory =
  ah_m :: "(string, string list) gomap"
  ah_limit :: int
  ah_expire :: int
  ah_timers :: "(string \<times> int) multiset"

definition NewAccessHistory :: AccessHistory where
  "NewAccessHistory = \<lparr>ah_m = fmempty, ah_limit = accessHistoryLimit, ah_expire = accessHistoryExpire, ah_timers = {#}\<rparr>"

text \<open>The entry of a key is created, with its timer, when it is missing.\<close>

definition open_entry :: "int \<Rightarrow> string \<Rightarrow> AccessHistory \<Rightarrow> AccessHistory" where
  "open_entry now okey s =
     (case fmlookup (ah_m s) okey of
        Some _ \<Rightarrow> s
      | None \<Rightarrow> s\<lparr>ah_m := fmupd okey [] (ah_m s), ah_timers := add_mset (okey, now + ah_expire s) (ah_timers s)\<rparr>)"

definition entry :: "AccessHistory \<Rightarrow> string \<Rightarrow> string list" where
  "entry s k = (case fmlookup (ah_m s) k of Some vs \<Rightarrow> vs | None \<Rightarrow> [])"

definition Store ::
  "(string \<Rightarrow> string) \<Rightarrow> int \<Rightarrow> string \<Rightarrow> string \<Rightarrow> string \<Rightarrow> string \<Rightarrow> AccessHistory \<Rightarrow> (bool \<times> int) \<times> AccessHistory" where
  "Store sha1 now oip oua nip nua s =
     (let okey = sha1 (oip @ oua);
          nkey = sha1 (nip @ nua);
          s1 = open_entry now okey s;
          vs = entry s1 okey
      in if nkey \<in> set vs then ((True, ah_limit s1 - int (length vs)), s1)
         else if ah_limit s1 \<le> int (length vs) then ((False, 0), s1)
         else ((True, ah_limit s1 - int (length (vs @ [nkey]))), s1\<lparr>ah_m := fmupd okey (vs @ [nkey]) (ah_m s1)\<rparr>))"

text \<open>A timer fires at its time or later.\<close>

definition expire_entry :: "string \<times> int \<Rightarrow> AccessHistory \<Rightarrow> AccessHistory" where
  "expire_entry e s = s\<lparr>ah_m := fmdrop (fst e) (ah_m s), ah_timers := ah_timers s - {#e#}\<rparr>"

inductive ah_step :: "(string \<Rightarrow> string) \<Rightarrow> AccessHistory \<times> int \<Rightarrow> AccessHistory \<times> int \<Rightarrow> bool" for sha1 where
  stored: "\<lbrakk>t \<le> now; Store sha1 now oip oua nip nua s = (r, s')\<rbrakk> \<Longrightarrow> ah_step sha1 (s, t) (s', now)"
| expired: "\<lbrakk>t \<le> now; (k, due) \<in># ah_timers s; due \<le> now\<rbrakk> \<Longrightarrow> ah_step sha1 (s, t) (expire_entry (k, due) s, now)"

section \<open>Properties\<close>

definition ah_inv :: "AccessHistory \<Rightarrow> bool" where
  "ah_inv s \<longleftrightarrow> 0 \<le> ah_limit s \<and>
     (\<forall>k vs. fmlookup (ah_m s) k = Some vs \<longrightarrow> distinct vs \<and> int (length vs) \<le> ah_limit s) \<and>
     (\<forall>k. count (image_mset fst (ah_timers s)) k = (if fmlookup (ah_m s) k = None then 0 else 1))"

lemma open_entry_inv: "ah_inv s \<Longrightarrow> ah_inv (open_entry now k s) \<and> fmlookup (ah_m (open_entry now k s)) k \<noteq> None"
  by (auto simp: open_entry_def ah_inv_def split: option.splits if_splits)

lemma open_entry_entry [simp]: "entry (open_entry now k s) k = entry s k" "ah_limit (open_entry now k s) = ah_limit s"
  by (auto simp: open_entry_def entry_def split: option.split)

lemma append_inv:
  assumes "ah_inv s" "fmlookup (ah_m s) k = Some vs" "n \<notin> set vs" "int (length vs) < ah_limit s"
  shows "ah_inv (s\<lparr>ah_m := fmupd k (vs @ [n]) (ah_m s)\<rparr>)"
  using assms by (auto simp: ah_inv_def split: if_splits)

lemma Store_inv:
  assumes "ah_inv s" "Store sha1 now oip oua nip nua s = (r, s')"
  shows "ah_inv s'"
proof -
  let ?o = "sha1 (oip @ oua)" and ?n = "sha1 (nip @ nua)"
  note o = open_entry_inv [OF assms(1), of now ?o]
  then obtain vs where vs: "fmlookup (ah_m (open_entry now ?o s)) ?o = Some vs" by auto
  then have e: "entry s ?o = vs" using open_entry_entry(1) [of now ?o s] by (simp add: entry_def)
  then have "s' = open_entry now ?o s \<or>
      ?n \<notin> set vs \<and> int (length vs) < ah_limit s \<and>
      s' = (open_entry now ?o s)\<lparr>ah_m := fmupd ?o (vs @ [?n]) (ah_m (open_entry now ?o s))\<rparr>"
    using assms(2) by (auto simp: Store_def Let_def split: if_splits)
  then show ?thesis using o append_inv [OF _ vs, of ?n] by auto
qed

lemma expire_inv:
  assumes "ah_inv s" "e \<in># ah_timers s"
  shows "ah_inv (expire_entry e s)"
proof -
  obtain M where M: "ah_timers s = add_mset e M" using assms(2) by (metis insert_DiffM)
  have "count (image_mset fst M) k = (if k = fst e \<or> fmlookup (ah_m s) k = None then 0 else 1)" for k
  proof -
    have "count (image_mset fst (add_mset e M)) k = (if fmlookup (ah_m s) k = None then 0 else 1)"
      using assms(1) by (simp only: ah_inv_def M)
    then show ?thesis by (cases "k = fst e"; cases "fmlookup (ah_m s) k") (simp_all only: image_mset_add_mset count_add_mset, simp_all)
  qed
  then show ?thesis using assms(1) by (simp add: ah_inv_def expire_entry_def M del: count_eq_zero_iff)
qed

text \<open>In every state the access history reaches, an original client has at most the configured number
  of other clients, all different, and every entry has exactly one pending timer, so it is forgotten
  in the end and never by the timer of an earlier entry.\<close>

theorem access_history_invariant:
  assumes "(ah_step sha1)\<^sup>*\<^sup>* (NewAccessHistory, t0) (s, t)"
  shows "ah_limit s = 5 \<and> ah_inv s"
proof -
  have "ah_limit (fst c) = 5 \<and> ah_inv (fst c)" if "(ah_step sha1)\<^sup>*\<^sup>* (NewAccessHistory, t0) c" for c
    using that
  proof (induction rule: rtranclp_induct)
    case base
    show ?case by (simp add: NewAccessHistory_def accessHistoryLimit_def ah_inv_def)
  next
    case (step c d)
    from step.hyps(2) step.IH show ?case
    proof cases
      case (stored t now oip oua nip nua s r s')
      then show ?thesis using step.IH Store_inv [of s]
        by (auto simp: Store_def Let_def split: if_splits)
    next
      case (expired t now k due s)
      then show ?thesis using step.IH expire_inv [of s "(k, due)"] by (simp add: expire_entry_def)
    qed
  qed
  from this [OF assms] show ?thesis by simp
qed

text \<open>What the handler is told: a client is let in exactly if it is among the first ones recorded, and
  the number is how many more the original client can still have.\<close>

theorem Store_answer:
  assumes "ah_inv s" "Store sha1 now oip oua nip nua s = ((ok, left), s')"
  shows "(ok \<longleftrightarrow> sha1 (nip @ nua) \<in> set (entry s' (sha1 (oip @ oua)))) \<and>
    (ok \<longleftrightarrow> sha1 (nip @ nua) \<in> set (entry s (sha1 (oip @ oua))) \<or> int (length (entry s (sha1 (oip @ oua)))) < ah_limit s) \<and>
    left = ah_limit s' - int (length (entry s' (sha1 (oip @ oua))))"
proof -
  have "int (length (entry s (sha1 (oip @ oua)))) \<le> ah_limit s"
    using assms(1) by (auto simp: ah_inv_def entry_def split: option.split)
  then show ?thesis
    using assms(2) open_entry_entry [of now "sha1 (oip @ oua)" s]
    by (auto simp: Store_def Let_def entry_def [of "_\<lparr>ah_m := _\<rparr>"] split: if_splits)
qed

theorem access_history_invariant_witness:
  "\<exists>s :: AccessHistory. (ah_step id)\<^sup>*\<^sup>* (NewAccessHistory, 0) (s, 7) \<and> entry s ''ab'' = [''cd''] \<and> ah_limit s = 5 \<and> ah_inv s"
proof -
  let ?s = "snd (Store id 7 ''a'' ''b'' ''c'' ''d'' NewAccessHistory)"
  have "(ah_step id)\<^sup>*\<^sup>* (NewAccessHistory, 0) (?s, 7)"
    by (rule r_into_rtranclp, rule ah_step.stored [of _ _ _ "''a''" "''b''" "''c''" "''d''" _ "fst (Store id 7 ''a'' ''b'' ''c'' ''d'' NewAccessHistory)"]) simp_all
  moreover have "entry ?s ''ab'' = [''cd'']"
    by (simp add: Store_def Let_def NewAccessHistory_def open_entry_def entry_def accessHistoryLimit_def)
  ultimately show ?thesis using access_history_invariant [of id 0 ?s 7] by (intro exI [of _ ?s]) simp
qed

end
