(* ===== verification/Startup.thy ===== *)
theory Startup
  imports Web_Handlers Access_History
begin

text \<open>
  Start-up (\<open>configure.go\<close>, \<open>main.go\<close>, and the flags and constructors of the components): the command
  line flags with their defaults, the components built from them, and the order in which they are closed.
  Of package \<open>cli\<close> the model has what is read back: the value given on the command line or in the
  environment, or else the default of the flag. The flags of the common services library, and whether it
  provides a probe, metrics and profiling server, are arguments. Usage texts are left out.
\<close>

section \<open>Flags\<close>

datatype flag_value = FString string | FInt int | FInt64 int | FBool | FBoolT

record Flag =
  fg_Name :: string
  fg_Value :: flag_value
  fg_EnvVar :: string
  fg_Required :: bool

definition flag :: "string \<Rightarrow> flag_value \<Rightarrow> string \<Rightarrow> Flag" where
  "flag n v e = \<lparr>fg_Name = n, fg_Value = v, fg_EnvVar = e, fg_Required = False\<rparr>"

definition RegisterWebFlags :: "Flag list \<Rightarrow> Flag list" where
  "RegisterWebFlags f = f @
     [flag ''host'' (FString []) ''WEB_HOST'',
      flag ''port'' (FInt 8080) ''WEB_PORT'',
      flag ''torrent-http-proxy-host'' (FString []) ''TORRENT_HTTP_PROXY_SERVICE_HOST'',
      flag ''torrent-http-proxy-port'' (FInt 8080) ''TORRENT_HTTP_PROXY_SERVICE_PORT'',
      flag ''use-bandwidth-limit'' FBool ''USE_BANDWIDTH_LIMIT'',
      flag ''enforce-session-ip'' FBoolT ''ENFORCE_SESSION_IP'']"

definition RegisterClickHouseFlags :: "Flag list \<Rightarrow> Flag list" where
  "RegisterClickHouseFlags f = f @
     [flag ''clickhouse-batch-size'' (FInt 1000) ''CLICKHOUSE_BATCH_SIZE'',
      flag ''clickhouse-replicated'' FBool ''CLICKHOUSE_REPLICATED'',
      flag ''clickhouse-sharded'' FBool ''CLICKHOUSE_SHARDED'']"

definition RegisterClickHouseDBFlags :: "Flag list \<Rightarrow> Flag list" where
  "RegisterClickHouseDBFlags f = f @ [flag ''clickhouse-dsn'' (FString []) ''CLICKHOUSE_DSN'']"

definition RegisterCommonFlags :: "Flag list \<Rightarrow> Flag list" where
  "RegisterCommonFlags f = f @ [flag ''my-node-name'' (FString []) ''MY_NODE_NAME'']"

definition RegisterEndpointsFlags :: "Flag list \<Rightarrow> Flag list" where
  "RegisterEndpointsFlags f = f @ [flag ''endpoints-namespace'' (FString ''webtor'') ''ENDPOINTS_NAMESPACE'']"

definition RegisterNodesStatFlags :: "Flag list \<Rightarrow> Flag list" where
  "RegisterNodesStatFlags f = f @ [flag ''node-label-prefix'' (FString ''webtor.io/'') ''NODE_LABEL_PREFIX'']"

definition RegisterAPIFlags :: "Flag list \<Rightarrow> Flag list" where
  "RegisterAPIFlags f = f @ [flag ''api-key'' (FString []) ''API_KEY'', flag ''api-secret'' (FString []) ''API_SECRET'']"

definition RegisterServicesConfigFlags :: "Flag list \<Rightarrow> Flag list" where
  "RegisterServicesConfigFlags f = f @ [(flag ''config'' (FString []) ''CONFIG_PATH'')\<lparr>fg_Required := True\<rparr>]"

definition RegisterHTTPProxyFlags :: "Flag list \<Rightarrow> Flag list" where
  "RegisterHTTPProxyFlags f = f @
     [flag ''proxy-read-buffer-size'' (FInt (512 * 1024)) ''PROXY_READ_BUFFER_SIZE'',
      flag ''proxy-write-buffer-size'' (FInt (512 * 1024)) ''PROXY_WRITE_BUFFER_SIZE'',
      flag ''retry-max-attempts'' (FInt 3) ''RETRY_MAX_ATTEMPTS'',
      flag ''retry-delay'' (FInt 1000) ''RETRY_DELAY_MS'']"

definition defaultLightExts :: string where
  "defaultLightExts = ''.srt,.vtt,.ass,.ssa,.sub,.idx,.smi,.sbv,'' @ ''.m3u8,.mpd,'' @
     ''.jpg,.jpeg,.png,.webp,.gif,'' @ ''.json,.xml,.nfo,.txt,'' @ ''.clpi,.mpls,.bdjo,.bdmv''"

definition RegisterSessionLimiterFlags :: "Flag list \<Rightarrow> Flag list" where
  "RegisterSessionLimiterFlags f = f @
     [flag ''max-conc-per-path'' (FInt 10) ''MAX_CONC_PER_PATH'',
      flag ''max-big-files-per-hash'' (FInt 5) ''MAX_BIG_FILES_PER_HASH'',
      flag ''big-file-threshold-bytes'' (FInt64 (10 * 1024 * 1024)) ''BIG_FILE_THRESHOLD_BYTES'',
      flag ''light-exts'' (FString defaultLightExts) ''LIGHT_EXTS'',
      flag ''max-conc-total'' (FInt 30) ''MAX_CONC_TOTAL'',
      flag ''max-ips-per-session'' (FInt 5) ''MAX_IPS_PER_SESSION'']"

definition RegisterFileSizeCacheFlags :: "Flag list \<Rightarrow> Flag list" where
  "RegisterFileSizeCacheFlags f = f @ [flag ''file-size-cache-capacity'' (FInt 100000) ''FILE_SIZE_CACHE_CAPACITY'']"

text \<open>\<open>configure\<close>; \<open>cs\<close> adds the flags of the common services.\<close>

definition app_flags :: "(Flag list \<Rightarrow> Flag list) \<Rightarrow> Flag list" where
  "app_flags cs =
     RegisterFileSizeCacheFlags (RegisterSessionLimiterFlags (RegisterHTTPProxyFlags (RegisterServicesConfigFlags
       (RegisterAPIFlags (RegisterNodesStatFlags (RegisterEndpointsFlags (RegisterCommonFlags
         (RegisterClickHouseDBFlags (RegisterClickHouseFlags (RegisterWebFlags (cs [])))))))))))"

lemmas register_defs = RegisterFileSizeCacheFlags_def RegisterSessionLimiterFlags_def RegisterHTTPProxyFlags_def
  RegisterServicesConfigFlags_def RegisterAPIFlags_def RegisterNodesStatFlags_def RegisterEndpointsFlags_def
  RegisterCommonFlags_def RegisterClickHouseDBFlags_def RegisterClickHouseFlags_def RegisterWebFlags_def

section \<open>Reading flags\<close>

record Ctx =
  cx_flags :: "Flag list"
  cx_string :: "string \<Rightarrow> string option"
  cx_int :: "string \<Rightarrow> int option"
  cx_bool :: "string \<Rightarrow> bool option"

definition default_of :: "Flag list \<Rightarrow> string \<Rightarrow> flag_value option" where
  "default_of fs n = map_option fg_Value (find (\<lambda>f. fg_Name f = n) fs)"

definition ctx_String :: "Ctx \<Rightarrow> string \<Rightarrow> string" where
  "ctx_String c n =
     (case cx_string c n of
        Some v \<Rightarrow> v
      | None \<Rightarrow> (case default_of (cx_flags c) n of Some (FString v) \<Rightarrow> v | _ \<Rightarrow> []))"

text \<open>\<open>c.Int\<close> and \<open>c.Int64\<close>\<close>

definition ctx_Int :: "Ctx \<Rightarrow> string \<Rightarrow> int" where
  "ctx_Int c n =
     (case cx_int c n of
        Some v \<Rightarrow> v
      | None \<Rightarrow> (case default_of (cx_flags c) n of Some (FInt v) \<Rightarrow> v | Some (FInt64 v) \<Rightarrow> v | _ \<Rightarrow> 0))"

definition ctx_Bool :: "Ctx \<Rightarrow> string \<Rightarrow> bool" where
  "ctx_Bool c n =
     (case cx_bool c n of
        Some v \<Rightarrow> v
      | None \<Rightarrow> (case default_of (cx_flags c) n of Some FBoolT \<Rightarrow> True | _ \<Rightarrow> False))"

section \<open>The components\<close>

definition NewClaims :: "Ctx \<Rightarrow> ClaimsCfg" where
  "NewClaims c = \<lparr>c_apiKey = ctx_String c ''api-key'', c_apiSecret = ctx_String c ''api-secret''\<rparr>"

definition NewSessionLimiter :: "Ctx \<Rightarrow> Limits" where
  "NewSessionLimiter c =
     \<lparr>l_maxPerPath = ctx_Int c ''max-conc-per-path'',
      l_maxBigFilesPerHash = ctx_Int c ''max-big-files-per-hash'',
      l_bigFileThreshold = ctx_Int c ''big-file-threshold-bytes'',
      l_lightExts = parseLightExts (ctx_String c ''light-exts''),
      l_maxTotal = ctx_Int c ''max-conc-total'',
      l_maxIPsPerSession = ctx_Int c ''max-ips-per-session'',
      l_sizeLookup = None\<rparr>"

definition base_url :: "Ctx \<Rightarrow> string" where
  "base_url c = ''http://'' @ ctx_String c ''torrent-http-proxy-host'' @ '':'' @ show_int (ctx_Int c ''torrent-http-proxy-port'')"

definition NewWeb :: "Ctx \<Rightarrow> ServicesConfig \<Rightarrow> ClaimsCfg \<Rightarrow> bool \<Rightarrow> int \<Rightarrow> Limits \<Rightarrow> WebServer" where
  "NewWeb c cfg claims redis maxRetries sl =
     \<lparr>ws_baseURL = base_url c, ws_claims = claims, ws_limits = Some sl,
      ws_enforceSessionIP = ctx_Bool c ''enforce-session-ip'', ws_bandwidthLimit = ctx_Bool c ''use-bandwidth-limit'',
      ws_redis = redis, ws_maxRetries = maxRetries, ws_cfg = cfg\<rparr>"

text \<open>The caches of package \<open>lazymap\<close> with their settings; times are nanoseconds.\<close>

record CacheCfg =
  cc_Expire :: int
  cc_StoreErrors :: bool

definition cache :: "int \<Rightarrow> CacheCfg" where
  "cache sec = \<lparr>cc_Expire = sec * 10 ^ 9, cc_StoreErrors = False\<rparr>"

record EndpointsPool =
  ep_namespace :: string
  ep_cache :: CacheCfg

definition NewEndpoints :: "Ctx \<Rightarrow> EndpointsPool" where
  "NewEndpoints c = \<lparr>ep_namespace = ctx_String c ''endpoints-namespace'', ep_cache = cache 60\<rparr>"

record NodesPool =
  np_labelPrefix :: string
  np_cache :: CacheCfg

definition NewNodesStat :: "Ctx \<Rightarrow> NodesPool" where
  "NewNodesStat c = \<lparr>np_labelPrefix = ctx_String c ''node-label-prefix'', np_cache = cache 60\<rparr>"

record LocationPool =
  lp_ep :: EndpointsPool
  lp_nodes :: NodesPool
  lp_nn :: string
  lp_cache :: CacheCfg
  lp_ignore :: CacheCfg
  lp_probeChecker :: CacheCfg

definition NewServiceLocationPool :: "Ctx \<Rightarrow> NodesPool \<Rightarrow> EndpointsPool \<Rightarrow> LocationPool" where
  "NewServiceLocationPool c nodes ep =
     \<lparr>lp_ep = ep, lp_nodes = nodes, lp_nn = ctx_String c ''my-node-name'', lp_cache = cache 15, lp_ignore = cache 30,
      lp_probeChecker = (cache 30)\<lparr>cc_StoreErrors := True\<rparr>\<rparr>"

record ResolverParts =
  rv_cfg :: ServicesConfig
  rv_svcLoc :: LocationPool

definition NewResolver :: "ServicesConfig \<Rightarrow> LocationPool \<Rightarrow> ResolverParts" where
  "NewResolver cfg svcLoc = \<lparr>rv_cfg = cfg, rv_svcLoc = svcLoc\<rparr>"

record TransportCfg =
  tp_MaxIdleConns :: int
  tp_MaxIdleConnsPerHost :: int
  tp_IdleConnTimeout :: int
  tp_WriteBufferSize :: int
  tp_ReadBufferSize :: int

record ProxyPool =
  px_r :: ResolverParts
  px_transport :: TransportCfg
  px_externalTransport :: TransportCfg
  px_maxRetries :: int
  px_retryDelay :: int
  px_fileSizeCache :: FileSizeCache
  px_cache :: CacheCfg

definition NewHTTPProxy :: "Ctx \<Rightarrow> ResolverParts \<Rightarrow> int \<Rightarrow> FileSizeCache \<Rightarrow> ProxyPool" where
  "NewHTTPProxy c r retryDelay fsc =
     (let readBuf = ctx_Int c ''proxy-read-buffer-size''; writeBuf = ctx_Int c ''proxy-write-buffer-size''
      in \<lparr>px_r = r,
          px_transport = \<lparr>tp_MaxIdleConns = 200, tp_MaxIdleConnsPerHost = 10, tp_IdleConnTimeout = 30 * 10 ^ 9,
            tp_WriteBufferSize = writeBuf, tp_ReadBufferSize = readBuf\<rparr>,
          px_externalTransport = \<lparr>tp_MaxIdleConns = 200, tp_MaxIdleConnsPerHost = 20, tp_IdleConnTimeout = 90 * 10 ^ 9,
            tp_WriteBufferSize = writeBuf, tp_ReadBufferSize = readBuf\<rparr>,
          px_maxRetries = ctx_Int c ''retry-max-attempts'', px_retryDelay = retryDelay, px_fileSizeCache = fsc,
          px_cache = cache 60\<rparr>)"

record BucketPool =
  bp_rc :: bool
  bp_cache :: CacheCfg

definition NewHybridBucketPool :: "bool \<Rightarrow> BucketPool" where
  "NewHybridBucketPool rc = \<lparr>bp_rc = rc, bp_cache = cache (5 * 60)\<rparr>"

definition NewURLParser :: "ServicesConfig \<Rightarrow> ServicesConfig" where
  "NewURLParser c = c"

text \<open>\<open>time.Duration(c.Int("retry-delay")) * time.Millisecond\<close>\<close>

definition retry_delay :: "Ctx \<Rightarrow> int" where
  "retry_delay c = wrap64 (ctx_Int c ''retry-delay'' * 10 ^ 6)"

datatype server = SProbe | SProm | SPprof | SWeb
datatype closer = CloseRedis | CloseProbe | CloseProm | CloseClickHouseDB | CloseClickHouse | CloseWeb

record App =
  ap_web :: WebServer
  ap_parser :: ServicesConfig
  ap_proxy :: ProxyPool
  ap_bucket :: BucketPool
  ap_sizes :: FileSizeCache
  ap_clickhouse :: "ClickHouse option"
  ap_history :: AccessHistory
  ap_servers :: "server list"
  ap_deferred :: "closer list"

text \<open>Which servers of the common services are enabled.\<close>

record Common =
  cm_probe :: bool
  cm_prom :: bool
  cm_pprof :: bool

text \<open>\<open>run\<close> up to serving. \<open>ap_deferred\<close> are the deferred calls in the order of their statements.\<close>

definition run ::
  "(string \<Rightarrow> string outcome) \<Rightarrow> (string \<Rightarrow> ServicesConfig outcome) \<Rightarrow> (ServicesConfig \<Rightarrow> string list) \<Rightarrow> Common \<Rightarrow> Ctx \<Rightarrow> App outcome" where
  "run read_file unmarshal order cm c =
     and_then (LoadServicesConfigFromYAML (ctx_String c ''config'') read_file unmarshal order) (\<lambda>config.
       let host = ctx_String c ''redis-host'';
           redis = (host \<noteq> [] \<and> host \<noteq> ''localhost'');
           fileSizeCache = NewFileSizeCache (ctx_Int c ''file-size-cache-capacity'');
           stats = (ctx_String c ''clickhouse-dsn'' \<noteq> []);
           clickHouse = NewClickHouse (ctx_Int c ''clickhouse-batch-size'') (ctx_String c ''my-node-name'')
             (ctx_Bool c ''clickhouse-replicated'') (ctx_Bool c ''clickhouse-sharded'');
           sessionLimiter = SetSizeLookup (NewSessionLimiter c) (GetSize fileSizeCache);
           svcLocPool = NewServiceLocationPool c (NewNodesStat c) (NewEndpoints c);
           httpProxy = NewHTTPProxy c (NewResolver config svcLocPool) (retry_delay c) fileSizeCache
       in Ret \<lparr>ap_web = NewWeb c config (NewClaims c) redis (px_maxRetries httpProxy) sessionLimiter,
            ap_parser = NewURLParser config, ap_proxy = httpProxy, ap_bucket = NewHybridBucketPool redis,
            ap_sizes = fileSizeCache,
            ap_clickhouse = (if stats then Some clickHouse else None),
            ap_history = NewAccessHistory,
            ap_servers = (if cm_probe cm then [SProbe] else []) @ (if cm_prom cm then [SProm] else []) @
              (if cm_pprof cm then [SPprof] else []) @ [SWeb],
            ap_deferred = (if redis then [CloseRedis] else []) @ (if cm_probe cm then [CloseProbe] else []) @
              (if cm_pprof cm then [CloseProm] else []) @
              (if stats then [CloseClickHouseDB, CloseClickHouse] else []) @ [CloseWeb]\<rparr>)"

text \<open>\<open>main\<close>: the status the process exits with; \<open>serve\<close> is what serving returns. A panic is status 2.\<close>

definition main_exit :: "App outcome \<Rightarrow> (App \<Rightarrow> gerror option) \<Rightarrow> int" where
  "main_exit r serve =
     (case r of
        Ret app \<Rightarrow> (case serve app of None \<Rightarrow> 0 | Some e \<Rightarrow> 1)
      | Fail e \<Rightarrow> 1
      | Panic k \<Rightarrow> 2)"

text \<open>Deferred calls run last in, first out.\<close>

definition closing :: "App \<Rightarrow> closer list" where
  "closing app = rev (ap_deferred app)"

section \<open>Properties\<close>

text \<open>Without the flags of the common services no two flags share a name or an environment variable.\<close>

theorem own_flags_distinct:
  "distinct (map fg_Name (app_flags id)) \<and> distinct (map fg_EnvVar (app_flags id))"
  by (simp add: app_flags_def register_defs flag_def)

text \<open>A context in which only the path of the configuration was given.\<close>

definition bare_ctx :: "string \<Rightarrow> Ctx" where
  "bare_ctx path = \<lparr>cx_flags = app_flags id, cx_string = (\<lambda>n. if n = ''config'' then Some path else None),
     cx_int = (\<lambda>_. None), cx_bool = (\<lambda>_. None)\<rparr>"

lemma bare_ctx_flags:
  "cx_flags (bare_ctx path) = app_flags id" "cx_int (bare_ctx path) n = None" "cx_bool (bare_ctx path) n = None"
  "cx_string (bare_ctx path) n = (if n = ''config'' then Some path else None)"
  by (simp_all add: bare_ctx_def)

lemmas flag_lookup = ctx_Int_def ctx_Bool_def ctx_String_def default_of_def app_flags_def register_defs flag_def

lemma run_Ret:
  assumes "run read_file unmarshal order cm c = Ret app"
  obtains config where
    "LoadServicesConfigFromYAML (ctx_String c ''config'') read_file unmarshal order = Ret config"
    "ap_web app = NewWeb c config (NewClaims c) (ctx_String c ''redis-host'' \<noteq> [] \<and> ctx_String c ''redis-host'' \<noteq> ''localhost'')
       (ctx_Int c ''retry-max-attempts'')
       (SetSizeLookup (NewSessionLimiter c) (GetSize (NewFileSizeCache (ctx_Int c ''file-size-cache-capacity''))))"
  using assms by (auto simp: run_def Let_def outcome_simps NewHTTPProxy_def)


lemma run_parts:
  assumes "run read_file unmarshal order cm c = Ret app"
  shows "ap_clickhouse app \<noteq> None \<longleftrightarrow> ctx_String c ''clickhouse-dsn'' \<noteq> []"
    and "SPprof \<in> set (ap_servers app) \<longleftrightarrow> cm_pprof cm" and "SProbe \<in> set (ap_servers app) \<longleftrightarrow> cm_probe cm"
    and "ws_redis (ap_web app) \<longleftrightarrow> ctx_String c ''redis-host'' \<noteq> [] \<and> ctx_String c ''redis-host'' \<noteq> ''localhost''"
    and "ap_deferred app =
      (if ctx_String c ''redis-host'' \<noteq> [] \<and> ctx_String c ''redis-host'' \<noteq> ''localhost'' then [CloseRedis] else []) @
      (if cm_probe cm then [CloseProbe] else []) @ (if cm_pprof cm then [CloseProm] else []) @
      (if ctx_String c ''clickhouse-dsn'' \<noteq> [] then [CloseClickHouseDB, CloseClickHouse] else []) @ [CloseWeb]"
proof -
  obtain config where "LoadServicesConfigFromYAML (ctx_String c ''config'') read_file unmarshal order = Ret config"
    using assms by (rule run_Ret)
  note app = assms [unfolded run_def this and_then.simps Let_def outcome.inject, symmetric]
  show "ap_clickhouse app \<noteq> None \<longleftrightarrow> ctx_String c ''clickhouse-dsn'' \<noteq> []"
    and "SPprof \<in> set (ap_servers app) \<longleftrightarrow> cm_pprof cm" "SProbe \<in> set (ap_servers app) \<longleftrightarrow> cm_probe cm"
    unfolding app by simp_all
  show "ws_redis (ap_web app) \<longleftrightarrow> ctx_String c ''redis-host'' \<noteq> [] \<and> ctx_String c ''redis-host'' \<noteq> ''localhost''"
    unfolding app by (simp add: NewWeb_def)
  show "ap_deferred app =
      (if ctx_String c ''redis-host'' \<noteq> [] \<and> ctx_String c ''redis-host'' \<noteq> ''localhost'' then [CloseRedis] else []) @
      (if cm_probe cm then [CloseProbe] else []) @ (if cm_pprof cm then [CloseProm] else []) @
      (if ctx_String c ''clickhouse-dsn'' \<noteq> [] then [CloseClickHouseDB, CloseClickHouse] else []) @ [CloseWeb]"
    unfolding app by simp
qed

text \<open>A configuration file for the witnesses.\<close>

definition demo_run :: "App outcome" where
  "demo_run = run (\<lambda>_. Ret []) (\<lambda>_. Ret small_config) (\<lambda>_. small_range)
     \<lparr>cm_probe = True, cm_prom = False, cm_pprof = True\<rparr> (bare_ctx ''c.yaml'')"

lemma demo_runs: "\<exists>app. demo_run = Ret app"
proof -
  have "LoadServicesConfigFromYAML ''c.yaml'' (\<lambda>_. Ret []) (\<lambda>_. Ret small_config) (\<lambda>_. small_range) = Ret small_config"
    by code_simp
  then show ?thesis by (simp add: demo_run_def run_def Let_def ctx_String_def bare_ctx_flags)
qed

text \<open>C35: A server started with nothing but the path of its configuration is open: it checks no key and no token, so
  every request is let through with empty claims, whatever token it carries; as such a request belongs to no session, it gets
  no ticket and leaves the limiter as it was, so none of the limits that the defaults name ever applies. There
  is no bandwidth limit and there are no statistics.\<close>

theorem default_server:
  assumes "run read_file unmarshal order cm (bare_ctx path) = Ret app"
  shows "(\<forall>jwt wrapf token key. Get (ws_claims (ap_web app)) jwt wrapf token key = Ret (Some fmempty)) \<and>
    (\<forall>(lib :: 'w WebLib) sizes now src r ls. admit lib (ap_web app) sizes now src r ls = (Inr (Some fmempty, None), ls)) \<and>
    \<not> ws_bandwidthLimit (ap_web app) \<and> ap_clickhouse app = None"
proof (intro conjI allI)
  show open_: "Get (ws_claims (ap_web app)) jwt wrapf token key = Ret (Some fmempty)" for jwt wrapf token key
    using assms by (rule run_Ret) (simp add: NewWeb_def NewClaims_def Get_def flag_lookup bare_ctx_flags)
  have none: "str_claim (Some fmempty) k = []" "claim_str (Some fmempty) k = None" for k
    by (simp_all add: str_claim_def claim_str_def claim_def)
  have "limit_session net (ap_web app) sizes now (Some fmempty) src r ls = (Inr None, ls)" for net sizes now src r ls
    by (simp add: limit_session_def none Acquire_def split: option.split)
  then show "admit lib (ap_web app) sizes now src r ls = (Inr (Some fmempty, None), ls)"
    for lib :: "'w WebLib" and sizes now src r ls
    by (simp add: admit_def open_ hash_mismatch_def ip_mismatch_def none)
  show "\<not> ws_bandwidthLimit (ap_web app)"
    using assms by (rule run_Ret) (simp add: NewWeb_def flag_lookup bare_ctx_flags)
  show "ap_clickhouse app = None"
    using run_parts(1) [OF assms] by (simp add: flag_lookup bare_ctx_flags)
qed

theorem default_server_witness:
  "\<exists>app. demo_run = Ret app \<and> \<not> ws_bandwidthLimit (ap_web app) \<and>
     (\<forall>src ls. admit demo_weblib (ap_web app) None 0 src demo_inbound ls = (Inr (Some fmempty, None), ls))"
proof -
  obtain app where "demo_run = Ret app" using demo_runs by blast
  with default_server [where 'w = "string list", of _ _ _ _ "''c.yaml''" app] show ?thesis by (auto simp: demo_run_def)
qed









text \<open>All components are built on one configuration, so a request is parsed, resolved, retried and limited by the same one; a
  configuration that cannot be loaded ends the process with status 1.\<close>

theorem wired:
  "case LoadServicesConfigFromYAML (ctx_String c ''config'') read_file unmarshal order of
     Ret config \<Rightarrow>
       \<exists>app. run read_file unmarshal order cm c = Ret app \<and> ap_parser app = config \<and> rv_cfg (px_r (ap_proxy app)) = config \<and>
         ws_cfg (ap_web app) = config \<and> ws_maxRetries (ap_web app) = px_maxRetries (ap_proxy app) \<and>
         ws_redis (ap_web app) = bp_rc (ap_bucket app) \<and> px_fileSizeCache (ap_proxy app) = ap_sizes app \<and>
         (\<exists>l. ws_limits (ap_web app) = Some l \<and> l_sizeLookup l = Some (GetSize (ap_sizes app)))
   | Fail e \<Rightarrow> main_exit (run read_file unmarshal order cm c) serve = 1
   | Panic k \<Rightarrow> main_exit (run read_file unmarshal order cm c) serve = 2"
  by (cases "LoadServicesConfigFromYAML (ctx_String c ''config'') read_file unmarshal order")
    (auto simp: run_def Let_def main_exit_def NewWeb_def NewHTTPProxy_def NewURLParser_def NewResolver_def NewHybridBucketPool_def
      SetSizeLookup_def)

text \<open>On shutdown the web server is closed first. With statistics switched on, the last batch is then handed
  over before the connection to ClickHouse is closed. The metrics server is closed exactly if the profiling
  server is on, whether or not there is a metrics server, and the profiling server is never closed.\<close>

theorem shutdown_order:
  assumes "run read_file unmarshal order cm c = Ret app"
  shows "closing app = CloseWeb #
    (if ap_clickhouse app \<noteq> None then [CloseClickHouse, CloseClickHouseDB] else []) @
    (if SPprof \<in> set (ap_servers app) then [CloseProm] else []) @
    (if SProbe \<in> set (ap_servers app) then [CloseProbe] else []) @
    (if ws_redis (ap_web app) then [CloseRedis] else [])"
  using run_parts [OF assms] by (simp add: closing_def)

theorem shutdown_order_witness:
  "\<exists>app. demo_run = Ret app \<and> hd (closing app) = CloseWeb"
proof -
  obtain app where run: "demo_run = Ret app" using demo_runs by blast
  have "hd (closing app) = CloseWeb" using shutdown_order [OF run [unfolded demo_run_def]] by simp
  with run show ?thesis by blast
qed

end
