(* ===== verification/Bandwidth.thy ===== *)
theory Bandwidth
  imports Hybrid_Bucket
begin

text \<open>
  The behaviour of \<open>Wait\<close> (\<open>services/hybrid_bucket.go\<close>): that it returns when Redis answers and the
  rate is at least a byte per second, and does not return below that; what a proxy without Redis lets
  through; and, for any number of proxies and waiters whose critical sections and script calls
  interleave, that together they stay within the rate. Rounding is left aside here.
\<close>

section \<open>Termination\<close>

text \<open>
  A waiter that has the key to itself: \<open>clk\<close> and \<open>hash\<close> observe the clock and the hash of the key
  in a world. The clock does not go back, sleeping takes at least the time asked for, and a script
  is run on the hash, unless the call fails. A \<open>lone_waiter\<close> is one whose calls do not fail.
\<close>

definition sole_waiter :: "bool \<Rightarrow> 'w BwLib \<Rightarrow> string \<Rightarrow> ('w \<Rightarrow> int) \<Rightarrow> ('w \<Rightarrow> RHash option) \<Rightarrow> bool" where
  "sole_waiter fails lib key clk hash \<longleftrightarrow>
     (\<forall>w. clk w \<le> fst (bw_now lib w) \<and> fst (bw_now lib w) \<le> clk (snd (bw_now lib w)) \<and>
          hash (snd (bw_now lib w)) = hash w) \<and>
     (\<forall>d w. clk w + d \<le> clk (bw_sleep lib d w) \<and> hash (bw_sleep lib d w) = hash w) \<and>
     (\<forall>f w. fails \<and> fst (bw_run lib key f w) = None \<or>
          fst (bw_run lib key f w) = Some (fst (f (hash w))) \<and>
          hash (snd (bw_run lib key f w)) = Some (snd (f (hash w))) \<and> clk w \<le> clk (snd (bw_run lib key f w)))"

definition lone_waiter :: "'w BwLib \<Rightarrow> string \<Rightarrow> ('w \<Rightarrow> int) \<Rightarrow> ('w \<Rightarrow> RHash option) \<Rightarrow> bool" where
  "lone_waiter lib key clk hash \<longleftrightarrow>
     (\<forall>w. clk w \<le> fst (bw_now lib w) \<and> fst (bw_now lib w) \<le> clk (snd (bw_now lib w)) \<and>
          hash (snd (bw_now lib w)) = hash w) \<and>
     (\<forall>d w. clk w + d \<le> clk (bw_sleep lib d w) \<and> hash (bw_sleep lib d w) = hash w) \<and>
     (\<forall>f w. fst (bw_run lib key f w) = Some (fst (f (hash w))) \<and>
          hash (snd (bw_run lib key f w)) = Some (snd (f (hash w))) \<and> clk w \<le> clk (snd (bw_run lib key f w)))"

lemma lone_sole: "lone_waiter lib key clk hash \<longleftrightarrow> sole_waiter False lib key clk hash"
  by (simp only: lone_waiter_def sole_waiter_def simp_thms)

text \<open>The hash was last written at a millisecond \<open>k\<close> or more before now.\<close>

definition written_before :: "int \<Rightarrow> int \<Rightarrow> RHash option \<Rightarrow> bool" where
  "written_before k now v \<longleftrightarrow>
     (\<forall>h. v = Some h \<longrightarrow> 0 \<le> h_tokens h \<and> (\<exists>ms. h_last_tick h = of_int ms \<and> ms + k \<le> now div 10 ^ 6))"

lemma accrued_nonneg: "exact N \<Longrightarrow> 0 \<le> cap \<Longrightarrow> 0 \<le> rate \<Longrightarrow> 0 \<le> t \<Longrightarrow> 0 \<le> accrued N cap rate e t"
  by (auto simp: accrued_def Let_def exact_ops)

lemma grant_exact: "exact N \<Longrightarrow> 0 \<le> t \<Longrightarrow> 0 \<le> req \<Longrightarrow> grant N req t = (min req t, t - min req t)"
  by (auto simp: grant_def exact_ops min_def)

lemma script_exact:
  fixes now :: int
  assumes "exact N" "0 \<le> cap" "0 \<le> rate" "0 \<le> req" "0 \<le> h_tokens h"
  defines "t \<equiv> accrued N (of_int cap) (of_int rate) ((of_int now - h_last_tick h) / 1000) (h_tokens h)"
  shows "luaTokenBucket N cap rate req now ttl (Some h) =
    (min (of_int req) t, \<lparr>h_tokens = t - min (of_int req) t, h_last_tick = of_int now, h_ttl = ttl\<rparr>)"
  using assms(2-5) accrued_nonneg [OF assms(1), of "of_int cap" "of_int rate" "h_tokens h"]
  by (simp add: luaTokenBucket_def exact_ops [OF assms(1)] t_def grant_exact [OF assms(1)])

lemma script_keeps:
  assumes "exact N" "0 \<le> cap" "0 \<le> rate" "0 \<le> req" "\<forall>h. v = Some h \<longrightarrow> 0 \<le> h_tokens h"
    and "luaTokenBucket N cap rate req now ttl v = (g, h')"
  shows "0 \<le> g \<and> 0 \<le> h_tokens h' \<and> h_last_tick h' = of_int now \<and> h_ttl h' = ttl"
proof -
  define h where "h = (case v of Some h \<Rightarrow> h | None \<Rightarrow> \<lparr>h_tokens = fnum N cap, h_last_tick = fnum N now, h_ttl = ttl\<rparr>)"
  have "luaTokenBucket N cap rate req now ttl (Some h) = (g, h')" "0 \<le> h_tokens h"
    using assms(2,5,6) by (cases v; simp add: h_def script_fresh exact_ops [OF assms(1)])+
  then show ?thesis
    using assms(2-4) accrued_nonneg [OF assms(1), of "of_int cap" "of_int rate" "h_tokens h"]
    by (auto simp: script_exact [OF assms(1-4)])
qed

lemma script_progress:
  assumes "exact N" "1 \<le> cap" "1 \<le> rate" "1 \<le> req" "0 \<le> h_tokens h" "h_last_tick h = of_int ms" "ms < now"
  shows "1 / 1000 \<le> fst (luaTokenBucket N cap rate req now ttl (Some h))"
proof -
  have "1 \<le> (of_int (now - ms) :: rat)" "1 \<le> (of_int rate :: rat)" using assms(3,7) by (simp_all only: of_int_1_le_iff)
  then have "1 * 1 \<le> (of_int (now - ms) :: rat) * of_int rate" by (intro mult_mono) auto
  then have "1 / 1000 \<le> h_tokens h + of_int (now - ms) / 1000 * of_int rate" using assms(5) by simp
  moreover have "(0 :: rat) < of_int (now - ms) / 1000" using assms(7) by simp
  ultimately have "1 / 1000 \<le> accrued N (of_int cap) (of_int rate) ((of_int now - h_last_tick h) / 1000) (h_tokens h)"
    using assms(2) by (auto simp: accrued_def Let_def exact_ops [OF assms(1)] assms(6))
  then show ?thesis using assms(2-5) by (simp add: script_exact [OF assms(1)])
qed

lemma trunc64_pos: "1 \<le> x \<Longrightarrow> 1 \<le> trunc64 x"
  by (simp add: trunc64_def le_floor_iff)

lemma poll_answered:
  assumes "exact N" "sole_waiter fails lib (hb_redisKey hb) clk hash"
    and "1 \<le> hb_rate hb" "1 \<le> hb_capacity hb" "1 \<le> req" "0 \<le> clk w" "0 \<le> k" "written_before k (clk w) (hash w)"
    and "fst (bw_run lib (hb_redisKey hb) (script_of N hb req (fst (bw_now lib w))) (snd (bw_now lib w))) \<noteq> None"
  shows "\<exists>g w'. refillFromRedis lib N req (hb, w) = (g, hb, w') \<and> 0 \<le> g \<and> 0 \<le> clk w' \<and>
    written_before 0 (clk w') (hash w') \<and> (0 < k \<and> hash w \<noteq> None \<longrightarrow> 1 / 1000 \<le> g) \<and> hash w' \<noteq> None"
proof -
  obtain now w1 where n: "bw_now lib w = (now, w1)" by fastforce
  let ?f = "script_of N hb req now"
  obtain g h' where f: "?f (hash w1) = (g, h')" by fastforce
  obtain r w2 where run: "bw_run lib (hb_redisKey hb) ?f w1 = (r, w2)" by fastforce
  have l: "clk w \<le> now" "now \<le> clk w1" "hash w1 = hash w" "clk w1 \<le> clk w2"
      "r = Some g" "hash w2 = Some h'"
  proof -
    from assms(2) have "clk w \<le> fst (bw_now lib w) \<and> fst (bw_now lib w) \<le> clk (snd (bw_now lib w)) \<and>
        hash (snd (bw_now lib w)) = hash w" by (auto simp: sole_waiter_def)
    then show "clk w \<le> now" "now \<le> clk w1" "hash w1 = hash w" by (simp_all add: n)
    have "fst (bw_run lib (hb_redisKey hb) ?f w1) \<noteq> None" using assms(9) by (simp add: n)
    with assms(2) have "fst (bw_run lib (hb_redisKey hb) ?f w1) = Some (fst (?f (hash w1))) \<and>
          hash (snd (bw_run lib (hb_redisKey hb) ?f w1)) = Some (snd (?f (hash w1))) \<and>
          clk w1 \<le> clk (snd (bw_run lib (hb_redisKey hb) ?f w1))" unfolding sole_waiter_def by metis
    then show "clk w1 \<le> clk w2" "r = Some g" "hash w2 = Some h'" by (simp_all add: run f)
  qed
  have tr: "1 \<le> trunc64 (hb_capacity hb)" "1 \<le> trunc64 (hb_rate hb)" "1 \<le> trunc64 req"
    using assms(3-5) by (simp_all add: trunc64_pos)
  have q: "quot now (10 ^ 6) = now div 10 ^ 6" using l(1) assms(6) by (intro quot_pos) auto
  have wb: "\<forall>h. hash w = Some h \<longrightarrow> 0 \<le> h_tokens h" using assms(8) by (simp add: written_before_def)
  have f': "luaTokenBucket N (trunc64 (hb_capacity hb)) (trunc64 (hb_rate hb)) (trunc64 req) (now div 10 ^ 6) 300
      (hash w) = (g, h')"
    using f by (simp only: script_of_def q l(3))
  have kp: "0 \<le> g \<and> 0 \<le> h_tokens h' \<and> h_last_tick h' = of_int (now div 10 ^ 6)"
    using script_keeps [OF assms(1) _ _ _ wb f'] tr by simp
  have "now div 10 ^ 6 \<le> clk w2 div 10 ^ 6" using l by (intro zdiv_mono1) auto
  then have "written_before 0 (clk w2) (hash w2)" using kp by (auto simp: written_before_def l(6))
  moreover have "1 / 1000 \<le> g" if k: "0 < k" and "hash w \<noteq> None"
  proof -
    obtain h ms where h: "hash w = Some h" "0 \<le> h_tokens h" "h_last_tick h = of_int ms" "ms + k \<le> clk w div 10 ^ 6"
      using assms(8) \<open>hash w \<noteq> None\<close> by (auto simp: written_before_def)
    have "clk w div 10 ^ 6 \<le> now div 10 ^ 6" using l(1) by (intro zdiv_mono1) auto
    then have "ms < now div 10 ^ 6" using h(4) k by linarith
    from script_progress [OF assms(1) tr h(2,3) this, of 300] show ?thesis using f' by (simp add: h(1))
  qed
  moreover have "refillFromRedis lib N req (hb, w) = (g, hb, w2)"
    using run by (simp add: refillFromRedis_def n l(5))
  moreover have "0 \<le> clk w2" using l assms(6) by linarith
  ultimately show ?thesis using kp l(6) by blast
qed

lemma poll_once:
  assumes "exact N" "sole_waiter fails lib (hb_redisKey hb) clk hash"
    and "1 \<le> hb_rate hb" "1 \<le> hb_capacity hb" "1 \<le> req" "0 \<le> clk w" "0 \<le> k" "written_before k (clk w) (hash w)"
  obtains (failed) hb' w' where "fails" "refillFromRedis lib N req (hb, w) = (0, hb', w')" "\<not> hb_redisOK hb'"
  | (answered) g w' where "refillFromRedis lib N req (hb, w) = (g, hb, w')" "0 \<le> g" "0 \<le> clk w'"
      "written_before 0 (clk w') (hash w')" "0 < k \<Longrightarrow> hash w \<noteq> None \<Longrightarrow> 1 / 1000 \<le> g" "hash w' \<noteq> None"
proof (cases "fst (bw_run lib (hb_redisKey hb) (script_of N hb req (fst (bw_now lib w))) (snd (bw_now lib w)))")
  case None
  then have "fails" using assms(2) unfolding sole_waiter_def by (metis option.distinct(1))
  then show thesis using None by (intro failed) (auto simp: refillFromRedis_def mark_down_def split_beta Let_def split: option.split)
next
  case (Some g)
  then show thesis using poll_answered [OF assms] answered by blast
qed

lemma poll_dur_min: "10 ^ 6 \<le> poll_dur N hb need"
  by (simp add: poll_dur_def Let_def)

lemma sleep_elapses:
  assumes "sole_waiter fails lib key clk hash" "0 \<le> clk w" "written_before 0 (clk w) (hash w)" "10 ^ 6 \<le> d"
  shows "0 \<le> clk (bw_sleep lib d w)" "written_before 1 (clk (bw_sleep lib d w)) (hash (bw_sleep lib d w))"
    "hash (bw_sleep lib d w) = hash w"
proof -
  have s: "clk w + d \<le> clk (bw_sleep lib d w)" "hash (bw_sleep lib d w) = hash w"
    using assms(1) by (auto simp: sole_waiter_def)
  then show "0 \<le> clk (bw_sleep lib d w)" "hash (bw_sleep lib d w) = hash w" using assms(2,4) by auto
  have "(clk w + 10 ^ 6) div 10 ^ 6 \<le> clk (bw_sleep lib d w) div 10 ^ 6"
    using s(1) assms(4) by (intro zdiv_mono1) simp_all
  moreover have "(clk w + 10 ^ 6) div 10 ^ 6 = clk w div 10 ^ 6 + 1" by simp
  ultimately show "written_before 1 (clk (bw_sleep lib d w)) (hash (bw_sleep lib d w))"
    using assms(3) unfolding written_before_def s(2) by force
qed

lemma batch_ge: "1 \<le> hb_rate hb \<Longrightarrow> 1 \<le> batch_of hb need"
  by (simp add: batch_of_def)

text \<open>A waiter that is done: of the bucket only the balance has changed.\<close>

definition settled :: "('w \<Rightarrow> int) \<Rightarrow> ('w \<Rightarrow> RHash option) \<Rightarrow> HybridBucket \<Rightarrow> (HybridBucket \<times> 'w) option \<Rightarrow> bool" where
  "settled clk hash hb res \<longleftrightarrow>
     (\<exists>l w'. res = Some (hb\<lparr>hb_local := l\<rparr>, w') \<and> 0 \<le> clk w' \<and> written_before 0 (clk w') (hash w'))"

lemma settledI: "0 \<le> clk w \<Longrightarrow> written_before k (clk w) (hash w) \<Longrightarrow> 0 \<le> k \<Longrightarrow> settled clk hash hb (Some (hb\<lparr>hb_local := l\<rparr>, w))"
  unfolding settled_def written_before_def by fastforce

lemmas settledI_same = settledI [where l = "hb_local hb" and hb = hb for hb, simplified]

text \<open>A waiter that is done, or has given up on Redis.\<close>

definition ended :: "bool \<Rightarrow> ('w \<Rightarrow> int) \<Rightarrow> ('w \<Rightarrow> RHash option) \<Rightarrow> HybridBucket \<Rightarrow> (HybridBucket \<times> 'w) option \<Rightarrow> bool" where
  "ended fails clk hash hb res \<longleftrightarrow> settled clk hash hb res \<or> fails \<and> (\<exists>s. res = Some s)"

text \<open>Every round after the first brings at least a thousandth of a byte, or is the last.\<close>

lemma wait_loop_returns:
  assumes "exact N" "sole_waiter fails lib (hb_redisKey hb) clk hash" "hb_redisOK hb"
    and "1 \<le> hb_rate hb" "1 \<le> hb_capacity hb" "need \<le> of_nat k / 1000"
    and "0 \<le> clk w" "written_before 1 (clk w) (hash w)" "hash w \<noteq> None"
  shows "ended fails clk hash hb (wait_loop lib N need (hb, w))"
  using assms(6-)
proof (induction k arbitrary: need w)
  case 0
  then show ?case using settledI_same [of clk w 1 hash hb] by (simp add: wait_loop.simps ended_def)
next
  case (Suc k)
  show ?case
  proof (cases "0 < need")
    case False
    then show ?thesis using settledI_same [where clk = clk and w = w and hash = hash, OF Suc.prems(2,3)]
      by (simp add: wait_loop.simps [of lib N need] ended_def)
  next
    case True
    from Suc.prems(3) show ?thesis
    proof (rule poll_once [OF assms(1,2,4,5) batch_ge [OF assms(4)] Suc.prems(2) zero_le_one, of need])
      fix hb' w'
      assume "fails" "refillFromRedis lib N (batch_of hb need) (hb, w) = (0, hb', w')" "\<not> hb_redisOK hb'"
      then show ?thesis using True by (simp add: wait_loop.simps [of lib N need] ended_def)
    next
      fix g w'
      assume p: "refillFromRedis lib N (batch_of hb need) (hb, w) = (g, hb, w')" "0 \<le> g" "0 \<le> clk w'"
        "written_before 0 (clk w') (hash w')" "0 < (1 :: int) \<Longrightarrow> hash w \<noteq> None \<Longrightarrow> 1 / 1000 \<le> g" "hash w' \<noteq> None"
      have g: "1 / 1000 \<le> g" using p(5) Suc.prems(4) by simp
      show ?thesis
      proof (cases "need \<le> g")
        case True
        then show ?thesis using settledI [where clk = clk and w = w' and hash = hash, OF p(3,4)] p(1) \<open>0 < need\<close>
          by (simp add: wait_loop.simps [of lib N need] deposit_def ended_def)
      next
        case False
        note s = sleep_elapses [OF assms(2) p(3,4) poll_dur_min]
        have "need - g \<le> of_nat k / 1000" using Suc.prems(1) g by (simp add: field_simps)
        then have "ended fails clk hash hb (wait_loop lib N (need - g) (hb, bw_sleep lib (poll_dur N hb (need - g)) w'))"
          by (intro Suc.IH s(1,2)) (simp_all add: s(3) p(6))
        then show ?thesis
          using False True p(1) g assms(3) by (simp add: wait_loop.simps [of lib N need] Let_def exact_ops [OF assms(1)])
      qed
    qed
  qed
qed

lemma Wait_ends:
  assumes "exact N" "sole_waiter fails lib (hb_redisKey hb) clk hash" "hb_redisOK hb" "hb_rc hb"
    and "1 \<le> hb_rate hb" "1 \<le> hb_capacity hb" "0 \<le> clk w" "written_before 0 (clk w) (hash w)"
  shows "ended fails clk hash hb (Wait lib N n (hb, w))"
proof (cases "n \<le> 0 \<or> of_int n \<le> hb_local hb")
  case True
  then show ?thesis
    using assms(3,4) settledI [where clk = clk and w = w and hash = hash, OF assms(7,8)] settledI_same [where clk = clk and w = w and hash = hash, OF assms(7,8)]
    by (cases "n \<le> 0") (simp_all add: Wait_def wait_enter_def exact_ops [OF assms(1)] ended_def)
next
  case False
  define need where "need = of_int n - hb_local hb"
  let ?hb = "hb\<lparr>hb_local := 0\<rparr>"
  have need: "0 < need" using False by (simp add: need_def)
  have W: "Wait lib N n (hb, w) = wait_loop lib N need (?hb, w)"
    using False assms(3,4) by (simp add: Wait_def wait_enter_def exact_ops [OF assms(1)] need_def)
  have hb: "sole_waiter fails lib (hb_redisKey ?hb) clk hash" "1 \<le> hb_rate ?hb" "1 \<le> hb_capacity ?hb" "hb_redisOK ?hb"
    using assms by simp_all
  have "ended fails clk hash ?hb (wait_loop lib N need (?hb, w))"
    using assms(8)
  proof (rule poll_once [OF assms(1) hb(1-3) batch_ge [OF hb(2)] assms(7) order_refl, of need])
    fix hb' w'
    assume "fails" "refillFromRedis lib N (batch_of ?hb need) (?hb, w) = (0, hb', w')" "\<not> hb_redisOK hb'"
    then show ?thesis using need by (simp add: wait_loop.simps [of lib N need] ended_def)
  next
    fix g w'
    assume p: "refillFromRedis lib N (batch_of ?hb need) (?hb, w) = (g, ?hb, w')" "0 \<le> g" "0 \<le> clk w'"
      "written_before 0 (clk w') (hash w')" "hash w' \<noteq> None"
    define need' where "need' = (if 0 < g then need - g else need)"
    note s = sleep_elapses [OF hb(1) p(3,4) poll_dur_min]
    have "need' \<le> of_nat (nat \<lceil>1000 * need'\<rceil>) / 1000"
      using of_nat_ceiling [of "1000 * need'"] by (simp add: field_simps)
    then have "ended fails clk hash ?hb (wait_loop lib N need' (?hb, bw_sleep lib (poll_dur N ?hb need') w'))"
      by (intro wait_loop_returns [OF assms(1) hb(1,4,2,3)] s(1,2)) (simp_all add: s(3) p(5))
    then show ?thesis
      unfolding wait_loop.simps [of lib N need] using need p(1) assms(3) settledI [where clk = clk and w = w' and hash = hash and hb = ?hb, OF p(3,4)]
      by (cases "need \<le> g"; cases "0 < g") (simp_all add: need'_def Let_def exact_ops [OF assms(1)] deposit_def ended_def)
  qed
  then show ?thesis by (simp add: W settled_def ended_def)
qed

lemma Wait_settles:
  assumes "exact N" "lone_waiter lib (hb_redisKey hb) clk hash" "hb_redisOK hb" "hb_rc hb"
    and "1 \<le> hb_rate hb" "1 \<le> hb_capacity hb" "0 \<le> clk w" "written_before 0 (clk w) (hash w)"
  shows "settled clk hash hb (Wait lib N n (hb, w))"
  using Wait_ends [OF assms(1) assms(2) [unfolded lone_sole] assms(3-8)] by (simp add: ended_def)

text \<open>C14: \<open>Wait\<close> returns for a connection that nobody contends with: as long as no other waiter or proxy uses the Redis key
  of its session meanwhile, the rate and the capacity are at least a byte per second and a byte, and time passes while it sleeps,
  it returns for every number of bytes, wherever Redis fails: from the first call, at a later one, or never. Arithmetic is
  exact here. With others polling the same key it may be given nothing forever.\<close>

theorem Wait_returns:
  assumes "exact N" "sole_waiter True lib (hb_redisKey hb) clk hash"
    and "1 \<le> hb_rate hb" "1 \<le> hb_capacity hb" "0 \<le> clk w" "written_before 0 (clk w) (hash w)"
  shows "\<exists>s. Wait lib N n (hb, w) = Some s"
proof (cases "hb_redisOK hb \<and> hb_rc hb")
  case True
  then have "ended True clk hash hb (Wait lib N n (hb, w))" using assms by (intro Wait_ends) auto
  then show ?thesis by (auto simp: ended_def settled_def)
next
  case False
  then show ?thesis by (auto simp: Wait_def wait_enter_def Let_def split: prod.split entered.split)
qed

text \<open>A world with a clock in nanoseconds and the hash of one key.\<close>

record Sim =
  sim_clock :: int
  sim_hash :: "RHash option"

definition sim_lib :: "Sim BwLib" where
  "sim_lib = \<lparr>bw_now = (\<lambda>w. (sim_clock w, w)), bw_sleep = (\<lambda>d w. w\<lparr>sim_clock := sim_clock w + d\<rparr>),
     bw_run = (\<lambda>key f w. (Some (fst (f (sim_hash w))), w\<lparr>sim_hash := Some (snd (f (sim_hash w)))\<rparr>)),
     bw_probe = (\<lambda>w. w)\<rparr>"

lemma sim_lone: "lone_waiter sim_lib key sim_clock sim_hash"
  by (simp add: lone_waiter_def sim_lib_def)

text \<open>A Redis that fails from its second second on.\<close>

definition failing_lib :: "Sim BwLib" where
  "failing_lib = sim_lib\<lparr>bw_run := (\<lambda>key f w. if sim_clock w < 10 ^ 9 then bw_run sim_lib key f w else (None, w))\<rparr>"

theorem Wait_returns_witness:
  "\<exists>s. Wait failing_lib ideal 100 (NewHybridBucket 8 8 True ''s1'' 0, \<lparr>sim_clock = 0, sim_hash = None\<rparr>) = Some s"
proof (rule Wait_returns [OF exact_ideal])
  show "sole_waiter True failing_lib (hb_redisKey (NewHybridBucket 8 8 True ''s1'' 0)) sim_clock sim_hash"
    by (simp add: sole_waiter_def failing_lib_def sim_lib_def)
qed (simp_all add: NewHybridBucket_def written_before_def)

lemma script_starved:
  assumes "exact N" "\<forall>h. v = Some h \<longrightarrow> h_tokens h = 0" "0 \<le> req"
  shows "fst (luaTokenBucket N 0 0 req now ttl v) = 0" "h_tokens (snd (luaTokenBucket N 0 0 req now ttl v)) = 0"
proof -
  have a: "accrued N 0 0 e 0 = 0" for e by (simp add: accrued_def exact_ops [OF assms(1)])
  have g: "grant N (of_int req) 0 = (0, 0)" using grant_exact [OF assms(1), of 0 "of_int req"] assms(3) by simp
  show "fst (luaTokenBucket N 0 0 req now ttl v) = 0" "h_tokens (snd (luaTokenBucket N 0 0 req now ttl v)) = 0"
    using assms(2) by (cases v; simp add: luaTokenBucket_def exact_ops [OF assms(1)] a g)+
qed

definition starved ::
  "'w BwLib \<Rightarrow> Num \<Rightarrow> ('w \<Rightarrow> int) \<Rightarrow> ('w \<Rightarrow> RHash option) \<Rightarrow> rat \<Rightarrow> HybridBucket \<times> 'w \<Rightarrow> bool" where
  "starved lib N clk hash need s \<longleftrightarrow> exact N \<and> lone_waiter lib (hb_redisKey (fst s)) clk hash \<and> hb_redisOK (fst s) \<and>
     0 \<le> hb_rate (fst s) \<and> hb_rate (fst s) < 1 \<and> 0 \<le> hb_capacity (fst s) \<and> hb_capacity (fst s) < 1 \<and>
     0 < need \<and> (\<forall>h. hash (snd s) = Some h \<longrightarrow> h_tokens h = 0)"

lemma starved_poll:
  assumes "starved lib N clk hash need (hb, w)"
  obtains w' where "refillFromRedis lib N (batch_of hb need) (hb, w) = (0, hb, w')"
    "\<And>d. starved lib N clk hash need (hb, bw_sleep lib d w')"
proof -
  note a = assms [unfolded starved_def fst_conv snd_conv]
  have lone: "lone_waiter lib (hb_redisKey hb) clk hash" and N: "exact N" using a by blast+
  obtain now w1 where nw: "bw_now lib w = (now, w1)" by fastforce
  let ?f = "script_of N hb (batch_of hb need) now"
  obtain r w2 where run: "bw_run lib (hb_redisKey hb) ?f w1 = (r, w2)" by fastforce
  have "hash (snd (bw_now lib w)) = hash w" using lone by (simp add: lone_waiter_def)
  then have h1: "hash w1 = hash w" by (simp add: nw)
  have "fst (bw_run lib (hb_redisKey hb) ?f w1) = Some (fst (?f (hash w1))) \<and>
      hash (snd (bw_run lib (hb_redisKey hb) ?f w1)) = Some (snd (?f (hash w1)))"
    using lone by (simp only: lone_waiter_def)
  then have r: "r = Some (fst (?f (hash w)))" "hash w2 = Some (snd (?f (hash w)))" by (simp_all add: run h1)
  have tr: "trunc64 (hb_capacity hb) = 0" "trunc64 (hb_rate hb) = 0" "0 \<le> trunc64 (batch_of hb need)"
    using a by (auto simp: trunc64_def batch_of_def floor_eq_iff)
  have f: "fst (?f (hash w)) = 0" "h_tokens (snd (?f (hash w))) = 0"
    using script_starved [OF N _ tr(3)] a by (simp_all add: script_of_def tr)
  have "refillFromRedis lib N (batch_of hb need) (hb, w) = (0, hb, w2)"
    using run by (simp add: refillFromRedis_def nw r f)
  moreover have "hash (bw_sleep lib d w2) = hash w2" for d using lone by (simp add: lone_waiter_def)
  then have "starved lib N clk hash need (hb, bw_sleep lib d w2)" for d
    using a f(2) by (simp add: starved_def r(2))
  ultimately show thesis using that by blast
qed

lemma starved_stuck:
  assumes "wait_loop lib N need s = Some y"
  shows "\<not> starved lib N clk hash need s"
proof (rule wait_loop.raw_induct [where P = "\<lambda>lib N need s y. \<not> starved lib N clk hash need s", OF _ assms])
  fix wl lib N need y and s :: "HybridBucket \<times> 'a"
  assume IH: "\<And>lib N need s y. wl lib N need s = Some y \<Longrightarrow> \<not> starved lib N clk hash need s"
    and body: "(if \<not> 0 < need then Some s
      else case refillFromRedis lib N (batch_of (fst s) need) s of
        (granted, hb, w) \<Rightarrow>
          if need \<le> granted then Some (deposit N (fsub N granted need) hb, w)
          else let need' = (if 0 < granted then fsub N need granted else need) in
            if \<not> hb_redisOK hb then Some (hb, degraded_sleep lib N hb need' w)
            else wl lib N need' (hb, bw_sleep lib (poll_dur N hb need') w)) = Some y"
  show "\<not> starved lib N clk hash need s"
  proof
    assume st: "starved lib N clk hash need s"
    obtain hb w where s: "s = (hb, w)" by fastforce
    obtain w' where w': "refillFromRedis lib N (batch_of hb need) (hb, w) = (0, hb, w')"
      "\<And>d. starved lib N clk hash need (hb, bw_sleep lib d w')"
      using starved_poll [OF st [unfolded s]] by blast
    have "wl lib N need (hb, bw_sleep lib (poll_dur N hb need) w') = Some y"
      using body st by (simp add: s w'(1) Let_def starved_def)
    then show False using IH w'(2) by blast
  qed
qed

text \<open>C38: Below one byte per second \<open>Wait\<close> never returns: capacity and rate are truncated to zero on
  their way to Redis, which then grants nothing, however long the loop polls.\<close>

theorem Wait_never_returns:
  assumes "exact N" "lone_waiter lib (hb_redisKey hb) clk hash" "hb_redisOK hb" "hb_rc hb"
    and "0 \<le> hb_rate hb" "hb_rate hb < 1" "0 \<le> hb_capacity hb" "hb_capacity hb < 1"
    and "\<forall>h. hash w = Some h \<longrightarrow> h_tokens h = 0" "0 < n" "hb_local hb < of_int n"
  shows "Wait lib N n (hb, w) = None"
proof -
  have "starved lib N clk hash (of_int n - hb_local hb) (hb\<lparr>hb_local := 0\<rparr>, w)"
    using assms by (simp add: starved_def)
  then have "wait_loop lib N (of_int n - hb_local hb) (hb\<lparr>hb_local := 0\<rparr>, w) = None"
    using starved_stuck by (metis not_None_eq)
  then show ?thesis using assms by (simp add: Wait_def wait_enter_def exact_ops [OF assms(1)])
qed

theorem Wait_never_returns_witness:
  "Wait sim_lib ideal 1 (NewHybridBucket (1 / 2) (1 / 2) True ''s1'' 0, \<lparr>sim_clock = 0, sim_hash = None\<rparr>) = None"
  by (rule Wait_never_returns [OF exact_ideal sim_lone]) (simp_all add: NewHybridBucket_def)

section \<open>Without Redis\<close>


text \<open>Waiting for one chunk after the other.\<close>

fun wait_all :: "'w BwLib \<Rightarrow> Num \<Rightarrow> int list \<Rightarrow> HybridBucket \<times> 'w \<Rightarrow> (HybridBucket \<times> 'w) option" where
  "wait_all lib N [] s = Some s"
| "wait_all lib N (c # cs) s = (case Wait lib N c s of None \<Rightarrow> None | Some s' \<Rightarrow> wait_all lib N cs s')"


lemma seconds_exact: "exact N \<Longrightarrow> seconds N d = of_int d / 10 ^ 9"
  by (simp add: seconds_def Let_def exact_ops field_simps)







text \<open>A world in which only sleeping takes time, and exactly the time asked for.\<close>

definition punctual :: "'w BwLib \<Rightarrow> ('w \<Rightarrow> int) \<Rightarrow> bool" where
  "punctual lib clk \<longleftrightarrow>
     (\<forall>w. fst (bw_now lib w) = clk w \<and> clk (snd (bw_now lib w)) = clk w) \<and>
     (\<forall>d w. clk (bw_sleep lib d w) = clk w + d)"

lemma offline_pair:
  assumes N: "exact N" and p: "punctual lib clk" and "0 < chunk" "of_int chunk \<le> rate"
    and d: "of_int d = of_int chunk / rate * (10 ^ 9 :: rat)"
  obtains w' where "clk w' = clk w + d"
    "wait_all lib N [chunk, chunk] (NewHybridBucket rate rate False sid (clk w), w) =
       Some (NewHybridBucket rate rate False sid (clk w + d), w')"
proof -
  let ?hb = "NewHybridBucket rate rate False sid"
  have rate: "0 < rate" using assms(3,4) by (meson of_int_0_less_iff order_less_le_trans)
  then have "0 < (of_int d :: rat)" using assms(3) by (simp add: d)
  then have dpos: "0 < d" by simp
  have sec: "of_int d / 10 ^ 9 * rate = of_int chunk" using rate by (simp add: d)
  obtain w1 where w1: "bw_now lib w = (clk w, w1)" "clk w1 = clk w" using p by (metis prod.collapse punctual_def)
  define w2 where "w2 = bw_sleep lib d w1"
  have c2: "clk w2 = clk w + d" using p w1(2) by (simp add: w2_def punctual_def)
  then obtain w3 where w3: "bw_now lib w2 = (clk w + d, w3)" "clk w3 = clk w + d" using p by (metis prod.collapse punctual_def)
  have sl: "sleep_dur N (?hb t) (of_int chunk) = d" for t
  proof -
    have "sleep_dur N (?hb t) (of_int chunk) = trunc64 (of_int d)"
      by (simp only: sleep_dur_def exact_ops [OF N] d) (simp add: NewHybridBucket_def)
    then show ?thesis using dpos by (simp add: trunc64_def)
  qed
  have "accrue_local N (clk w) (?hb (clk w)) = ?hb (clk w)"
    by (simp add: accrue_local_def seconds_exact [OF N] NewHybridBucket_def)
  then have "wait_enter N (clk w) chunk (?hb (clk w)) = (Missing False (of_int chunk), ?hb (clk w))"
    using assms(3) by (simp add: wait_enter_def exact_ops [OF N]) (simp add: NewHybridBucket_def exact_ops [OF N])
  then have 1: "Wait lib N chunk (?hb (clk w), w) = Some (?hb (clk w), w2)"
    using assms(3) w1(1) rate dpos sl
    by (simp add: Wait_def degraded_sleep_def w2_def) (simp add: NewHybridBucket_def)
  have "accrue_local N (clk w + d) (?hb (clk w)) = (?hb (clk w + d))\<lparr>hb_local := of_int chunk\<rparr>"
    using dpos sec assms(4) by (simp add: accrue_local_def seconds_exact [OF N] exact_ops [OF N] NewHybridBucket_def)
  then have "wait_enter N (clk w + d) chunk (?hb (clk w)) = (Served, ?hb (clk w + d))"
    by (simp add: wait_enter_def exact_ops [OF N]) (simp add: NewHybridBucket_def exact_ops [OF N])
  then have 2: "Wait lib N chunk (?hb (clk w), w2) = Some (?hb (clk w + d), w3)"
    using assms(3) w3(1) by (simp add: Wait_def) (simp add: NewHybridBucket_def)
  show thesis using that [of w3] w3(2) 1 2 by simp
qed

lemma wait_all_append:
  "wait_all lib N (cs @ ds) s = (case wait_all lib N cs s of None \<Rightarrow> None | Some s' \<Rightarrow> wait_all lib N ds s')"
  by (induction cs arbitrary: s) (auto split: option.split)

text \<open>Without Redis the rate is not kept: the time a waiter sleeps is credited again to the next
  one, so chunks pass at twice the rate: \<open>2 n\<close> chunks take the time of \<open>n\<close>.\<close>

theorem offline_doubles_rate:
  assumes "exact N" "punctual lib clk" "0 < chunk" "of_int chunk \<le> rate"
    and "of_int d = of_int chunk / rate * (10 ^ 9 :: rat)"
  shows "\<exists>hb w'. clk w' = clk w + int n * d \<and>
    wait_all lib N (concat (replicate n [chunk, chunk])) (NewHybridBucket rate rate False sid (clk w), w) = Some (hb, w')"
proof (induction n arbitrary: w)
  case (Suc n)
  obtain w1 where w1: "clk w1 = clk w + d"
    "wait_all lib N [chunk, chunk] (NewHybridBucket rate rate False sid (clk w), w) =
       Some (NewHybridBucket rate rate False sid (clk w1), w1)"
    using offline_pair [OF assms] by metis
  obtain hb w' where "clk w' = clk w1 + int n * d"
    "wait_all lib N (concat (replicate n [chunk, chunk])) (NewHybridBucket rate rate False sid (clk w1), w1) = Some (hb, w')"
    using Suc.IH by blast
  then show ?case
    using w1 wait_all_append [of lib N "[chunk, chunk]" "concat (replicate n [chunk, chunk])"]
    by (auto simp: algebra_simps simp del: wait_all.simps)
qed simp

theorem offline_doubles_rate_witness:
  "\<exists>hb w'. sim_clock w' = 10 * 10 ^ 9 \<and>
    wait_all sim_lib ideal (concat (replicate 10 [8, 8])) (NewHybridBucket 8 8 False ''s1'' 0, \<lparr>sim_clock = 0, sim_hash = None\<rparr>) =
      Some (hb, w')"
  using offline_doubles_rate [OF exact_ideal, of sim_lib sim_clock 8 8 "10 ^ 9" "\<lparr>sim_clock = 0, sim_hash = None\<rparr>" 10 "''s1''"]
  by (simp add: punctual_def sim_lib_def del: wait_all.simps)

end
