(* ===== verification/Bandwidth_Fleet.thy ===== *)
theory Bandwidth_Fleet
  imports Bandwidth
begin

text \<open>
  All the waiters of one session (\<open>services/hybrid_bucket.go\<close>): the buckets that the proxies keep for
  it, the hash they share in Redis, and the calls of \<open>Wait\<close> in progress, whose critical sections, clock readings and
  script calls interleave in any order. One rule of \<open>fleet_step\<close> is one critical section, one reading of a
  clock, one run of the script in Redis, or one event of the surroundings: time passing, the hash expiring, a probe that finds
  Redis again, a proxy that starts to serve the session. A waiter reads the clock before its call, so calls may
  reach Redis in another order than the one of their readings, and each proxy has a clock of its own, at most \<open>S\<close>
  nanoseconds away from \<open>fl_clock\<close>. The script of a call that is reported as failed may still run at any later time.

  \<open>fl_passed\<close> counts the bytes let through. \<open>fl_offline\<close> counts what was let through on the strength
  of a local balance or a sleep while Redis was out of reach, and \<open>fl_failed\<close> says whether it ever
  was. \<open>fl_back\<close> adds up, in milliseconds, by how much the runs of the script have moved the last tick back;
  \<open>fl_base\<close> is that tick, and 300 seconds later once the hash has expired. \<open>fl_ran\<close> is when the script last ran.
\<close>












section \<open>The ledger\<close>









































end
