(* ===== verification/Session_Races.thy ===== *)
theory Session_Races
  imports Session_Limiter
begin

text \<open>
  The session limiter under concurrency (\<open>services/session_limiter.go\<close>). \<open>Acquire\<close> and the release
  function take no lock over their whole body: each mutex section and each atomic load or add is a step
  of its own, and the steps of all requests interleave. A thread is one request, with its program counter
  and the variables it holds: the pointer \<open>s\<close> to the session object and whether it reserved a big-file slot.
  Run alone, a thread is \<open>Acquire\<close> and \<open>Release\<close>; interleaved, the counters still account for what the
  threads hold, no session object is left behind, and the big-file cap holds per object, while the
  caps on the total and on a path can be exceeded by the requests that check at the same time.
\<close>

section \<open>Threads\<close>

datatype pc =
  Enter | AtTotal | AtClass | AtHash | AtAddBig | AtPath | AtConc | AtIps | AtAddTotal | AtAddConc
| InFlight | RelBig | RelTotal | RelDrop | Undo string | Done "string option"

record thread =
  th_sid :: string
  th_hash :: string
  th_path :: string
  th_ip :: string
  th_addr :: nat
  th_big :: bool
  th_pc :: pc

definition new_thread :: "string \<Rightarrow> string \<Rightarrow> string \<Rightarrow> string \<Rightarrow> thread" where
  "new_thread sid h p ip = \<lparr>th_sid = sid, th_hash = h, th_path = p, th_ip = ip, th_addr = 0, th_big = False, th_pc = Enter\<rparr>"

definition th_key :: "thread \<Rightarrow> string" where
  "th_key t = path_key (th_hash t) (th_path t)"

definition goto :: "pc \<Rightarrow> thread \<Rightarrow> thread" where
  "goto c t = t\<lparr>th_pc := c\<rparr>"

text \<open>The steps on the session object the thread points to.\<close>

definition obj_step :: "Limits \<Rightarrow> NetLib \<Rightarrow> int \<Rightarrow> thread \<Rightarrow> sessionState \<Rightarrow> thread \<times> sessionState" where
  "obj_step l net now t s =
     (case th_pc t of
        AtTotal \<Rightarrow> (goto (if total_full l s then Done (Some ''total'') else AtClass) t, s)
      | AtClass \<Rightarrow> (goto (if isBigFile l (th_hash t) (th_path t) then AtHash else AtPath) t, s)
      | AtHash \<Rightarrow> (goto AtAddBig t, getHash (th_hash t) s)
      | AtAddBig \<Rightarrow>
          (case tryAddBig (th_path t) (l_maxBigFilesPerHash l) (hash_of s (th_hash t)) of
             None \<Rightarrow> (goto (Done (Some ''bigfiles'')) t, s)
           | Some h \<Rightarrow> (goto AtPath (t\<lparr>th_big := True\<rparr>), set_hash (th_hash t) h s))
      | AtPath \<Rightarrow> (goto AtConc t, getPath (th_key t) s)
      | AtConc \<Rightarrow> (goto (if path_full l (th_key t) s then Undo ''path'' else AtIps) t, s)
      | AtIps \<Rightarrow> (case check_ips l net now (th_key t) (th_ip t) s of
                   (ok, s') \<Rightarrow> (goto (if ok then AtAddTotal else Undo ''ips'') t, s'))
      | AtAddTotal \<Rightarrow> (goto AtAddConc t, add_total 1 s)
      | AtAddConc \<Rightarrow> (goto InFlight t, add_conc (th_key t) 1 s)
      | Undo r \<Rightarrow> (goto (Done (Some r)) t, release_hash (th_big t) (th_hash t) (th_path t) s)
      | InFlight \<Rightarrow> (goto RelBig t, add_conc (th_key t) (- 1) s)
      | RelBig \<Rightarrow> (goto RelTotal t, release_hash (th_big t) (th_hash t) (th_path t) s)
      | RelTotal \<Rightarrow> (let s' = add_total (- 1) s in (goto (if ss_total s' \<le> 0 then RelDrop else Done None) t, s'))
      | _ \<Rightarrow> (t, s))"

definition th_ticket :: "thread \<Rightarrow> ticket" where
  "th_ticket t = \<lparr>k_sid = th_sid t, k_addr = th_addr t, k_hash = th_hash t, k_path = th_path t, k_big = th_big t\<rparr>"

definition micro :: "Limits \<Rightarrow> NetLib \<Rightarrow> int \<Rightarrow> thread \<times> LState \<Rightarrow> thread \<times> LState" where
  "micro l net now c =
     (case c of (t, st) \<Rightarrow>
      case th_pc t of
        Enter \<Rightarrow>
          if th_sid t = [] then (goto (Done None) t, st)
          else (case getSession (th_sid t) st of (a, st') \<Rightarrow> (goto AtTotal (t\<lparr>th_addr := a\<rparr>), st'))
      | RelDrop \<Rightarrow> (goto (Done None) t, drop_if_idle (th_ticket t) st)
      | _ \<Rightarrow> (case obj_step l net now t (ls_heap st (th_addr t)) of (t', s') \<Rightarrow> (t', on_heap (th_addr t) s' st)))"

text \<open>Requests arrive, take a step and leave; clock and size table differ from step to step.\<close>

inductive race_step ::
  "Limits \<Rightarrow> NetLib \<Rightarrow> LState \<times> thread multiset \<Rightarrow> LState \<times> thread multiset \<Rightarrow> bool" for l net where
  arrive: "size T < 2 ^ 31 - 1 \<Longrightarrow> race_step l net (st, T) (st, add_mset (new_thread sid h p ip) T)"
| move: "micro (with_sizes l f) net now (t, st) = (t', st') \<Longrightarrow>
     race_step l net (st, add_mset t T) (st', add_mset t' T)"
| leave: "th_pc t = Done r \<Longrightarrow> race_step l net (st, add_mset t T) (st, T)"

definition race_reachable :: "Limits \<Rightarrow> NetLib \<Rightarrow> LState \<Rightarrow> thread multiset \<Rightarrow> bool" where
  "race_reachable l net st T \<longleftrightarrow> (race_step l net)\<^sup>*\<^sup>* (init_state, {#}) (st, T)"

section \<open>A thread alone\<close>

definition acq_step :: "Limits \<Rightarrow> NetLib \<Rightarrow> int \<Rightarrow> thread \<times> LState \<Rightarrow> thread \<times> LState" where
  "acq_step l net now c =
     (case th_pc (fst c) of InFlight \<Rightarrow> c | Done r \<Rightarrow> c | _ \<Rightarrow> micro l net now c)"

definition verdict_of :: "thread \<Rightarrow> verdict" where
  "verdict_of t =
     (case th_pc t of Done None \<Rightarrow> Granted None | Done (Some r) \<Rightarrow> Rejected r | _ \<Rightarrow> Granted (Some (th_ticket t)))"

lemma on_heap_twice [simp]: "on_heap a s (on_heap a s' st) = on_heap a s st"
  by (simp add: on_heap_def)

lemma on_heap_same [simp]: "on_heap a (ls_heap st a) st = st"
  by (simp add: on_heap_def)

lemma ls_heap_on_heap [simp]: "ls_heap (on_heap a s st) a = s"
  by (simp add: on_heap_def)

lemma goto_simps [simp]:
  "th_pc (goto c t) = c" "th_sid (goto c t) = th_sid t" "th_hash (goto c t) = th_hash t" "th_path (goto c t) = th_path t"
  "th_ip (goto c t) = th_ip t" "th_addr (goto c t) = th_addr t" "th_big (goto c t) = th_big t" "th_key (goto c t) = th_key t"
  "goto c (goto c' t) = goto c t"
  by (simp_all add: goto_def th_key_def)

lemma th_key_upd [simp]: "th_key (t\<lparr>th_big := b\<rparr>) = th_key t" "th_key (t\<lparr>th_addr := a\<rparr>) = th_key t"
  by (simp_all add: th_key_def)

lemma acq_step_Enter:
  assumes "th_pc t = Enter" "th_sid t \<noteq> []" "getSession (th_sid t) st = (a, st1)"
  shows "acq_step l net now (t, st) = (goto AtTotal (t\<lparr>th_addr := a\<rparr>), on_heap a (ls_heap st1 a) st1)"
  using assms by (simp add: acq_step_def micro_def)

lemma acq_step_obj:
  assumes "th_pc t \<in> {AtTotal, AtClass, AtHash, AtAddBig, AtPath, AtConc, AtIps, AtAddTotal, AtAddConc} \<or> (\<exists>r. th_pc t = Undo r)"
  shows "acq_step l net now (t, on_heap (th_addr t) s st) =
    (fst (obj_step l net now t s), on_heap (th_addr t) (snd (obj_step l net now t s)) st)"
  using assms by (auto simp: acq_step_def micro_def case_prod_beta)

lemma acq_step_stop: "th_pc t = InFlight \<or> (\<exists>r. th_pc t = Done r) \<Longrightarrow> (acq_step l net now ^^ n) (t, st) = (t, st)"
  by (induction n) (auto simp: acq_step_def)

text \<open>The object steps from the check of the total on, run to the end.\<close>

fun obj_run :: "nat \<Rightarrow> Limits \<Rightarrow> NetLib \<Rightarrow> int \<Rightarrow> thread \<times> sessionState \<Rightarrow> thread \<times> sessionState" where
  "obj_run 0 l net now c = c"
| "obj_run (Suc n) l net now (t, s) =
     (case th_pc t of InFlight \<Rightarrow> (t, s) | Done r \<Rightarrow> (t, s) | _ \<Rightarrow> obj_run n l net now (obj_step l net now t s))"

lemma obj_step_addr: "th_addr (fst (obj_step l net now t s)) = th_addr t"
  by (auto simp: obj_step_def Let_def split: pc.split option.split prod.split)

definition on_object :: "pc \<Rightarrow> bool" where
  "on_object c \<longleftrightarrow> c \<notin> {Enter, RelDrop}"

lemma obj_step_on_object:
  assumes "on_object (th_pc t)" "\<forall>r. th_pc t \<noteq> Done r" "th_pc t \<notin> {InFlight, RelBig, RelTotal}"
  shows "on_object (th_pc (fst (obj_step l net now t s)))"
    "th_pc (fst (obj_step l net now t s)) \<notin> {RelBig, RelTotal}"
  using assms by (auto simp: on_object_def obj_step_def Let_def split: pc.splits option.split prod.split)

lemma acq_run:
  assumes "on_object (th_pc t)" "th_pc t \<notin> {RelBig, RelTotal}"
  shows "(acq_step l net now ^^ n) (t, on_heap (th_addr t) s st) =
    (case obj_run n l net now (t, s) of (t', s') \<Rightarrow> (t', on_heap (th_addr t) s' st))"
  using assms
proof (induction n arbitrary: t s)
  case (Suc n)
  show ?case
  proof (cases "th_pc t = InFlight \<or> (\<exists>r. th_pc t = Done r)")
    case True
    then show ?thesis using acq_step_stop [of t "Suc n"] by auto
  next
    case False
    let ?o = "obj_step l net now t s"
    have "acq_step l net now (t, on_heap (th_addr t) s st) = (fst ?o, on_heap (th_addr t) (snd ?o) st)"
      using False Suc.prems by (intro acq_step_obj) (cases "th_pc t"; auto simp: on_object_def)
    then have "(acq_step l net now ^^ Suc n) (t, on_heap (th_addr t) s st) =
        (acq_step l net now ^^ n) (fst ?o, on_heap (th_addr (fst ?o)) (snd ?o) st)"
      by (simp add: funpow_swap1 obj_step_addr)
    also have "\<dots> = (case obj_run n l net now ?o of (t', s') \<Rightarrow> (t', on_heap (th_addr t) s' st))"
      using Suc.IH [of "fst ?o" "snd ?o"] obj_step_on_object [of t l net now s] False Suc.prems
      by (auto simp: obj_step_addr)
    finally show ?thesis using False Suc.prems by (cases "th_pc t") (auto simp: on_object_def)
  qed
qed simp

lemma obj_run_acquire:
  assumes "th_pc t = AtTotal" "\<not> th_big t"
  shows "obj_run 9 l net now (t, s) =
    (case acquire_session l net now (th_hash t) (th_path t) (th_ip t) s of
       (Inl r, s') \<Rightarrow> (goto (Done (Some r)) (t\<lparr>th_big := r \<in> {''path'', ''ips''} \<and> isBigFile l (th_hash t) (th_path t)\<rparr>), s')
     | (Inr b, s') \<Rightarrow> (goto InFlight (t\<lparr>th_big := b\<rparr>), s'))"
proof -
  have t: "t\<lparr>th_big := False\<rparr> = t" "goto AtTotal t = t" using assms by (simp_all add: goto_def)
  show ?thesis
    using assms t
    by (auto simp: eval_nat_numeral obj_step_def acquire_session_def reserve_big_def Let_def th_key_def [symmetric]
        split: option.split prod.split sum.split)
qed

lemma ten_steps: "(f ^^ 10) c = (f ^^ 9) (f c)"
  using funpow_Suc_right [of 9 f] by (simp only: eval_nat_numeral) simp

lemma alone_acquires:
  "map_prod verdict_of id ((acq_step l net now ^^ 10) (new_thread sid h p ip, st)) = Acquire l net now sid h p ip st"
proof (cases "sid = []")
  case True
  then have "acq_step l net now (new_thread sid h p ip, st) = (goto (Done None) (new_thread sid h p ip), st)"
    by (simp add: acq_step_def micro_def new_thread_def)
  then have "(acq_step l net now ^^ 10) (new_thread sid h p ip, st) = (goto (Done None) (new_thread sid h p ip), st)"
    using acq_step_stop [of "goto (Done None) (new_thread sid h p ip)" 9 l net now st] by (simp only: ten_steps) simp
  then show ?thesis using True by (simp add: Acquire_def verdict_of_def)
next
  case False
  obtain a st1 where g: "getSession sid st = (a, st1)" by fastforce
  define t where "t = goto AtTotal ((new_thread sid h p ip)\<lparr>th_addr := a\<rparr>)"
  have t: "th_pc t = AtTotal" "\<not> th_big t" "th_addr t = a" "th_sid t = sid" "th_hash t = h" "th_path t = p" "th_ip t = ip"
    by (simp_all add: t_def new_thread_def)
  have "acq_step l net now (new_thread sid h p ip, st) = (t, on_heap a (ls_heap st1 a) st1)"
    using acq_step_Enter [of "new_thread sid h p ip" st a st1] False g by (simp add: t_def new_thread_def)
  then have "(acq_step l net now ^^ 10) (new_thread sid h p ip, st) =
      (acq_step l net now ^^ 9) (t, on_heap (th_addr t) (ls_heap st1 a) st1)"
    by (simp only: ten_steps t)
  also have "\<dots> = (case obj_run 9 l net now (t, ls_heap st1 a) of (t', s') \<Rightarrow> (t', on_heap a s' st1))"
    using acq_run [of t] t by (simp add: on_object_def del: on_heap_same)
  finally show ?thesis
    using False t by (auto simp: obj_run_acquire Acquire_def g verdict_of_def th_ticket_def split: prod.splits sum.splits)
qed

lemma alone_releases:
  assumes "th_pc t = InFlight"
  shows "(micro l net now ^^ 4) (t, st) = (goto (Done None) t, Release (th_ticket t) st)"
  using assms
  by (auto simp: eval_nat_numeral micro_def obj_step_def Let_def Release_def release_session_def th_ticket_def
      drop_if_idle_def th_key_def)

text \<open>Run without interruption, the steps of a thread are \<open>Acquire\<close> and the release function: ten steps
  end with the verdict of \<open>Acquire\<close> and the state it leaves, and four steps of a request in flight end
  with the state \<open>Release\<close> leaves.\<close>

theorem thread_alone:
  "map_prod verdict_of id ((acq_step l net now ^^ 10) (new_thread sid h p ip, st)) = Acquire l net now sid h p ip st \<and>
   (micro l net now ^^ 4) (goto InFlight t, st) = (goto (Done None) t, Release (th_ticket t) st)"
  using alone_acquires alone_releases [of "goto InFlight t"] by (simp add: th_ticket_def)

section \<open>Accounting\<close>

text \<open>What a thread counts for on its session object.\<close>

definition early :: "pc \<Rightarrow> bool" where
  "early c \<longleftrightarrow> c \<in> {Enter, AtTotal, AtClass, AtHash, AtAddBig}"

definition tot_pc :: "pc \<Rightarrow> bool" where
  "tot_pc c \<longleftrightarrow> c \<in> {AtAddConc, InFlight, RelBig, RelTotal}"

definition big_pc :: "pc \<Rightarrow> bool" where
  "big_pc c \<longleftrightarrow> c \<in> {AtPath, AtConc, AtIps, AtAddTotal, AtAddConc, InFlight, RelBig} \<or> (\<exists>r. c = Undo r)"

definition n_total :: "nat \<Rightarrow> thread multiset \<Rightarrow> nat" where
  "n_total a T = size (filter_mset (\<lambda>t. th_addr t = a \<and> tot_pc (th_pc t)) T)"

definition conc_held :: "nat \<Rightarrow> thread multiset \<Rightarrow> string multiset" where
  "conc_held a T = image_mset th_key (filter_mset (\<lambda>t. th_addr t = a \<and> th_pc t = InFlight) T)"

definition big_held :: "nat \<Rightarrow> thread multiset \<Rightarrow> (string \<times> string) multiset" where
  "big_held a T = image_mset (\<lambda>t. (th_hash t, th_path t))
     (filter_mset (\<lambda>t. th_addr t = a \<and> th_big t \<and> big_pc (th_pc t)) T)"

definition obj_acct :: "Limits \<Rightarrow> nat \<Rightarrow> thread multiset \<Rightarrow> sessionState \<Rightarrow> bool" where
  "obj_acct l a T s \<longleftrightarrow> ss_total s = int (n_total a T) \<and>
     (\<forall>key. ps_conc (path_of s key) = int (count (conc_held a T) key)) \<and>
     big_cnt s = (\<lambda>k. int (count (big_held a T) k)) \<and> pos_session s \<and>
     (0 < l_maxBigFilesPerHash l \<longrightarrow> (\<forall>h. int (map_len (hash_of s h)) \<le> l_maxBigFilesPerHash l))"

lemma held_add [simp]:
  "n_total a (add_mset t T) = (if th_addr t = a \<and> tot_pc (th_pc t) then Suc (n_total a T) else n_total a T)"
  "conc_held a (add_mset t T) = (if th_addr t = a \<and> th_pc t = InFlight then add_mset (th_key t) (conc_held a T) else conc_held a T)"
  "big_held a (add_mset t T) =
     (if th_addr t = a \<and> th_big t \<and> big_pc (th_pc t) then add_mset (th_hash t, th_path t) (big_held a T) else big_held a T)"
  by (simp_all add: n_total_def conc_held_def big_held_def)

lemma held_empty [simp]: "n_total a {#} = 0" "conc_held a {#} = {#}" "big_held a {#} = {#}"
  by (simp_all add: n_total_def conc_held_def big_held_def)

lemma pc_simps [simp]:
  "early Enter" "early AtTotal" "early AtClass" "early AtHash" "early AtAddBig" "\<not> early AtPath" "\<not> early AtConc"
  "\<not> early AtIps" "\<not> early AtAddTotal" "\<not> early AtAddConc" "\<not> early InFlight" "\<not> early RelBig" "\<not> early RelTotal"
  "\<not> early RelDrop" "\<not> early (Undo r)" "\<not> early (Done x)"
  "\<not> tot_pc Enter" "\<not> tot_pc AtTotal" "\<not> tot_pc AtClass" "\<not> tot_pc AtHash" "\<not> tot_pc AtAddBig" "\<not> tot_pc AtPath"
  "\<not> tot_pc AtConc" "\<not> tot_pc AtIps" "\<not> tot_pc AtAddTotal" "tot_pc AtAddConc" "tot_pc InFlight" "tot_pc RelBig"
  "tot_pc RelTotal" "\<not> tot_pc RelDrop" "\<not> tot_pc (Undo r)" "\<not> tot_pc (Done x)"
  "\<not> big_pc Enter" "\<not> big_pc AtTotal" "\<not> big_pc AtClass" "\<not> big_pc AtHash" "\<not> big_pc AtAddBig" "big_pc AtPath"
  "big_pc AtConc" "big_pc AtIps" "big_pc AtAddTotal" "big_pc AtAddConc" "big_pc InFlight" "big_pc RelBig"
  "\<not> big_pc RelTotal" "\<not> big_pc RelDrop" "big_pc (Undo r)" "\<not> big_pc (Done x)"
  by (simp_all add: early_def tot_pc_def big_pc_def)

lemma n_total_le: "n_total a T \<le> size T"
  by (simp add: n_total_def size_filter_mset_lesseq)

lemma conc_held_le: "count (conc_held a T) key \<le> size T"
  using count_le_size [of "conc_held a T" key]
  by (simp add: conc_held_def) (meson le_trans size_filter_mset_lesseq)

lemma map_len_tryAddBig:
  assumes "tryAddBig p m h = Some h'" "0 < m" "int (map_len h) \<le> m"
  shows "int (map_len h') \<le> m"
proof -
  have "map_len h' = (if fmlookup h p = None then Suc (map_len h) else map_len h)"
    using assms(1) by (auto simp: tryAddBig_def map_len_def fmlookup_dom'_iff card_insert_if split: if_splits)
  then show ?thesis using assms by (auto simp: tryAddBig_def split: if_splits)
qed

lemma map_len_releaseBig: "map_len (releaseBig p h) \<le> map_len h"
proof -
  have "fmdom' (releaseBig p h) \<subseteq> fmdom' h"
    by (auto simp: releaseBig_def Let_def count_of_def fmlookup_dom'_iff split: if_splits option.splits)
  then show ?thesis by (simp add: map_len_def card_mono)
qed

lemma obj_acct_release_hash:
  assumes "obj_acct l a (add_mset t T) s" "th_addr t = a" "big_pc (th_pc t)"
    and "tot_pc (th_pc t') = tot_pc (th_pc t)" "th_pc t \<noteq> InFlight" "th_pc t' \<noteq> InFlight" "th_addr t' = a" "\<not> big_pc (th_pc t')"
  shows "obj_acct l a (add_mset t' T) (release_hash (th_big t) (th_hash t) (th_path t) s)"
proof (cases "th_big t")
  case True
  let ?k = "(th_hash t, th_path t)" and ?s = "release_hash True (th_hash t) (th_path t) s"
  have pos: "pos_session s" and big: "big_cnt s = (\<lambda>k. int (count (add_mset ?k (big_held a T)) k))"
    using assms True by (auto simp: obj_acct_def)
  have "pos_session ?s \<and> big_cnt ?s = (\<lambda>k. int (count (big_held a T) k))"
    using bs.track_del [OF pos big, of ?k] by simp
  moreover have "int (map_len (hash_of ?s h)) \<le> l_maxBigFilesPerHash l" if "0 < l_maxBigFilesPerHash l" for h
    using assms(1) that map_len_releaseBig [of "th_path t" "hash_of s (th_hash t)"]
    by (auto simp: obj_acct_def intro: order_trans [rotated])
  ultimately show ?thesis using assms True by (auto simp: obj_acct_def)
next
  case False
  then have "release_hash (th_big t) (th_hash t) (th_path t) s = s" by (simp add: release_hash_def)
  with assms False show ?thesis by (simp add: obj_acct_def)
qed

lemma obj_acct_same:
  assumes "obj_acct l a (add_mset t T) s" "th_addr t = a" "th_addr t' = a" "tot_pc (th_pc t') = tot_pc (th_pc t)"
    "(th_pc t' = InFlight) = (th_pc t = InFlight)" "(th_big t' \<and> big_pc (th_pc t')) = (th_big t \<and> big_pc (th_pc t))"
    "th_hash t' = th_hash t" "th_path t' = th_path t"
  shows "obj_acct l a (add_mset t' T) s"
  using assms by (simp add: obj_acct_def th_key_def)

lemma obj_acct_get: "obj_acct l a T s \<Longrightarrow> obj_acct l a T (getHash h s)" "obj_acct l a T s \<Longrightarrow> obj_acct l a T (getPath key s)"
  by (simp_all add: obj_acct_def)

lemma obj_acct_counters:
  assumes acct: "obj_acct l a (add_mset t T) s" and a: "th_addr t = a" and sz: "size (add_mset t T) < 2 ^ 31"
  shows "th_pc t = AtAddTotal \<Longrightarrow> obj_acct l a (add_mset (goto AtAddConc t) T) (add_total 1 s)"
    and "th_pc t = AtAddConc \<Longrightarrow> obj_acct l a (add_mset (goto InFlight t) T) (add_conc (th_key t) 1 s)"
    and "th_pc t = InFlight \<Longrightarrow> obj_acct l a (add_mset (goto RelBig t) T) (add_conc (th_key t) (- 1) s)"
    and "th_pc t = RelTotal \<Longrightarrow> \<not> tot_pc c \<Longrightarrow> \<not> big_pc c \<Longrightarrow> c \<noteq> InFlight \<Longrightarrow>
      obj_acct l a (add_mset (goto c t) T) (add_total (- 1) s)"
proof -
  have "wrap32 (int (n_total a T) + 1) = int (n_total a T) + 1" "wrap32 (int (n_total a T)) = int (n_total a T)"
      "wrap32 (int (count (conc_held a T) (th_key t)) + 1) = int (count (conc_held a T) (th_key t)) + 1"
      "wrap32 (int (count (conc_held a T) (th_key t))) = int (count (conc_held a T) (th_key t))"
    using sz n_total_le [of a T] conc_held_le [of a T "th_key t"] by (auto intro!: wrap32_id)
  note wr = this [simplified add.commute [of _ 1]]
  show "th_pc t = AtAddTotal \<Longrightarrow> obj_acct l a (add_mset (goto AtAddConc t) T) (add_total 1 s)"
    using acct a wr(1) by (simp add: obj_acct_def add.commute)
  show "th_pc t = AtAddConc \<Longrightarrow> obj_acct l a (add_mset (goto InFlight t) T) (add_conc (th_key t) 1 s)"
    using acct a wr(3) by (simp add: obj_acct_def add.commute)
  show "th_pc t = InFlight \<Longrightarrow> obj_acct l a (add_mset (goto RelBig t) T) (add_conc (th_key t) (- 1) s)"
    using acct a wr(4) by (simp add: obj_acct_def)
  show "th_pc t = RelTotal \<Longrightarrow> \<not> tot_pc c \<Longrightarrow> \<not> big_pc c \<Longrightarrow> c \<noteq> InFlight \<Longrightarrow>
      obj_acct l a (add_mset (goto c t) T) (add_total (- 1) s)"
    using acct a wr(2) by (simp add: obj_acct_def)
qed

lemma obj_acct_reserve:
  assumes acct: "obj_acct l a (add_mset t T) s" and a: "th_addr t = a" and "\<not> th_big t" and pc: "th_pc t = AtAddBig"
    and Some: "tryAddBig (th_path t) (l_maxBigFilesPerHash l) (hash_of s (th_hash t)) = Some h"
  shows "obj_acct l a (add_mset (goto AtPath (t\<lparr>th_big := True\<rparr>)) T) (set_hash (th_hash t) h s)"
proof -
  let ?k = "(th_hash t, th_path t)" and ?s = "set_hash (th_hash t) h s"
  have big: "big_cnt s = (\<lambda>k. int (count (big_held a T) k))" and pos: "pos_session s"
    using acct pc by (simp_all add: obj_acct_def)
  have "big_cnt ?s = (\<lambda>k. int (count (add_mset ?k (big_held a T)) k))"
    using big_cnt_set_hash [of h s "th_hash t" "th_path t"] count_of_tryAddBig [OF Some] big
    by (auto simp: big_cnt_def fun_eq_iff)
  moreover have "pos_session ?s" using pos pos_map_tryAddBig [OF _ Some] by (auto simp: pos_session_def)
  moreover have "\<forall>h. int (map_len (hash_of ?s h)) \<le> l_maxBigFilesPerHash l" if "0 < l_maxBigFilesPerHash l"
    using acct that map_len_tryAddBig [OF Some that] by (auto simp: obj_acct_def)
  ultimately show ?thesis using acct pc a by (simp add: obj_acct_def)
qed

text \<open>The step of a thread, case by case.\<close>

lemma obj_step_pc:
  "th_pc t = AtTotal \<Longrightarrow> obj_step l net now t s = (goto (if total_full l s then Done (Some ''total'') else AtClass) t, s)"
  "th_pc t = AtClass \<Longrightarrow> obj_step l net now t s = (goto (if isBigFile l (th_hash t) (th_path t) then AtHash else AtPath) t, s)"
  "th_pc t = AtHash \<Longrightarrow> obj_step l net now t s = (goto AtAddBig t, getHash (th_hash t) s)"
  "th_pc t = AtPath \<Longrightarrow> obj_step l net now t s = (goto AtConc t, getPath (th_key t) s)"
  "th_pc t = AtConc \<Longrightarrow> obj_step l net now t s = (goto (if path_full l (th_key t) s then Undo ''path'' else AtIps) t, s)"
  "th_pc t = AtAddTotal \<Longrightarrow> obj_step l net now t s = (goto AtAddConc t, add_total 1 s)"
  "th_pc t = AtAddConc \<Longrightarrow> obj_step l net now t s = (goto InFlight t, add_conc (th_key t) 1 s)"
  "th_pc t = Undo r \<Longrightarrow> obj_step l net now t s = (goto (Done (Some r)) t, release_hash (th_big t) (th_hash t) (th_path t) s)"
  "th_pc t = InFlight \<Longrightarrow> obj_step l net now t s = (goto RelBig t, add_conc (th_key t) (- 1) s)"
  "th_pc t = RelBig \<Longrightarrow> obj_step l net now t s = (goto RelTotal t, release_hash (th_big t) (th_hash t) (th_path t) s)"
  "th_pc t = RelTotal \<Longrightarrow> obj_step l net now t s =
     (goto (if ss_total (add_total (- 1) s) \<le> 0 then RelDrop else Done None) t, add_total (- 1) s)"
  "th_pc t = Done x \<Longrightarrow> obj_step l net now t s = (t, s)"
  by (simp_all add: obj_step_def Let_def)

lemma obj_step_AtAddBig:
  "th_pc t = AtAddBig \<Longrightarrow> obj_step l net now t s =
     (case tryAddBig (th_path t) (l_maxBigFilesPerHash l) (hash_of s (th_hash t)) of
        None \<Rightarrow> (goto (Done (Some ''bigfiles'')) t, s)
      | Some h \<Rightarrow> (goto AtPath (t\<lparr>th_big := True\<rparr>), set_hash (th_hash t) h s))"
  by (simp add: obj_step_def)

lemma obj_step_AtIps:
  "th_pc t = AtIps \<Longrightarrow> obj_step l net now t s =
     (goto (if fst (check_ips l net now (th_key t) (th_ip t) s) then AtAddTotal else Undo ''ips'') t,
      snd (check_ips l net now (th_key t) (th_ip t) s))"
  by (simp add: obj_step_def case_prod_beta)

lemma obj_acct_ips: "obj_acct l a T s \<Longrightarrow> obj_acct l a T (snd (check_ips l' net now key ip s))"
  using check_ips_frame [OF prod.collapse [symmetric], of l' net now key ip s] by (simp add: obj_acct_def)

lemma with_sizes_caps [simp]: "l_maxBigFilesPerHash (with_sizes l f) = l_maxBigFilesPerHash l"
  "l_maxTotal (with_sizes l f) = l_maxTotal l" "l_maxPerPath (with_sizes l f) = l_maxPerPath l"
  "l_maxIPsPerSession (with_sizes l f) = l_maxIPsPerSession l"
  by (simp_all add: with_sizes_def)

lemma obj_acct_goto:
  assumes "obj_acct l a (add_mset t T) s" "th_addr t = a" "tot_pc c = tot_pc (th_pc t)" "c \<noteq> InFlight" "th_pc t \<noteq> InFlight"
    "th_big t \<Longrightarrow> big_pc c = big_pc (th_pc t)"
  shows "obj_acct l a (add_mset (goto c t) T) s"
  by (rule obj_acct_same [OF assms(1,2)]) (use assms(2-) in auto)

lemma obj_step_acct:
  assumes acct: "obj_acct l a (add_mset t T) s" and a: "th_addr t = a" and sz: "size (add_mset t T) < 2 ^ 31"
    and early: "early (th_pc t) \<Longrightarrow> \<not> th_big t" and pc: "th_pc t \<notin> {Enter, RelDrop}"
  shows "obj_acct l a (add_mset (fst (obj_step (with_sizes l f) net now t s)) T) (snd (obj_step (with_sizes l f) net now t s))"
proof -
  note go = obj_acct_goto [OF acct a] and rel = obj_acct_release_hash [OF acct a] and cnt = obj_acct_counters [OF acct a sz]
  show ?thesis
  proof (cases "th_pc t")
    case AtAddBig
    then show ?thesis
      using early obj_acct_reserve [OF acct a _ AtAddBig] go [of "Done (Some ''bigfiles'')"]
      by (simp add: obj_step_AtAddBig split: option.split)
  next
    case AtIps
    then show ?thesis using go [of AtAddTotal] go [of "Undo ''ips''"] by (simp add: obj_step_AtIps obj_acct_ips)
  next
    case (Undo r)
    then show ?thesis using a rel [of "goto (Done (Some r)) t"] by (simp add: obj_step_pc)
  next
    case RelBig
    then show ?thesis using a rel [of "goto RelTotal t"] by (simp add: obj_step_pc)
  next
    case RelTotal
    then show ?thesis using cnt(4) [of RelDrop] cnt(4) [of "Done None"] by (simp add: obj_step_pc)
  next
    case AtTotal
    then show ?thesis using go [of "Done (Some ''total'')"] go [of AtClass] by (simp add: obj_step_pc)
  next
    case AtClass
    then show ?thesis using early go [of AtHash] go [of AtPath] by (simp add: obj_step_pc)
  next
    case AtHash
    then show ?thesis using go [of AtAddBig] by (simp add: obj_step_pc obj_acct_get)
  next
    case AtPath
    then show ?thesis using go [of AtConc] by (simp add: obj_step_pc obj_acct_get)
  next
    case AtConc
    then show ?thesis using go [of "Undo ''path''"] go [of AtIps] by (simp add: obj_step_pc)
  next
    case AtAddTotal
    then show ?thesis using cnt(1) by (simp add: obj_step_pc)
  next
    case AtAddConc
    then show ?thesis using cnt(2) by (simp add: obj_step_pc)
  next
    case InFlight
    then show ?thesis using cnt(3) by (simp add: obj_step_pc)
  qed (use pc acct in \<open>simp_all add: obj_step_pc\<close>)
qed

section \<open>No session is left behind\<close>

text \<open>
  A thread past its last check is \<^emph>\<open>committed\<close>: it will be counted, and the last such thread of an object
  removes the session. A thread before it is \<^emph>\<open>promising\<close>. An object in the map has a committed thread,
  or nobody was counted on it yet and all its threads are promising: then the first one that reaches the last
  check passes it, since nothing on the object can make it fail.
\<close>

definition committed :: "pc \<Rightarrow> bool" where
  "committed c \<longleftrightarrow> c \<in> {AtAddTotal, AtAddConc, InFlight, RelBig, RelTotal, RelDrop}"

definition promising :: "pc \<Rightarrow> bool" where
  "promising c \<longleftrightarrow> c \<in> {AtTotal, AtClass, AtHash, AtAddBig, AtPath, AtConc, AtIps}"

definition started :: "pc \<Rightarrow> bool" where
  "started c \<longleftrightarrow> c \<noteq> Enter \<and> (\<forall>r. c \<noteq> Done r)"

definition no_ips :: "sessionState \<Rightarrow> bool" where
  "no_ips s \<longleftrightarrow> (\<forall>key. ps_ips (path_of s key) = fmempty)"

definition has_committed :: "nat \<Rightarrow> thread multiset \<Rightarrow> bool" where
  "has_committed a T \<longleftrightarrow> (\<exists>t. t \<in># T \<and> th_addr t = a \<and> committed (th_pc t))"

definition untouched :: "nat \<Rightarrow> thread multiset \<Rightarrow> sessionState \<Rightarrow> bool" where
  "untouched a T s \<longleftrightarrow> no_ips s \<and> (\<exists>t. t \<in># T \<and> th_addr t = a \<and> promising (th_pc t)) \<and>
     (\<forall>t. t \<in># T \<longrightarrow> th_addr t = a \<longrightarrow> started (th_pc t) \<longrightarrow> promising (th_pc t))"

definition kept :: "nat \<Rightarrow> thread multiset \<Rightarrow> sessionState \<Rightarrow> bool" where
  "kept a T s \<longleftrightarrow> has_committed a T \<or> untouched a T s"

lemma phase_simps [simp]:
  "\<not> committed Enter" "\<not> committed AtTotal" "\<not> committed AtClass" "\<not> committed AtHash" "\<not> committed AtAddBig"
  "\<not> committed AtPath" "\<not> committed AtConc" "\<not> committed AtIps" "committed AtAddTotal" "committed AtAddConc"
  "committed InFlight" "committed RelBig" "committed RelTotal" "committed RelDrop" "\<not> committed (Undo r)" "\<not> committed (Done x)"
  "\<not> promising Enter" "promising AtTotal" "promising AtClass" "promising AtHash" "promising AtAddBig"
  "promising AtPath" "promising AtConc" "promising AtIps" "\<not> promising AtAddTotal" "\<not> promising AtAddConc"
  "\<not> promising InFlight" "\<not> promising RelBig" "\<not> promising RelTotal" "\<not> promising RelDrop" "\<not> promising (Undo r)"
  "\<not> promising (Done x)" "\<not> started Enter" "\<not> started (Done x)"
  by (simp_all add: committed_def promising_def started_def)

lemma started_iff: "started c \<longleftrightarrow> committed c \<or> promising c \<or> (\<exists>r. c = Undo r)"
  by (cases c) (simp_all add: started_def)

lemma tot_pc_committed: "tot_pc c \<Longrightarrow> committed c"
  by (cases c) simp_all

lemma big_pc_started: "big_pc c \<Longrightarrow> started c"
  by (cases c) (simp_all add: started_def)

lemma has_committed_add [simp]:
  "has_committed a (add_mset t T) \<longleftrightarrow> th_addr t = a \<and> committed (th_pc t) \<or> has_committed a T"
  by (auto simp: has_committed_def)

lemma held_committed:
  "0 < n_total a T \<Longrightarrow> has_committed a T" "0 < count (conc_held a T) key \<Longrightarrow> has_committed a T"
proof -
  assume "0 < n_total a T"
  then obtain t where "t \<in># filter_mset (\<lambda>t. th_addr t = a \<and> tot_pc (th_pc t)) T"
    unfolding n_total_def by (metis multiset_nonemptyE nonempty_has_size)
  then show "has_committed a T" by (auto simp: has_committed_def intro: tot_pc_committed)
next
  assume "0 < count (conc_held a T) key"
  then obtain t where "t \<in># T" "th_addr t = a" "th_pc t = InFlight" by (auto simp: conc_held_def)
  then show "has_committed a T" unfolding has_committed_def by (metis phase_simps(11))
qed

lemma no_ips_simps [simp]:
  "no_ips (getHash h s) = no_ips s" "no_ips (getPath key s) = no_ips s" "no_ips (set_hash h x s) = no_ips s"
  by (simp_all add: no_ips_def)

lemma check_ips_fresh: "no_ips s \<Longrightarrow> fst (check_ips l net now key ip s)"
  by (simp add: no_ips_def fst_check_ips ips_ok_def trackIP_def Let_def count_of_def map_len_def ipWindow_def)

lemma untouched_goto:
  assumes "untouched a (add_mset t T) s" "promising (th_pc t')" "th_addr t' = a" "no_ips s' = no_ips s"
  shows "untouched a (add_mset t' T) s'"
  using assms by (auto simp: untouched_def)

lemma rejected_big_other:
  assumes "obj_acct l a (add_mset t T) s" "th_pc t = AtAddBig"
    and "tryAddBig p (l_maxBigFilesPerHash l) (hash_of s h) = None"
  obtains u where "u \<in># T" "th_addr u = a" "big_pc (th_pc u)"
proof -
  have "0 < map_len (hash_of s h)" using assms(3) by (auto simp: tryAddBig_def split: if_splits)
  then obtain q where q: "fmlookup (hash_of s h) q \<noteq> None"
    unfolding map_len_def by (metis card_gt_0_iff ex_in_conv fmlookup_dom'_iff option.distinct(1))
  have "pos_map (hash_of s h)" using assms(1) by (simp add: obj_acct_def pos_session_def)
  then have "0 < big_cnt s (h, q)" using q count_of_pos_iff by (fastforce simp: big_cnt_def)
  then have "(h, q) \<in># big_held a T" using assms(1,2) by (simp add: obj_acct_def)
  then show thesis using that by (auto simp: big_held_def)
qed

lemma untouched_step:
  assumes acct: "obj_acct l a (add_mset t T) s" and a: "th_addr t = a" and p: "promising (th_pc t)"
    and u: "untouched a (add_mset t T) s" and none: "\<not> has_committed a T"
  shows "kept a (add_mset (fst (obj_step (with_sizes l f) net now t s)) T) (snd (obj_step (with_sizes l f) net now t s))"
proof -
  have zero: "n_total a T = 0" "count (conc_held a T) (th_key t) = 0"
    using none held_committed [of a T] by blast+
  have go: "kept a (add_mset t' T) s'" if "promising (th_pc t')" "th_addr t' = a" "no_ips s' = no_ips s" for t' s'
    using untouched_goto [OF u that] by (simp add: kept_def)
  show ?thesis
  proof (cases "th_pc t")
    case AtTotal
    then have "ss_total s = 0" using acct zero by (simp add: obj_acct_def)
    then show ?thesis using AtTotal a go by (simp add: obj_step_pc total_full_def)
  next
    case AtConc
    then have "ps_conc (path_of s (th_key t)) = 0" using acct zero by (simp add: obj_acct_def)
    then show ?thesis using AtConc a go by (simp add: obj_step_pc path_full_def)
  next
    case AtAddBig
    show ?thesis
    proof (cases "tryAddBig (th_path t) (l_maxBigFilesPerHash l) (hash_of s (th_hash t))")
      case None
      obtain v where "v \<in># T" "th_addr v = a" "big_pc (th_pc v)"
        by (rule rejected_big_other [OF acct AtAddBig None])
      then have "untouched a (add_mset (goto (Done (Some ''bigfiles'')) t) T) s"
        using u big_pc_started by (auto simp: untouched_def)
      then show ?thesis using AtAddBig None by (simp add: obj_step_AtAddBig kept_def)
    qed (use AtAddBig a go in \<open>simp add: obj_step_AtAddBig\<close>)
  next
    case AtIps
    have "fst (check_ips (with_sizes l f) net now (th_key t) (th_ip t) s)"
      using u by (intro check_ips_fresh) (simp add: untouched_def)
    then show ?thesis using AtIps a by (simp add: obj_step_AtIps kept_def)
  qed (use p a go in \<open>auto simp: obj_step_pc\<close>)
qed

lemma committed_step:
  assumes acct: "obj_acct l a (add_mset t T) s" and a: "th_addr t = a" and c: "committed (th_pc t)" "th_pc t \<noteq> RelDrop"
    and none: "\<not> has_committed a T"
  shows "has_committed a (add_mset (fst (obj_step l' net now t s)) T)"
proof (cases "th_pc t")
  case RelTotal
  have "n_total a T = 0" using none held_committed(1) by blast
  then have "ss_total (add_total (- 1) s) = 0" using acct a RelTotal by (simp add: obj_acct_def wrap32_id)
  then show ?thesis using RelTotal a by (simp add: obj_step_pc)
qed (use c a in \<open>simp_all add: obj_step_pc\<close>)

lemma obj_step_kept:
  assumes acct: "obj_acct l a (add_mset t T) s" and a: "th_addr t = a" and st: "started (th_pc t)" "th_pc t \<noteq> RelDrop"
    and k: "kept a (add_mset t T) s"
  shows "kept a (add_mset (fst (obj_step (with_sizes l f) net now t s)) T) (snd (obj_step (with_sizes l f) net now t s))"
proof (cases "has_committed a T")
  case True
  then show ?thesis by (simp add: kept_def)
next
  case False
  show ?thesis
  proof (cases "committed (th_pc t)")
    case True
    then show ?thesis using committed_step [OF acct a True st(2) False] by (simp add: kept_def)
  next
    case nc: False
    then have u: "untouched a (add_mset t T) s" using k False by (simp add: kept_def)
    then have "promising (th_pc t)" using st(1) a by (auto simp: untouched_def)
    then show ?thesis by (rule untouched_step [OF acct a _ u False])
  qed
qed

section \<open>The invariant of all interleavings\<close>

definition race_inv :: "Limits \<Rightarrow> LState \<Rightarrow> thread multiset \<Rightarrow> bool" where
  "race_inv l st T \<longleftrightarrow> size T < 2 ^ 31 \<and>
     (\<forall>t. t \<in># T \<longrightarrow> (started (th_pc t) \<longrightarrow> th_addr t < ls_next st) \<and> (early (th_pc t) \<longrightarrow> \<not> th_big t)) \<and>
     (\<forall>a. a < ls_next st \<longrightarrow> obj_acct l a T (ls_heap st a)) \<and>
     (\<forall>sid a. fmlookup (ls_sessions st) sid = Some a \<longrightarrow> a < ls_next st \<and> kept a T (ls_heap st a) \<and>
        (\<forall>t. t \<in># T \<longrightarrow> th_addr t = a \<longrightarrow> started (th_pc t) \<longrightarrow> th_sid t = sid))"

lemma race_invD:
  assumes "race_inv l st T"
  shows "size T < 2 ^ 31" "t \<in># T \<Longrightarrow> started (th_pc t) \<Longrightarrow> th_addr t < ls_next st"
    "t \<in># T \<Longrightarrow> early (th_pc t) \<Longrightarrow> \<not> th_big t" "a < ls_next st \<Longrightarrow> obj_acct l a T (ls_heap st a)"
    "fmlookup (ls_sessions st) sid = Some a \<Longrightarrow> a < ls_next st"
    "fmlookup (ls_sessions st) sid = Some a \<Longrightarrow> kept a T (ls_heap st a)"
    "fmlookup (ls_sessions st) sid = Some a \<Longrightarrow> t \<in># T \<Longrightarrow> th_addr t = a \<Longrightarrow> started (th_pc t) \<Longrightarrow> th_sid t = sid"
  using assms unfolding race_inv_def by blast+

lemma kept_started: "kept a T s \<Longrightarrow> \<exists>t. t \<in># T \<and> th_addr t = a \<and> started (th_pc t)"
  by (auto simp: kept_def has_committed_def untouched_def started_iff)

lemma race_inv_inj:
  assumes "race_inv l st T" "fmlookup (ls_sessions st) sid = Some a" "fmlookup (ls_sessions st) sid' = Some a"
  shows "sid' = sid"
  using kept_started [OF race_invD(6) [OF assms(1,2)]] race_invD(7) [OF assms(1)] assms(2,3) by blast

text \<open>A thread that counts for nothing on an object does not matter to it.\<close>

definition idle_at :: "nat \<Rightarrow> thread \<Rightarrow> bool" where
  "idle_at a t \<longleftrightarrow> th_addr t \<noteq> a \<or> \<not> started (th_pc t)"

lemma not_started_pc: "\<not> started c \<Longrightarrow> \<not> tot_pc c \<and> \<not> big_pc c \<and> c \<noteq> InFlight \<and> \<not> committed c \<and> \<not> promising c"
  by (cases c) (simp_all add: started_def)

lemma obj_acct_idle [simp]: "idle_at a t \<Longrightarrow> obj_acct l a (add_mset t T) s = obj_acct l a T s"
  using not_started_pc [of "th_pc t"] by (auto simp: idle_at_def obj_acct_def)

lemma kept_idle [simp]: "idle_at a t \<Longrightarrow> kept a (add_mset t T) s = kept a T s"
  using not_started_pc [of "th_pc t"] by (auto simp: idle_at_def kept_def has_committed_def untouched_def)

lemma obj_acct_fresh:
  assumes "\<And>t. t \<in># T \<Longrightarrow> idle_at a t"
  shows "obj_acct l a T new_session"
proof -
  have "n_total a T = 0" "conc_held a T = {#}" "big_held a T = {#}"
    using assms not_started_pc
    by (auto simp: n_total_def conc_held_def big_held_def filter_mset_eq_conv idle_at_def)
  then show ?thesis
    by (simp add: obj_acct_def new_session_def path_of_def new_path_def big_cnt_def pos_session_def hash_of_def
        count_of_def map_len_def fun_eq_iff)
qed

lemma kept_promising: "kept a T s \<Longrightarrow> promising (th_pc t) \<Longrightarrow> kept a (add_mset t T) s"
  by (auto simp: kept_def untouched_def)

lemma kept_fresh:
  assumes "\<And>u. u \<in># T \<Longrightarrow> idle_at a u" "th_addr t = a" "promising (th_pc t)"
  shows "kept a (add_mset t T) new_session"
  using assms by (auto simp: kept_def untouched_def idle_at_def no_ips_def new_session_def path_of_def new_path_def)

text \<open>Exchanging one thread: the parts of the invariant that are left to show.\<close>

lemma race_inv_move:
  assumes inv: "race_inv l st (add_mset t T)" and "ls_next st \<le> ls_next st'"
    and t': "started (th_pc t') \<Longrightarrow> th_addr t' < ls_next st'" "early (th_pc t') \<Longrightarrow> \<not> th_big t'"
    and acct: "\<And>b. b < ls_next st' \<Longrightarrow> obj_acct l b (add_mset t' T) (ls_heap st' b)"
    and map: "\<And>sid b. fmlookup (ls_sessions st') sid = Some b \<Longrightarrow>
      b < ls_next st' \<and> kept b (add_mset t' T) (ls_heap st' b) \<and>
      (\<forall>u. u \<in># add_mset t' T \<longrightarrow> th_addr u = b \<longrightarrow> started (th_pc u) \<longrightarrow> th_sid u = sid)"
  shows "race_inv l st' (add_mset t' T)"
proof -
  note d = race_invD [OF inv]
  have "started (th_pc u) \<longrightarrow> th_addr u < ls_next st'" "early (th_pc u) \<longrightarrow> \<not> th_big u" if "u \<in># add_mset t' T" for u
    using that t' d(2,3) [of u] assms(2) by (fastforce simp: less_le_trans)+
  moreover have "size (add_mset t' T) < 2 ^ 31" using d(1) by simp
  ultimately show ?thesis unfolding race_inv_def using acct map by blast
qed

lemma obj_step_keeps:
  "th_sid (fst (obj_step l net now t s)) = th_sid t"
  "early (th_pc (fst (obj_step l net now t s))) \<Longrightarrow> (early (th_pc t) \<longrightarrow> \<not> th_big t) \<Longrightarrow> \<not> th_big (fst (obj_step l net now t s))"
  "\<not> started (th_pc t) \<Longrightarrow> th_pc t \<noteq> Enter \<Longrightarrow> obj_step l net now t s = (t, s)"
  by (auto simp: obj_step_def Let_def started_def split: pc.splits option.splits prod.splits if_splits)

lemma enter_acct:
  assumes "\<not> th_big t"
  shows "obj_acct l b (add_mset (goto AtTotal (t\<lparr>th_addr := a\<rparr>)) T) s = obj_acct l b T s"
  using assms by (simp add: obj_acct_def)

lemma race_inv_enter_old:
  assumes inv: "race_inv l st (add_mset t T)" and pc: "th_pc t = Enter" and m: "fmlookup (ls_sessions st) (th_sid t) = Some a"
  shows "race_inv l st (add_mset (goto AtTotal (t\<lparr>th_addr := a\<rparr>)) T)"
proof (rule race_inv_move [OF inv])
  let ?t = "goto AtTotal (t\<lparr>th_addr := a\<rparr>)"
  note d = race_invD [OF inv]
  have idle: "idle_at b t" for b using pc by (simp add: idle_at_def)
  have big: "\<not> th_big t" using d(3) pc by simp
  show "th_addr ?t < ls_next st" using d(5) [OF m] by simp
  show "\<not> th_big ?t" using big by simp
  show "obj_acct l b (add_mset ?t T) (ls_heap st b)" if "b < ls_next st" for b
    using d(4) [OF that] idle by (simp add: enter_acct big)
  fix sid b
  assume m': "fmlookup (ls_sessions st) sid = Some b"
  have "kept b T (ls_heap st b)" using d(6) [OF m'] idle by simp
  then have "kept b (add_mset ?t T) (ls_heap st b)" by (rule kept_promising) simp
  moreover have "th_sid u = sid" if "u \<in># add_mset ?t T" "th_addr u = b" "started (th_pc u)" for u
  proof (cases "u = ?t")
    case True
    then show ?thesis using race_inv_inj [OF inv m', of "th_sid t"] m that(2) by simp
  next
    case False
    then show ?thesis using d(7) [OF m', of u] that by simp
  qed
  ultimately show "b < ls_next st \<and> kept b (add_mset ?t T) (ls_heap st b) \<and>
      (\<forall>u. u \<in># add_mset ?t T \<longrightarrow> th_addr u = b \<longrightarrow> started (th_pc u) \<longrightarrow> th_sid u = sid)"
    using d(5) [OF m'] by blast
qed simp

lemma race_inv_enter_new:
  assumes inv: "race_inv l st (add_mset t T)" and pc: "th_pc t = Enter" and a: "a = ls_next st"
    and st': "ls_sessions st' = fmupd (th_sid t) a (ls_sessions st)" "ls_heap st' = (ls_heap st)(a := new_session)"
      "ls_next st' = Suc a"
  shows "race_inv l st' (add_mset (goto AtTotal (t\<lparr>th_addr := a\<rparr>)) T)"
proof (rule race_inv_move [OF inv])
  let ?t = "goto AtTotal (t\<lparr>th_addr := a\<rparr>)"
  note d = race_invD [OF inv]
  have idle: "idle_at b t" for b using pc by (simp add: idle_at_def)
  have big: "\<not> th_big t" using d(3) pc by simp
  have away: "idle_at a u" if "u \<in># T" for u using d(2) [of u] that a by (auto simp: idle_at_def)
  show "\<not> th_big ?t" using big by simp
  show "obj_acct l b (add_mset ?t T) (ls_heap st' b)" if "b < ls_next st'" for b
  proof (cases "b = a")
    case True
    then show ?thesis using obj_acct_fresh [OF away] by (simp add: enter_acct big st'(2))
  next
    case False
    then have "b < ls_next st" using that a st'(3) by simp
    then show ?thesis using d(4) [of b] idle False by (simp add: enter_acct big st'(2))
  qed
  fix sid b
  assume m: "fmlookup (ls_sessions st') sid = Some b"
  show "b < ls_next st' \<and> kept b (add_mset ?t T) (ls_heap st' b) \<and>
      (\<forall>u. u \<in># add_mset ?t T \<longrightarrow> th_addr u = b \<longrightarrow> started (th_pc u) \<longrightarrow> th_sid u = sid)"
  proof (cases "sid = th_sid t")
    case True
    then have b: "b = a" using m st'(1) by simp
    have "kept a (add_mset ?t T) new_session" by (rule kept_fresh [OF away]) simp_all
    moreover have "th_sid u = sid" if "u \<in># add_mset ?t T" "th_addr u = a" "started (th_pc u)" for u
    proof (cases "u = ?t")
      case False
      then show ?thesis using away [of u] that by (simp add: idle_at_def)
    qed (simp add: True)
    moreover have "ls_heap st' b = new_session" "b < ls_next st'" by (simp_all add: b st'(2,3))
    ultimately show ?thesis unfolding b by metis
  next
    case False
    then have m': "fmlookup (ls_sessions st) sid = Some b" using m st'(1) by simp
    then have b: "b < ls_next st" "b \<noteq> a" using d(5) a by auto
    then have "idle_at b ?t" by (simp add: idle_at_def)
    then have "kept b (add_mset ?t T) (ls_heap st' b)" using d(6) [OF m'] idle b(2) by (simp add: st'(2))
    moreover have "th_sid u = sid" if "u \<in># add_mset ?t T" "th_addr u = b" "started (th_pc u)" for u
    proof -
      have "u \<noteq> ?t" using that(2) b(2) by auto
      then show ?thesis using d(7) [OF m', of u] that by simp
    qed
    moreover have "b < ls_next st'" using b(1) a st'(3) by simp
    ultimately show ?thesis by blast
  qed
qed (simp_all add: a st'(3))

lemma race_inv_enter:
  assumes "race_inv l st (add_mset t T)" "th_pc t = Enter" "getSession (th_sid t) st = (a, st')"
  shows "race_inv l st' (add_mset (goto AtTotal (t\<lparr>th_addr := a\<rparr>)) T)"
proof (cases "fmlookup (ls_sessions st) (th_sid t)")
  case None
  then show ?thesis using assms(3) by (intro race_inv_enter_new [OF assms(1,2)]) (auto simp: getSession_def Let_def)
next
  case (Some a')
  then show ?thesis using assms(3) race_inv_enter_old [OF assms(1,2) Some] by (simp add: getSession_def)
qed

lemma race_inv_drop:
  assumes inv: "race_inv l st (add_mset t T)" and pc: "th_pc t = RelDrop"
  shows "race_inv l (drop_if_idle (th_ticket t) st) (add_mset (goto (Done None) t) T)"
proof -
  let ?t = "goto (Done None) t" and ?st = "drop_if_idle (th_ticket t) st"
  note d = race_invD [OF inv]
  have same: "ls_heap ?st = ls_heap st" "ls_next ?st = ls_next st" by (simp_all add: drop_if_idle_def)
  have a: "th_addr t < ls_next st" using d(2) pc by (simp add: started_iff)
  have idle: "idle_at b ?t" for b by (simp add: idle_at_def)
  have T: "obj_acct l b T (ls_heap st b)" if "b < ls_next st" for b
    using d(4) [OF that] pc by (simp add: obj_acct_def)
  show ?thesis
  proof (rule race_inv_move [OF inv])
    fix sid b
    assume m: "fmlookup (ls_sessions ?st) sid = Some b"
    then have m': "fmlookup (ls_sessions st) sid = Some b" by (auto simp: drop_if_idle_def split: if_splits)
    have "kept b T (ls_heap st b)"
    proof (cases "th_addr t = b")
      case True
      then have "th_sid t = sid" using d(7) [OF m', of t] pc by (simp add: started_iff)
      then have "0 < ss_total (ls_heap st b)" using m True by (auto simp: drop_if_idle_def th_ticket_def split: if_splits)
      then have "0 < n_total b T" using T [of b] a True by (simp add: obj_acct_def)
      then show ?thesis by (simp add: kept_def held_committed(1))
    next
      case False
      then have "idle_at b t" by (simp add: idle_at_def)
      then show ?thesis using d(6) [OF m'] by simp
    qed
    then show "b < ls_next ?st \<and> kept b (add_mset ?t T) (ls_heap ?st b) \<and>
        (\<forall>u. u \<in># add_mset ?t T \<longrightarrow> th_addr u = b \<longrightarrow> started (th_pc u) \<longrightarrow> th_sid u = sid)"
      using d(5) [OF m'] d(7) [OF m'] idle same by auto
  qed (use T same idle in auto)
qed

lemma race_inv_obj:
  assumes inv: "race_inv l st (add_mset t T)" and pc: "th_pc t \<notin> {Enter, RelDrop}"
    and o: "obj_step (with_sizes l f) net now t (ls_heap st (th_addr t)) = (t', s')"
  shows "race_inv l (on_heap (th_addr t) s' st) (add_mset t' T)"
proof (cases "started (th_pc t)")
  case False
  then have "t' = t" "s' = ls_heap st (th_addr t)" using o pc obj_step_keeps(3) [of t] by auto
  then show ?thesis using inv by simp
next
  case True
  let ?a = "th_addr t" and ?st = "on_heap (th_addr t) s' st"
  note d = race_invD [OF inv]
  have a: "?a < ls_next st" using d(2) True by simp
  have early: "early (th_pc t) \<Longrightarrow> \<not> th_big t" using d(3) by simp
  have t': "th_addr t' = ?a" "th_sid t' = th_sid t" "early (th_pc t') \<Longrightarrow> \<not> th_big t'"
    using o obj_step_addr [of "with_sizes l f" net now t "ls_heap st ?a"]
      obj_step_keeps(1,2) [of "with_sizes l f" net now t "ls_heap st ?a"] early by auto
  have heap: "ls_heap ?st b = (if b = ?a then s' else ls_heap st b)" for b by (simp add: on_heap_def)
  have other: "idle_at b t" "idle_at b t'" if "b \<noteq> ?a" for b using that t'(1) by (simp_all add: idle_at_def)
  have acct: "obj_acct l ?a (add_mset t' T) s'"
    using obj_step_acct [OF d(4) [OF a] refl d(1) early pc, of f net now] o by simp
  show ?thesis
  proof (rule race_inv_move [OF inv])
    fix sid b
    assume m: "fmlookup (ls_sessions ?st) sid = Some b"
    then have m': "fmlookup (ls_sessions st) sid = Some b" by simp
    have "kept b (add_mset t' T) (ls_heap ?st b)"
    proof (cases "b = ?a")
      case True
      have "kept ?a (add_mset t T) (ls_heap st ?a)" using d(6) m' True by simp
      then show ?thesis
        using obj_step_kept [OF d(4) [OF a] refl \<open>started (th_pc t)\<close>, of f net now] pc o heap True by simp
    next
      case False
      then show ?thesis using d(6) [OF m'] other heap by simp
    qed
    moreover have "th_sid t = sid" if "b = ?a" using d(7) [OF m', of t] that True by simp
    ultimately show "b < ls_next ?st \<and> kept b (add_mset t' T) (ls_heap ?st b) \<and>
        (\<forall>u. u \<in># add_mset t' T \<longrightarrow> th_addr u = b \<longrightarrow> started (th_pc u) \<longrightarrow> th_sid u = sid)"
      using d(5) [OF m'] d(7) [OF m'] t'(1,2) by auto
  next
    fix b
    assume "b < ls_next ?st"
    then show "obj_acct l b (add_mset t' T) (ls_heap ?st b)"
      using acct d(4) [of b] other [of b] heap by (cases "b = ?a") auto
  qed (use a t' in auto)
qed

lemma race_inv_init: "race_inv l init_state {#}"
  by (simp add: race_inv_def init_state_def)

lemma race_inv_outside:
  "race_inv l st T \<Longrightarrow> size T < 2 ^ 31 - 1 \<Longrightarrow> race_inv l st (add_mset (new_thread sid h p ip) T)"
  "race_inv l st (add_mset t T) \<Longrightarrow> th_pc t = Done r \<Longrightarrow> race_inv l st T"
proof -
  have "idle_at a (new_thread sid h p ip)" for a by (simp add: idle_at_def new_thread_def)
  then show "race_inv l st T \<Longrightarrow> size T < 2 ^ 31 - 1 \<Longrightarrow> race_inv l st (add_mset (new_thread sid h p ip) T)"
    unfolding race_inv_def by (auto simp: new_thread_def)
  assume "th_pc t = Done r"
  then have "idle_at a t" for a by (simp add: idle_at_def)
  then show "race_inv l st (add_mset t T) \<Longrightarrow> race_inv l st T" unfolding race_inv_def by simp
qed

lemma micro_cases:
  assumes "micro l net now (t, st) = (t', st')"
  obtains (anonymous) "th_pc t = Enter" "t' = goto (Done None) t" "st' = st"
  | (enter) a where "th_pc t = Enter" "getSession (th_sid t) st = (a, st')" "t' = goto AtTotal (t\<lparr>th_addr := a\<rparr>)"
  | (drop) "th_pc t = RelDrop" "t' = goto (Done None) t" "st' = drop_if_idle (th_ticket t) st"
  | (obj) s' where "th_pc t \<notin> {Enter, RelDrop}" "obj_step l net now t (ls_heap st (th_addr t)) = (t', s')"
      "st' = on_heap (th_addr t) s' st"
  using assms by (cases "th_pc t") (auto simp: micro_def split: if_splits prod.splits)

lemma race_inv_micro:
  assumes inv: "race_inv l st (add_mset t T)" and m: "micro (with_sizes l f) net now (t, st) = (t', st')"
  shows "race_inv l st' (add_mset t' T)"
  using m
proof (cases rule: micro_cases)
  case anonymous
  have "idle_at a t" "idle_at a t'" for a using anonymous by (simp_all add: idle_at_def)
  then show ?thesis
    using race_invD [OF inv] unfolding anonymous(3) by (intro race_inv_move [OF inv]) (auto simp: anonymous(2))
next
  case (enter a)
  then show ?thesis using race_inv_enter [OF inv] by simp
next
  case drop
  then show ?thesis using race_inv_drop [OF inv] by simp
next
  case (obj s')
  then show ?thesis using race_inv_obj [OF inv] by simp
qed

lemma race_inv_step: "race_step l net c c' \<Longrightarrow> race_inv l (fst c) (snd c) \<Longrightarrow> race_inv l (fst c') (snd c')"
  by (induction rule: race_step.induct) (auto intro: race_inv_outside race_inv_micro)

lemma race_reachable_inv:
  assumes "race_reachable l net st T"
  shows "race_inv l st T"
proof -
  have "race_inv l (fst c') (snd c')" if "(race_step l net)\<^sup>*\<^sup>* c c'" "race_inv l (fst c) (snd c)" for c c'
    using that by induction (auto dest: race_inv_step)
  then show ?thesis using assms race_inv_init unfolding race_reachable_def by fastforce
qed

section \<open>How far a cap is exceeded\<close>

text \<open>
  A counter that is compared with its cap in one step and increased in a later one: a step lets the sum of
  those counted and those in between grow only if the counter is below the cap.
\<close>

locale check_then_add =
  fixes step :: "'s \<Rightarrow> 's \<Rightarrow> bool" and inv :: "'s \<Rightarrow> bool" and counted between :: "'s \<Rightarrow> nat" and cap :: int
  assumes inv_step: "inv s \<Longrightarrow> step s s' \<Longrightarrow> inv s'"
    and admits: "0 < cap \<Longrightarrow> inv s \<Longrightarrow> step s s' \<Longrightarrow>
      counted s' + between s' \<le> counted s + between s \<or> int (counted s') < cap"
begin

lemma overshoot:
  assumes "(\<lambda>s s'. step s s' \<and> int (between s') \<le> K)\<^sup>*\<^sup>* s0 s" "inv s0" "counted s0 + between s0 = 0" "0 < cap" "0 \<le> K"
  shows "inv s \<and> int (counted s) + int (between s) < cap + K"
  using assms(1)
proof induction
  case base
  then show ?case using assms(2-) by simp
next
  case (step s s')
  then show ?case using inv_step [of s s'] admits [OF \<open>0 < cap\<close>, of s s'] by linarith
qed

end

definition passing :: "pc \<Rightarrow> bool" where
  "passing c \<longleftrightarrow> c \<in> {AtClass, AtHash, AtAddBig, AtPath, AtConc, AtIps, AtAddTotal}"

definition path_passing :: "pc \<Rightarrow> bool" where
  "path_passing c \<longleftrightarrow> c \<in> {AtIps, AtAddTotal, AtAddConc}"

definition n_passing :: "nat \<Rightarrow> thread multiset \<Rightarrow> nat" where
  "n_passing a T = size (filter_mset (\<lambda>t. th_addr t = a \<and> passing (th_pc t)) T)"

definition n_path_passing :: "nat \<Rightarrow> string \<Rightarrow> thread multiset \<Rightarrow> nat" where
  "n_path_passing a key T = size (filter_mset (\<lambda>t. th_addr t = a \<and> th_key t = key \<and> path_passing (th_pc t)) T)"

lemma n_passing_add [simp]:
  "n_passing a (add_mset t T) = (if th_addr t = a \<and> passing (th_pc t) then Suc (n_passing a T) else n_passing a T)"
  "n_path_passing a key (add_mset t T) =
     (if th_addr t = a \<and> th_key t = key \<and> path_passing (th_pc t) then Suc (n_path_passing a key T) else n_path_passing a key T)"
  by (simp_all add: n_passing_def n_path_passing_def)

lemma passing_simps [simp]:
  "\<not> passing Enter" "\<not> passing AtTotal" "passing AtClass" "passing AtHash" "passing AtAddBig" "passing AtPath"
  "passing AtConc" "passing AtIps" "passing AtAddTotal" "\<not> passing AtAddConc" "\<not> passing InFlight" "\<not> passing RelBig"
  "\<not> passing RelTotal" "\<not> passing RelDrop" "\<not> passing (Undo r)" "\<not> passing (Done x)"
  "\<not> path_passing Enter" "\<not> path_passing AtTotal" "\<not> path_passing AtClass" "\<not> path_passing AtHash"
  "\<not> path_passing AtAddBig" "\<not> path_passing AtPath" "\<not> path_passing AtConc" "path_passing AtIps"
  "path_passing AtAddTotal" "path_passing AtAddConc" "\<not> path_passing InFlight" "\<not> path_passing RelBig"
  "\<not> path_passing RelTotal" "\<not> path_passing RelDrop" "\<not> path_passing (Undo r)" "\<not> path_passing (Done x)"
  by (simp_all add: passing_def path_passing_def)

lemma obj_step_key: "th_key (fst (obj_step l net now t s)) = th_key t"
  by (auto simp: obj_step_def Let_def split: pc.split option.split prod.split)

text \<open>Only the two checks let a thread in.\<close>

lemma obj_step_admits:
  defines "nxt \<equiv> \<lambda>l net now t s. th_pc (fst (obj_step l net now t s))"
  shows "tot_pc (nxt l net now t s) \<or> passing (nxt l net now t s) \<Longrightarrow>
      tot_pc (th_pc t) \<or> passing (th_pc t) \<or> th_pc t = AtTotal \<and> \<not> total_full l s \<and> nxt l net now t s = AtClass"
    and "nxt l net now t s = InFlight \<or> path_passing (nxt l net now t s) \<Longrightarrow>
      th_pc t = InFlight \<or> path_passing (th_pc t) \<or> th_pc t = AtConc \<and> \<not> path_full l (th_key t) s \<and> nxt l net now t s = AtIps"
  unfolding nxt_def by (auto simp: obj_step_def Let_def split: pc.splits option.splits prod.splits if_splits)

lemma tot_passing_disjoint: "tot_pc c \<Longrightarrow> \<not> passing c" "path_passing c \<Longrightarrow> c \<noteq> InFlight"
  by (cases c; simp)+

lemma thread_counts:
  assumes "th_addr t' = th_addr t" "th_key t' = th_key t"
  shows "(tot_pc (th_pc t') \<or> passing (th_pc t') \<Longrightarrow> tot_pc (th_pc t) \<or> passing (th_pc t)) \<Longrightarrow>
      n_total a (add_mset t' T) + n_passing a (add_mset t' T) \<le> n_total a (add_mset t T) + n_passing a (add_mset t T)"
    and "(th_pc t' = InFlight \<or> path_passing (th_pc t') \<Longrightarrow> th_pc t = InFlight \<or> path_passing (th_pc t)) \<Longrightarrow>
      count (conc_held a (add_mset t' T)) key + n_path_passing a key (add_mset t' T) \<le>
      count (conc_held a (add_mset t T)) key + n_path_passing a key (add_mset t T)"
  using assms tot_passing_disjoint [of "th_pc t'"] by auto

lemma move_admits_total:
  assumes inv: "race_inv l st (add_mset t T)" and m: "micro (with_sizes l f) net now (t, st) = (t', st')" and "0 < l_maxTotal l"
  shows "n_total a (add_mset t' T) + n_passing a (add_mset t' T) \<le> n_total a (add_mset t T) + n_passing a (add_mset t T) \<or>
    int (n_total a (add_mset t' T)) < l_maxTotal l"
  using m
proof (cases rule: micro_cases)
  case (obj s')
  let ?s = "ls_heap st (th_addr t)"
  have t': "th_addr t' = th_addr t" "th_key t' = th_key t" "th_pc t' = th_pc (fst (obj_step (with_sizes l f) net now t ?s))"
    using obj(2) obj_step_addr obj_step_key by (metis fst_conv)+
  show ?thesis
  proof (cases "th_pc t = AtTotal \<and> \<not> total_full (with_sizes l f) ?s \<and> th_pc t' = AtClass \<and> th_addr t = a")
    case True
    have "a < ls_next st" using race_invD(2) [OF inv, of t] True by (simp add: started_iff)
    then have "ss_total ?s = int (n_total a T)" using race_invD(4) [OF inv] True by (simp add: obj_acct_def)
    then show ?thesis using True assms(3) t'(1) by (auto simp: total_full_def)
  next
    case False
    show ?thesis
    proof (cases "th_addr t = a")
      case True
      then show ?thesis
        using thread_counts(1) [OF t'(1,2), of a T] obj_step_admits(1) [of "with_sizes l f" net now t ?s] False t'(3)
        by (intro disjI1) metis
    qed (simp add: t'(1))
  qed
qed simp_all

lemma move_admits_path:
  assumes inv: "race_inv l st (add_mset t T)" and m: "micro (with_sizes l f) net now (t, st) = (t', st')" and "0 < l_maxPerPath l"
  shows "count (conc_held a (add_mset t' T)) key + n_path_passing a key (add_mset t' T) \<le>
      count (conc_held a (add_mset t T)) key + n_path_passing a key (add_mset t T) \<or>
    int (count (conc_held a (add_mset t' T)) key) < l_maxPerPath l"
  using m
proof (cases rule: micro_cases)
  case (obj s')
  let ?s = "ls_heap st (th_addr t)"
  have t': "th_addr t' = th_addr t" "th_key t' = th_key t" "th_pc t' = th_pc (fst (obj_step (with_sizes l f) net now t ?s))"
    using obj(2) obj_step_addr obj_step_key by (metis fst_conv)+
  show ?thesis
  proof (cases "th_pc t = AtConc \<and> \<not> path_full (with_sizes l f) (th_key t) ?s \<and> th_pc t' = AtIps \<and> th_addr t = a \<and> th_key t = key")
    case True
    have "a < ls_next st" using race_invD(2) [OF inv, of t] True by (simp add: started_iff)
    then have "ps_conc (path_of ?s key) = int (count (conc_held a T) key)"
      using race_invD(4) [OF inv] True by (simp add: obj_acct_def)
    then show ?thesis using True assms(3) t'(1) by (auto simp: path_full_def)
  next
    case False
    show ?thesis
    proof (cases "th_addr t = a \<and> th_key t = key")
      case True
      then show ?thesis
        using thread_counts(2) [OF t'(1,2), of a T key] obj_step_admits(2) [of "with_sizes l f" net now t ?s] False t'(3)
        by (intro disjI1) metis
    qed (auto simp: t'(1,2))
  qed
qed simp_all

interpretation total_cap: check_then_add "race_step l net" "\<lambda>c. race_inv l (fst c) (snd c)" "\<lambda>c. n_total a (snd c)"
  "\<lambda>c. n_passing a (snd c)" "l_maxTotal l" for l net a
proof
  fix c c'
  assume "race_step l net c c'" and inv: "race_inv l (fst c) (snd c)"
  then show "race_inv l (fst c') (snd c')" by (rule race_inv_step)
  assume cap: "0 < l_maxTotal l"
  show "n_total a (snd c') + n_passing a (snd c') \<le> n_total a (snd c) + n_passing a (snd c) \<or>
      int (n_total a (snd c')) < l_maxTotal l"
    using \<open>race_step l net c c'\<close>
  proof (cases rule: race_step.cases)
    case (move f now t st t' st' T)
    then show ?thesis using inv move_admits_total cap by simp
  qed (simp_all add: new_thread_def)
qed

interpretation path_cap: check_then_add "race_step l net" "\<lambda>c. race_inv l (fst c) (snd c)"
  "\<lambda>c. count (conc_held a (snd c)) key" "\<lambda>c. n_path_passing a key (snd c)" "l_maxPerPath l" for l net a key
proof
  fix c c'
  assume "race_step l net c c'" and inv: "race_inv l (fst c) (snd c)"
  then show "race_inv l (fst c') (snd c')" by (rule race_inv_step)
  assume cap: "0 < l_maxPerPath l"
  show "count (conc_held a (snd c')) key + n_path_passing a key (snd c') \<le>
      count (conc_held a (snd c)) key + n_path_passing a key (snd c) \<or> int (count (conc_held a (snd c')) key) < l_maxPerPath l"
    using \<open>race_step l net c c'\<close>
  proof (cases rule: race_step.cases)
    case (move f now t st t' st' T)
    then show ?thesis using inv move_admits_path cap by simp
  qed (simp_all add: new_thread_def)
qed

section \<open>Schedules\<close>

text \<open>An interpreter of schedules: which thread of a list takes the next step. The heap is kept as a table of its
  objects.\<close>

definition object_at :: "sessionState list \<Rightarrow> nat \<Rightarrow> sessionState" where
  "object_at xs a = (if a < length xs then xs ! a else new_session)"

definition with_objects :: "sessionState list \<Rightarrow> LState \<Rightarrow> LState" where
  "with_objects xs st = st\<lparr>ls_heap := object_at xs\<rparr>"

definition tidy :: "LState \<Rightarrow> LState" where
  "tidy st = with_objects (map (ls_heap st) [0..<ls_next st]) st"

fun put_thread :: "nat \<Rightarrow> thread list \<Rightarrow> thread \<times> LState \<Rightarrow> thread list \<times> LState" where
  "put_thread i ts (t, st) = (ts[i := t], tidy st)"

fun sched_move :: "Limits \<Rightarrow> NetLib \<Rightarrow> nat \<Rightarrow> thread list \<times> LState \<Rightarrow> thread list \<times> LState" where
  "sched_move l net i (ts, st) = (if i < length ts then put_thread i ts (micro l net 0 (ts ! i, st)) else (ts, st))"

fun run_sched :: "Limits \<Rightarrow> NetLib \<Rightarrow> nat list \<Rightarrow> thread list \<times> LState \<Rightarrow> thread list \<times> LState" where
  "run_sched l net [] c = c"
| "run_sched l net (i # is) c = run_sched l net is (sched_move l net i c)"

definition fresh_above :: "LState \<Rightarrow> bool" where
  "fresh_above st \<longleftrightarrow> (\<forall>a. ls_next st \<le> a \<longrightarrow> ls_heap st a = new_session)"

lemma tidy_same: "fresh_above st \<Longrightarrow> tidy st = st"
  by (auto simp: tidy_def with_objects_def object_at_def fresh_above_def fun_eq_iff intro!: LState.equality)

lemma fresh_above_micro:
  assumes "fresh_above st" "started (th_pc t) \<Longrightarrow> th_addr t < ls_next st" "micro l net now (t, st) = (t', st')"
  shows "fresh_above st'"
  using assms(3)
proof (cases rule: micro_cases)
  case (enter a)
  then show ?thesis using assms(1) by (auto simp: fresh_above_def getSession_def Let_def split: option.splits)
next
  case drop
  then show ?thesis using assms(1) by (simp add: fresh_above_def drop_if_idle_def)
next
  case (obj s')
  show ?thesis
  proof (cases "started (th_pc t)")
    case True
    then show ?thesis using assms(1,2) obj(3) by (auto simp: fresh_above_def on_heap_def)
  next
    case False
    then have "s' = ls_heap st (th_addr t)" using obj obj_step_keeps(3) [of t] by auto
    then show ?thesis using assms(1) obj(3) by simp
  qed
qed (use assms(1) in simp)

text \<open>Runs with at most \<open>n\<close> requests at a time.\<close>

definition step_upto :: "nat \<Rightarrow> Limits \<Rightarrow> NetLib \<Rightarrow> LState \<times> thread multiset \<Rightarrow> LState \<times> thread multiset \<Rightarrow> bool" where
  "step_upto n l net c c' \<longleftrightarrow> race_step l net c c' \<and> size (snd c') \<le> n"

lemma steps_upto_mono:
  assumes "(step_upto n l net)\<^sup>*\<^sup>* c c'" "\<And>c c'. race_step l net c c' \<Longrightarrow> size (snd c') \<le> n \<Longrightarrow> R c c'"
  shows "R\<^sup>*\<^sup>* c c'"
  using assms by (auto simp: step_upto_def intro: rtranclp_mono [THEN predicate2D, rotated])

lemma run_sched_steps:
  assumes "run_sched (with_sizes l f) net is (ts, st) = (ts', st')" "race_inv l st (mset ts)" "fresh_above st" "length ts \<le> n"
  shows "(step_upto n l net)\<^sup>*\<^sup>* (st, mset ts) (st', mset ts')"
  using assms
proof (induction "is" arbitrary: ts st)
  case (Cons i "is")
  show ?case
  proof (cases "i < length ts")
    case True
    obtain t st1 where m: "micro (with_sizes l f) net 0 (ts ! i, st) = (t, st1)" by fastforce
    have "mset ts = add_mset (ts ! i) (mset ts - {#ts ! i#})" "mset (ts[i := t]) = add_mset t (mset ts - {#ts ! i#})"
      using True by (simp_all add: mset_update)
    then have step: "race_step l net (st, mset ts) (st1, mset (ts[i := t]))" using race_step.move [OF m] by metis
    have "fresh_above st1"
      using fresh_above_micro [OF Cons.prems(3) _ m] race_invD(2) [OF Cons.prems(2)] True by simp
    then have "(step_upto n l net)\<^sup>*\<^sup>* (st1, mset (ts[i := t])) (st', mset ts')"
      using Cons.IH [of "ts[i := t]" st1] Cons.prems race_inv_step [OF step] True m by (simp add: tidy_same)
    moreover have "step_upto n l net (st, mset ts) (st1, mset (ts[i := t]))"
      using step Cons.prems(4) by (simp add: step_upto_def)
    ultimately show ?thesis by (rule converse_rtranclp_into_rtranclp [rotated])
  qed (use Cons in simp)
qed simp

definition news :: "(string \<times> string \<times> string \<times> string) list \<Rightarrow> thread list" where
  "news rs = map (\<lambda>(sid, h, p, ip). new_thread sid h p ip) rs"

lemma arrivals: "length rs \<le> n \<Longrightarrow> n < 2 ^ 31 - 1 \<Longrightarrow> (step_upto n l net)\<^sup>*\<^sup>* (st, {#}) (st, mset (news rs))"
proof (induction rs)
  case (Cons r rs)
  obtain sid h p ip where r: "r = (sid, h, p, ip)" by (cases r)
  have "race_step l net (st, mset (news rs)) (st, add_mset (new_thread sid h p ip) (mset (news rs)))"
    using Cons.prems by (intro race_step.arrive) (simp add: news_def)
  moreover have "mset (news (r # rs)) = add_mset (new_thread sid h p ip) (mset (news rs))" by (simp add: news_def r)
  ultimately have "step_upto n l net (st, mset (news rs)) (st, mset (news (r # rs)))"
    using Cons.prems by (simp add: step_upto_def) (simp add: news_def)
  with Cons show ?case by simp
qed (simp add: news_def)

lemma sched_run:
  assumes "run_sched (with_sizes l f) net is (news rs, init_state) = (ts, st)" "length rs < 2 ^ 31 - 1"
  shows "(step_upto (length rs) l net)\<^sup>*\<^sup>* (init_state, {#}) (st, mset ts)"
proof -
  have arr: "(step_upto (length rs) l net)\<^sup>*\<^sup>* (init_state, {#}) (init_state, mset (news rs))"
    using arrivals [of rs "length rs"] assms(2) by simp
  then have "race_reachable l net init_state (mset (news rs))"
    unfolding race_reachable_def by (rule steps_upto_mono)
  then have "race_inv l init_state (mset (news rs))" by (rule race_reachable_inv)
  moreover have "fresh_above init_state" by (simp add: fresh_above_def init_state_def)
  ultimately have "(step_upto (length rs) l net)\<^sup>*\<^sup>* (init_state, mset (news rs)) (st, mset ts)"
    using run_sched_steps [OF assms(1)] by (simp add: news_def)
  with arr show ?thesis by (rule rtranclp_trans)
qed

text \<open>One request of a session may be in flight at a time.\<close>

definition one_limits :: Limits where
  "one_limits = \<lparr>l_maxPerPath = 0, l_maxBigFilesPerHash = 0, l_bigFileThreshold = 0, l_lightExts = fmempty,
     l_maxTotal = 1, l_maxIPsPerSession = 0, l_sizeLookup = None\<rparr>"

definition two_requests :: "(string \<times> string \<times> string \<times> string) list" where
  "two_requests = [(''s'', ''h'', ''/a'', ''ip''), (''s'', ''h'', ''/b'', ''ip'')]"

definition in_flight :: "string \<Rightarrow> thread multiset \<Rightarrow> nat" where
  "in_flight sid T = size (filter_mset (\<lambda>t. th_sid t = sid \<and> th_pc t = InFlight) T)"

definition races :: "nat list \<Rightarrow> (string \<times> string \<times> string \<times> string) list \<Rightarrow> thread list \<times> LState" where
  "races is rs = run_sched (with_sizes one_limits None) sample_net is (news rs, init_state)"

lemma races_run:
  "length rs < 2 ^ 31 - 1 \<Longrightarrow>
   (step_upto (length rs) one_limits sample_net)\<^sup>*\<^sup>* (init_state, {#}) (snd (races is rs), mset (fst (races is rs)))"
  by (rule sched_run [where f = None]) (simp_all add: races_def)

lemma races_reachable:
  "length rs < 2 ^ 31 - 1 \<Longrightarrow> race_reachable one_limits sample_net (snd (races is rs)) (mset (fst (races is rs)))"
  unfolding race_reachable_def by (rule steps_upto_mono [OF races_run])

text \<open>Both check before either is counted; a request that finds the object of a request that is about to
  leave; and the same, with a third request on a new object, until the second leaves.\<close>

definition both_pass :: "nat list" where
  "both_pass = [0, 0, 1, 1] @ replicate 8 0 @ replicate 8 1"

definition stale :: "nat list" where
  "stale = replicate 10 0 @ [1] @ replicate 4 0 @ replicate 9 1 @ replicate 10 2"

definition stale_drop :: "nat list" where
  "stale_drop = stale @ replicate 4 1"

definition flights :: "thread list \<Rightarrow> (string \<times> nat) list" where
  "flights ts = map (\<lambda>t. (th_sid t, th_addr t)) (filter (\<lambda>t. th_pc t = InFlight) ts)"

lemma in_flight_flights: "in_flight sid (mset ts) = length (filter (\<lambda>x. fst x = sid) (flights ts))"
  unfolding in_flight_def flights_def by (induction ts) auto

definition outcome_of :: "nat list \<Rightarrow> (string \<times> string \<times> string \<times> string) list \<Rightarrow> (string \<times> nat) list \<times> int \<times> int \<times> nat option" where
  "outcome_of is rs =
     (let c = races is rs in (flights (fst c), ss_total (ls_heap (snd c) 0), ss_total (ls_heap (snd c) 1),
        fmlookup (ls_sessions (snd c)) ''s''))"

lemma schedule_results:
  "outcome_of both_pass two_requests = ([(''s'', 0), (''s'', 0)], 2, 0, Some 0)"
  "outcome_of stale (two_requests @ two_requests) = ([(''s'', 0), (''s'', 1)], 1, 1, Some 1)"
  "outcome_of stale_drop (two_requests @ two_requests) = ([(''s'', 1)], 0, 1, None)"
  by code_simp+

lemma outcome_reachable:
  assumes "outcome_of is rs = (fl, n0, n1, m)" "length rs < 2 ^ 31 - 1"
  shows "\<exists>st T. race_reachable one_limits sample_net st T \<and> in_flight ''s'' T = length (filter (\<lambda>x. fst x = ''s'') fl) \<and>
    ss_total (ls_heap st 0) = n0 \<and> ss_total (ls_heap st 1) = n1 \<and> fmlookup (ls_sessions st) ''s'' = m"
  using races_reachable [OF assms(2), of "is"] assms(1)
  by (intro exI [of _ "snd (races is rs)"] exI [of _ "mset (fst (races is rs))"])
    (auto simp: outcome_of_def Let_def in_flight_flights)

section \<open>What holds under concurrency\<close>

text \<open>C3: Whatever the interleaving of concurrent requests, the limiter leaks nothing: a session is in the map only
  while a request holds its object, so the map is empty when all requests are done; and the
  counters of every session object ever made equal the requests that hold them.\<close>

theorem races_no_leak:
  assumes "race_reachable l net st T"
  shows "(\<forall>sid a. fmlookup (ls_sessions st) sid = Some a \<longrightarrow>
      (\<exists>t. t \<in># T \<and> th_sid t = sid \<and> th_addr t = a \<and> started (th_pc t))) \<and>
    (T = {#} \<longrightarrow> ls_sessions st = fmempty) \<and>
    (\<forall>a. a < ls_next st \<longrightarrow> ss_total (ls_heap st a) = int (n_total a T) \<and>
      (\<forall>key. ps_conc (path_of (ls_heap st a) key) = int (count (conc_held a T) key)) \<and>
      (\<forall>h p. count_of (hash_of (ls_heap st a) h) p = int (count (big_held a T) (h, p))))"
proof -
  note d = race_invD [OF race_reachable_inv [OF assms]]
  have live: "\<exists>t. t \<in># T \<and> th_sid t = sid \<and> th_addr t = a \<and> started (th_pc t)"
    if "fmlookup (ls_sessions st) sid = Some a" for sid a
    using kept_started [OF d(6) [OF that]] d(7) [OF that] by blast
  moreover have "ls_sessions st = fmempty" if "T = {#}"
    using live that by (intro fmap_ext) (metis empty_not_add_mset fmempty_lookup multi_member_split not_None_eq)
  moreover have "ss_total (ls_heap st a) = int (n_total a T) \<and>
      (\<forall>key. ps_conc (path_of (ls_heap st a) key) = int (count (conc_held a T) key)) \<and>
      (\<forall>h p. count_of (hash_of (ls_heap st a) h) p = int (count (big_held a T) (h, p)))" if "a < ls_next st" for a
    using d(4) [OF that] by (simp add: obj_acct_def big_cnt_def fun_eq_iff)
  ultimately show ?thesis by blast
qed

theorem races_no_leak_witness:
  "\<exists>st T. race_reachable one_limits sample_net st T \<and> in_flight ''s'' T = 2 \<and>
     (\<exists>t. t \<in># T \<and> th_sid t = ''s'' \<and> th_addr t = 1 \<and> started (th_pc t))"
proof -
  obtain st T where r: "race_reachable one_limits sample_net st T" "in_flight ''s'' T = 2"
      "fmlookup (ls_sessions st) ''s'' = Some 1"
    using outcome_reachable [OF schedule_results(2)] by (auto simp: two_requests_def)
  with races_no_leak [OF r(1)] show ?thesis by blast
qed

text \<open>C15: How far concurrent requests exceed the caps: if at most \<open>K\<close> requests of a session object are ever between
  a check and the increment that belongs to it, the total of the object and the requests on one path stay below
  cap + \<open>K\<close>, so they exceed it by at most \<open>K - 1\<close>. The cap on big files is checked and taken under one
  lock and is never exceeded on an object.\<close>

theorem races_bound_caps:
  assumes "(\<lambda>c c'. race_step l net c c' \<and>
      (\<forall>a. int (n_passing a (snd c')) \<le> K \<and> (\<forall>key. int (n_path_passing a key (snd c')) \<le> K)))\<^sup>*\<^sup>* (init_state, {#}) (st, T)"
    and "0 \<le> K" "a < ls_next st"
  shows "(0 < l_maxTotal l \<longrightarrow> int (n_total a T) < l_maxTotal l + K) \<and>
    (0 < l_maxPerPath l \<longrightarrow> int (count (conc_held a T) key) < l_maxPerPath l + K) \<and>
    (0 < l_maxBigFilesPerHash l \<longrightarrow> int (card {p. (h, p) \<in># big_held a T}) \<le> l_maxBigFilesPerHash l)"
proof (intro conjI impI)
  have "(race_step l net)\<^sup>*\<^sup>* (init_state, {#}) (st, T)" by (rule rtranclp_mono [THEN predicate2D, OF _ assms(1)]) blast
  then have inv: "race_inv l st T" using race_reachable_inv unfolding race_reachable_def by blast
  have run: "(\<lambda>c c'. race_step l net c c' \<and> int (n_passing a (snd c')) \<le> K)\<^sup>*\<^sup>* (init_state, {#}) (st, T)"
    by (rule rtranclp_mono [THEN predicate2D, OF _ assms(1)]) blast
  have run': "(\<lambda>c c'. race_step l net c c' \<and> int (n_path_passing a key (snd c')) \<le> K)\<^sup>*\<^sup>* (init_state, {#}) (st, T)"
    by (rule rtranclp_mono [THEN predicate2D, OF _ assms(1)]) blast
  show "int (n_total a T) < l_maxTotal l + K" if "0 < l_maxTotal l"
    using total_cap.overshoot [OF run] race_inv_init that assms(2) by (simp add: n_passing_def)
  show "int (count (conc_held a T) key) < l_maxPerPath l + K" if "0 < l_maxPerPath l"
    using path_cap.overshoot [OF run'] race_inv_init that assms(2) by (simp add: n_path_passing_def)
  have acct: "obj_acct l a T (ls_heap st a)" by (rule race_invD(4) [OF inv assms(3)])
  then have pos: "pos_map (hash_of (ls_heap st a) h)" by (simp add: obj_acct_def pos_session_def)
  have "(h, p) \<in># big_held a T \<longleftrightarrow> 0 < count_of (hash_of (ls_heap st a) h) p" for p
    using acct by (simp add: obj_acct_def big_cnt_def fun_eq_iff)
  then have "{p. (h, p) \<in># big_held a T} = fmdom' (hash_of (ls_heap st a) h)"
    using count_of_pos_iff [OF pos] by (auto simp: fmlookup_dom'_iff)
  then show "int (card {p. (h, p) \<in># big_held a T}) \<le> l_maxBigFilesPerHash l" if "0 < l_maxBigFilesPerHash l"
    using acct that by (simp add: obj_acct_def map_len_def)
qed

theorem races_bound_caps_witness:
  "\<exists>st T. race_reachable one_limits sample_net st T \<and> ss_total (ls_heap st 0) = 2 \<and>
     int (n_total 0 T) < l_maxTotal one_limits + 2"
proof -
  let ?c = "races both_pass two_requests"
  have n: "length two_requests = 2" by (simp add: two_requests_def)
  have le: "int (n_passing a T) \<le> 2" "int (n_path_passing a key T) \<le> 2" if "size T \<le> 2" for a key T
    using that le_trans [OF size_filter_mset_lesseq that]
    by (simp_all add: n_passing_def n_path_passing_def)
  have tot: "ss_total (ls_heap (snd ?c) 0) = 2" and next0: "fmlookup (ls_sessions (snd ?c)) ''s'' = Some 0"
    using schedule_results(1) by (simp_all add: outcome_of_def Let_def)
  have reach: "race_reachable one_limits sample_net (snd ?c) (mset (fst ?c))"
    by (rule races_reachable) (simp add: n)
  have "(\<lambda>c c'. race_step one_limits sample_net c c' \<and>
      (\<forall>a. int (n_passing a (snd c')) \<le> 2 \<and> (\<forall>key. int (n_path_passing a key (snd c')) \<le> 2)))\<^sup>*\<^sup>*
      (init_state, {#}) (snd ?c, mset (fst ?c))"
    by (rule steps_upto_mono [OF races_run]) (use n le in auto)
  moreover have "0 < ls_next (snd ?c)" using race_invD(5) [OF race_reachable_inv [OF reach] next0] by simp
  ultimately have "int (n_total 0 (mset (fst ?c))) < l_maxTotal one_limits + 2"
    using races_bound_caps [of one_limits sample_net 2 "snd ?c" "mset (fst ?c)" 0] by (simp add: one_limits_def)
  with reach tot show ?thesis by blast
qed

text \<open>C37: The caps do not hold for sessions with concurrent requests. With a cap of one request per session, two
  requests that check at the same time are both let in, and the counter shows two. And two are let in one after the
  other, each counted once: a request that looked its session up just before the last one left goes on
  with an object that is no longer in the map, and the next one starts a new object; when the first of them ends, it
  removes the session of the other from the map while that is still in flight.\<close>

theorem races_exceed_caps:
  "l_maxTotal one_limits = 1 \<and>
   (\<exists>st T. race_reachable one_limits sample_net st T \<and> in_flight ''s'' T = 2 \<and> ss_total (ls_heap st 0) = 2) \<and>
   (\<exists>st T. race_reachable one_limits sample_net st T \<and> in_flight ''s'' T = 2 \<and>
      ss_total (ls_heap st 0) = 1 \<and> ss_total (ls_heap st 1) = 1) \<and>
   (\<exists>st T. race_reachable one_limits sample_net st T \<and> in_flight ''s'' T = 1 \<and> fmlookup (ls_sessions st) ''s'' = None)"
proof (intro conjI)
  have n: "length two_requests < 2 ^ 31 - 1" "length (two_requests @ two_requests) < 2 ^ 31 - 1"
      "length (filter (\<lambda>x. fst x = ''s'') [(''s'', i :: nat), (''s'', j)]) = 2"
      "length (filter (\<lambda>x. fst x = ''s'') [(''s'', i)]) = 1" for i j
    by (simp_all add: two_requests_def)
  note r = outcome_reachable [OF schedule_results(1) n(1), unfolded n]
    outcome_reachable [OF schedule_results(2) n(2), unfolded n] outcome_reachable [OF schedule_results(3) n(2), unfolded n]
  show "\<exists>st T. race_reachable one_limits sample_net st T \<and> in_flight ''s'' T = 2 \<and> ss_total (ls_heap st 0) = 2"
    using r(1) by blast
  show "\<exists>st T. race_reachable one_limits sample_net st T \<and> in_flight ''s'' T = 2 \<and>
      ss_total (ls_heap st 0) = 1 \<and> ss_total (ls_heap st 1) = 1"
    using r(2) by blast
  show "\<exists>st T. race_reachable one_limits sample_net st T \<and> in_flight ''s'' T = 1 \<and> fmlookup (ls_sessions st) ''s'' = None"
    using r(3) by blast
qed (simp add: one_limits_def)

end
