(* ===== verification/Upstream.thy ===== *)
theory Upstream
  imports HTTP_Proxy
begin

text \<open>
  The retrying reader on top of the transport (\<open>services/retry_transport.go\<close>,
  \<open>services/http_proxy.go\<close>, \<open>services/service_location.go\<close>): what the reader needs of its
  reconnection follows from what HTTP promises of the pods, through the location of the fallback pod,
  the request for the rest of the object and the redirects that are followed.
\<close>

section \<open>What the code relies on\<close>

text \<open>
  A body has a position in the object, \<open>pos b w\<close>. A transport moves no body; the body of a 200
  response starts at byte 0, the one of a 206 where its \<open>Content-Range\<close> says, and an open range
  is served from its start.
\<close>

definition range_ok :: "Request \<Rightarrow> 'b Response \<Rightarrow> nat \<Rightarrow> bool" where
  "range_ok req resp a \<longleftrightarrow>
     (rs_StatusCode resp = 200 \<longrightarrow> a = 0) \<and>
     (rs_StatusCode resp = 206 \<longrightarrow>
        (\<exists>t. header_get (rs_Header resp) ''Content-Range'' = ''bytes '' @ show_nat a @ ''-'' @ t) \<and>
        (\<forall>n. header_get (rq_Header req) ''Range'' = range_from (int n) \<longrightarrow> a = n))"

definition pods_ok :: "('b, 'w) RoundTripper \<Rightarrow> ('b \<Rightarrow> 'w \<Rightarrow> nat) \<Rightarrow> bool" where
  "pods_ok tr pos \<longleftrightarrow>
     (\<forall>req w. (\<forall>b. pos b (snd (tr req w)) = pos b w) \<and>
        (\<forall>resp b. fst (tr req w) = Ret resp \<longrightarrow> rs_Body resp = Some b \<longrightarrow> range_ok req resp (pos b (snd (tr req w)))))"

text \<open>A position is within the object. Reading a body delivers the bytes of the object from there, and closing one moves none.\<close>

definition bodies_ok ::
  "('b \<Rightarrow> nat \<Rightarrow> 'w \<Rightarrow> (string \<times> ioerr option) \<times> 'w) \<Rightarrow> ('b \<Rightarrow> 'w \<Rightarrow> 'w) \<Rightarrow> ('b \<Rightarrow> 'w \<Rightarrow> nat) \<Rightarrow> string \<Rightarrow> bool" where
  "bodies_ok rd cl pos obj \<longleftrightarrow> length obj < 2 ^ 63 \<and> (\<forall>b w. pos b w \<le> length obj) \<and>
     (\<forall>b n w. let d = fst (fst (rd b n w)) in
        length d \<le> n \<and> d = take (length d) (drop (pos b w) obj) \<and> pos b (snd (rd b n w)) = pos b w + length d) \<and>
     (\<forall>b b' w. pos b (cl b' w) = pos b w)"

text \<open>The caches, the ignore list, the random numbers, the transports and closing a body keep a
  property of the world.\<close>

definition env_keeps :: "'w SLib \<Rightarrow> ('b, 'w) HLib \<Rightarrow> ('w \<Rightarrow> bool) \<Rightarrow> bool" where
  "env_keeps e h P \<longleftrightarrow>
     (\<forall>w. P w \<longrightarrow>
        (\<forall>k x. P (snd (e_ignore_get e k x w))) \<and> (\<forall>k. P (snd (e_endpoints e k w))) \<and> P (snd (e_nodes e w)) \<and>
        (\<forall>n. P (snd (e_rand e n w))) \<and> (\<forall>req. P (snd (h_transport h req w))) \<and> (\<forall>req. P (snd (h_external h req w))) \<and>
        (\<forall>b. P (h_Close h b w)))"

definition upstream_contract ::
  "'w SLib \<Rightarrow> ('b, 'w) HLib \<Rightarrow> ('b \<Rightarrow> nat \<Rightarrow> 'w \<Rightarrow> (string \<times> ioerr option) \<times> 'w) \<Rightarrow> ('b \<Rightarrow> 'w \<Rightarrow> nat) \<Rightarrow> string \<Rightarrow> bool" where
  "upstream_contract e h rd pos obj \<longleftrightarrow>
     pods_ok (h_transport h) pos \<and> pods_ok (h_external h) pos \<and> bodies_ok rd (h_Close h) pos obj \<and>
     (\<forall>b p. env_keeps e h (\<lambda>w. pos b w = p))"

section \<open>From the pods to the reader\<close>

text \<open>The operations the reader of a wrapped response uses: \<open>rec\<close> is the \<open>reconnectFn\<close> it was given.\<close>

definition blib_of ::
  "('b, 'w) HLib \<Rightarrow> ('b \<Rightarrow> nat \<Rightarrow> 'w \<Rightarrow> (string \<times> ioerr option) \<times> 'w) \<Rightarrow>
   (int \<Rightarrow> string \<Rightarrow> 'w \<Rightarrow> 'b reconn outcome \<times> string \<times> 'w) \<Rightarrow> ('b, 'w) BLib" where
  "blib_of h rd rec = \<lparr>b_read = rd, b_close = h_Close h, b_reconnect = rec\<rparr>"

lemma env_keepsD:
  assumes "env_keeps e h P" "P w"
  shows "P (snd (e_ignore_get e k x w))" "P (snd (e_endpoints e k w))" "P (snd (e_nodes e w))" "P (snd (e_rand e n w))"
    "P (snd (h_transport h req w))" "P (snd (h_external h req w))" "P (h_Close h b w)"
  using assms by (simp_all add: env_keeps_def)

lemma pick_address_keeps:
  assumes "env_keeps e h P" "P w"
  shows "P (snd (pick_address e cfg infoHash claims ads w))"
proof -
  have "P (snd (filterNodesByRole e ns claims w))" for ns
    by (simp add: filterNodesByRole_def split_beta Let_def env_keepsD [OF assms] assms(2) split: option.split)
  then have "P (snd (distributeByNodeHash e infoHash ads claims w))"
    by (simp add: distributeByNodeHash_def split_beta Let_def assms(2) split: outcome.split)
  then show ?thesis by (simp add: pick_address_def split_beta Let_def env_keepsD [OF assms] assms(2))
qed

lemma getKubernetes_keeps:
  assumes "env_keeps e h P" "P w"
  shows "P (snd (getKubernetes e cfg infoHash claims w))"
  using env_keepsD(2) [OF assms, of "sc_Name cfg"] pick_address_keeps [OF assms(1)]
  by (simp add: getKubernetes_def split_beta Let_def split: outcome.split list.split)

lemma GetFallback_keeps:
  assumes "env_keeps e h P" "P w"
  shows "P (snd (GetFallback e cfg src ip claims w))"
  using env_keepsD(1) [OF assms] getKubernetes_keeps [OF assms(1)]
  by (simp add: GetFallback_def Ignore_def split_beta Let_def assms(2) split: option.split)

lemma redirect_loop_keeps:
  assumes "env_keeps e h P" "P w"
  shows "P (snd (redirect_loop h req n resp w))"
  using assms(2)
proof (induction n arbitrary: resp w)
  case (Suc n)
  have cl: "P (h_Close h b w)" for b by (rule env_keepsD(7) [OF assms(1) Suc.prems])
  then have "P (snd (h_external h r (h_Close h b w)))" for r b by (rule env_keepsD(6) [OF assms(1)])
  then show ?case
    using Suc cl by (auto simp: Let_def split: option.split outcome.split prod.split) (metis snd_conv)+
qed simp

lemma redirect_RoundTrip_keeps:
  assumes "env_keeps e h P" "P w"
  shows "P (snd (redirect_RoundTrip h req w))"
  using env_keepsD(5) [OF assms, of req] redirect_loop_keeps [OF assms(1)]
  by (auto simp: redirect_RoundTrip_def split: outcome.split prod.split)

lemma reconnectFn_keeps:
  assumes "env_keeps e h P" "P w"
  shows "P (snd (snd (reconnectFn e h rc req origStart off fh w)))"
proof -
  have ck: "P (snd (check_retry h n resp u))" if "P u" for n resp u
    using that env_keepsD(7) [OF assms(1) that] by (auto simp: check_retry_def Let_def split: option.split)
  have fb: "P u'" if "GetFallback e c s ip cl u = (q, u')" "P u" for c s ip cl u q u'
    using GetFallback_keeps [OF assms(1) that(2), of c s ip cl] that(1) by simp
  have rt: "P u'" if "redirect_RoundTrip h r u = (q, u')" "P u" for r u q u'
    using redirect_RoundTrip_keeps [OF assms(1) that(2), of r] that(1) by simp
  show ?thesis
    using assms(2) unfolding reconnectFn_def Let_def
    by (auto split: option.split outcome.split prod.split dest!: fb rt dest: ck) (metis ck snd_conv)+
qed

lemma upstream_contractD:
  assumes "upstream_contract e h rd pos obj"
  shows "pods_ok (h_transport h) pos" "pods_ok (h_external h) pos" "bodies_ok rd (h_Close h) pos obj"
    "env_keeps e h (\<lambda>w. pos b w = p)"
    "pos b (h_Close h b' w) = pos b w"
  using assms by (simp_all add: upstream_contract_def bodies_ok_def)

lemma pods_okD:
  assumes "pods_ok tr pos" "tr req w = (q, w')"
  shows "pos b w' = pos b w" "q = Ret resp \<Longrightarrow> rs_Body resp = Some b \<Longrightarrow> range_ok req resp (pos b w')"
  using assms unfolding pods_ok_def by (metis fst_conv snd_conv)+

lemma hop_range_ok:
  assumes "hop_request h req loc = Ret newReq" "range_ok newReq resp a"
  shows "range_ok req resp a"
proof -
  have "header_get (rq_Header newReq) ''Range'' = range_from (int n)"
    if "header_get (rq_Header req) ''Range'' = range_from (int n)" for n
    using hop_request_range [OF assms(1)] that by (simp add: range_from_def)
  then show ?thesis using assms(2) by (auto simp: range_ok_def)
qed

lemma redirect_loop_ok:
  assumes "upstream_contract e h rd pos obj" "redirect_loop h req n resp w = (q, w')"
    and "\<And>b. rs_Body resp = Some b \<Longrightarrow> range_ok req resp (pos b w)"
  shows "pos b w' = pos b w \<and> (\<forall>resp' c. q = Ret resp' \<longrightarrow> rs_Body resp' = Some c \<longrightarrow> range_ok req resp' (pos c w'))"
  using assms(2,3)
proof (induction n arbitrary: resp w)
  case (Suc n)
  show ?case
  proof (cases "is_redirect resp \<and> header_get (rs_Header resp) ''Location'' \<noteq> [] \<and> rs_Body resp \<noteq> None")
    case False
    then show ?thesis using Suc.prems by (auto simp: Let_def split: if_splits)
  next
    case True
    then obtain c where c: "rs_Body resp = Some c" by blast
    let ?w1 = "h_Close h c w" and ?loc = "header_get (rs_Header resp) ''Location''"
    have cl: "pos x ?w1 = pos x w" for x by (rule upstream_contractD(5) [OF assms(1)])
    show ?thesis
    proof (cases "hop_request h req ?loc")
      case (Ret newReq)
      obtain p w2 where tr: "h_external h newReq ?w1 = (p, w2)" by fastforce
      have ps: "pos x w2 = pos x w" for x
        using pods_okD(1) [OF upstream_contractD(2) [OF assms(1)] tr] cl by simp
      show ?thesis
      proof (cases p)
        case p: (Ret resp1)
        have "redirect_loop h req n resp1 w2 = (q, w')" using Suc.prems(1) True c Ret tr p by (simp add: Let_def)
        moreover have "range_ok req resp1 (pos d w2)" if "rs_Body resp1 = Some d" for d
          by (rule hop_range_ok [OF Ret pods_okD(2) [OF upstream_contractD(2) [OF assms(1)] tr p that]])
        ultimately show ?thesis using Suc.IH ps by metis
      qed (use Suc.prems(1) True c Ret tr ps in \<open>auto simp: Let_def\<close>)
    qed (use Suc.prems(1) True c cl in \<open>auto simp: Let_def\<close>)
  qed
qed auto

lemma redirect_RoundTrip_ok:
  assumes "upstream_contract e h rd pos obj"
  shows "pods_ok (redirect_RoundTrip h) pos"
proof -
  have "pos b w' = pos b w \<and> (\<forall>resp' c. q = Ret resp' \<longrightarrow> rs_Body resp' = Some c \<longrightarrow> range_ok req resp' (pos c w'))"
    if rt: "redirect_RoundTrip h req w = (q, w')" for req w q w' b
  proof -
    obtain p w1 where tr: "h_transport h req w = (p, w1)" by fastforce
    note t = pods_okD [OF upstream_contractD(1) [OF assms] tr]
    show ?thesis
    proof (cases p)
      case (Ret resp)
      then have "redirect_loop h req 10 resp w1 = (q, w')" using rt tr by (simp add: redirect_RoundTrip_def)
      from redirect_loop_ok [OF assms this, of b] t show ?thesis using Ret by simp
    qed (use rt tr t in \<open>auto simp: redirect_RoundTrip_def\<close>)
  qed
  then show ?thesis unfolding pods_ok_def by (metis prod.collapse)
qed

text \<open>A reconnection at an offset within the object yields a body that starts there, and moves no
  other one.\<close>

lemma reconnectFn_quiet:
  assumes "upstream_contract e h rd pos obj"
  shows "pos b (snd (snd (reconnectFn e h rc req origStart off fh w))) = pos b w"
  by (rule reconnectFn_keeps [OF upstream_contractD(4) [OF assms]]) simp

lemma reconnectFn_starts:
  assumes "upstream_contract e h rd pos obj" "reconnectFn e h rc req (int start) off fh w = (Ret (NewBody b), fh', w')"
    and "0 \<le> off" "start + nat off \<le> length obj"
  shows "pos b w' = start + nat off"
  using assms(2)
proof (rule reconnectFn_NewBody)
  fix cfg loc w1 newReq resp
  assume r: "retry_request h req fh' (wrap64 (int start + off)) = Ret newReq"
    "redirect_RoundTrip h newReq w1 = (Ret resp, w')"
    "rs_StatusCode resp = StatusPartialContent" "rs_Body resp = Some b"
  have "length obj < 2 ^ 63" using upstream_contractD(3) [OF assms(1)] by (simp add: bodies_ok_def)
  then have "in_int64 (int start + off)" using assms(3,4) by (simp add: in_int64_def)
  then have "wrap64 (int start + off) = int (start + nat off)" using assms(3) by (simp add: wrap64_id)
  then have "header_get (rq_Header newReq) ''Range'' = range_from (int (start + nat off))"
    using r(1) by (auto simp: retry_request_def outcome_simps)
  then show ?thesis
    using pods_okD(2) [OF redirect_RoundTrip_ok [OF assms(1)] r(2) refl r(4)] r(3) by (simp add: range_ok_def status_defs)
qed

lemma reconnectFn_upstream_ok:
  assumes "upstream_contract e h rd pos obj" "start \<le> length obj"
  shows "upstream_ok (blib_of h rd (reconnectFn e h rc req (int start))) pos obj start"
proof -
  have b: "bodies_ok rd (h_Close h) pos obj" by (rule upstream_contractD(3) [OF assms(1)])
  have rec: "(\<forall>b. q = Ret (NewBody b) \<longrightarrow> 0 \<le> off \<longrightarrow> start + nat off \<le> length obj \<longrightarrow> pos b w' = start + nat off) \<and>
      (\<forall>b. q \<noteq> Ret (NewBody b) \<longrightarrow> pos b w' = pos b w)"
    if "reconnectFn e h rc req (int start) off fh w = (q, fh', w')" for off fh w q fh' w'
    using that reconnectFn_starts [OF assms(1)] reconnectFn_quiet [OF assms(1)] by (metis snd_conv)
  show ?thesis
    using b assms(2) rec unfolding upstream_ok_def bodies_ok_def blib_of_def BLib.simps
    by (auto split: prod.split)
qed

text \<open>The offset from which the transport counts is the one where the upstream starts.\<close>

lemma orig_start_range_ok:
  assumes "range_ok req resp a" "rs_StatusCode resp = 200 \<or> rs_StatusCode resp = 206" "a < 2 ^ 63"
  shows "orig_start req resp = Some (int a)"
proof (cases "rs_StatusCode resp = 206")
  case True
  then obtain t where "header_get (rs_Header resp) ''Content-Range'' = ''bytes '' @ show_nat a @ ''-'' @ t"
    using assms(1) by (auto simp: range_ok_def)
  then show ?thesis using True parseContentRangeStart_show [OF assms(3), of t] by (simp add: orig_start_def status_defs)
qed (use assms in \<open>auto simp: orig_start_def range_ok_def status_defs\<close>)

section \<open>End to end\<close>

lemma wrapped_stream:
  assumes "upstream_contract e h rd pos obj"
    and "retry_RoundTrip e h (redirect_RoundTrip h) (Some c) req w = (Ret (resp, Some (r, rec)), w1)"
  obtains start where "stream_at (blib_of h rd rec) pos obj start (r, w1) start" "r_bytesRead r = 0" "\<not> r_closed r"
    "rs_StatusCode resp = 200 \<or> rs_StatusCode resp = 206" "range_ok req resp start" "orig_start req resp = Some (int start)"
    "r_expected r = rs_ContentLength resp" "rs_Body resp = Some (r_body r)" "rec = reconnectFn e h c req (int start)"
proof -
  obtain b where r: "redirect_RoundTrip h req w = (Ret resp, w1)" "rs_Body resp = Some b"
      "rs_StatusCode resp = 200 \<or> rs_StatusCode resp = 206"
      "r = \<lparr>r_body = b, r_bytesRead = 0, r_expected = rs_ContentLength resp, r_maxRetries = rc_MaxRetries c,
            r_retries = 0, r_closed = False, r_failedHost = u_Host (rq_URL req)\<rparr>"
      "orig_start req resp = Some s \<Longrightarrow> rec = reconnectFn e h c req s" for s
    using assms(2)
    by (auto simp: retry_RoundTrip_def status_defs split: outcome.splits option.splits if_splits prod.splits)
  have le: "pos b w1 \<le> length obj" "length obj < 2 ^ 63"
    using upstream_contractD(3) [OF assms(1)] by (auto simp: bodies_ok_def)
  have ok: "range_ok req resp (pos b w1)" by (rule pods_okD(2) [OF redirect_RoundTrip_ok [OF assms(1)] r(1) refl r(2)])
  have os: "orig_start req resp = Some (int (pos b w1))"
    using orig_start_range_ok [OF ok r(3)] le by linarith
  have "upstream_ok (blib_of h rd rec) pos obj (pos b w1)"
    unfolding r(5) [OF os] by (rule reconnectFn_upstream_ok [OF assms(1) le(1)])
  then show thesis
    using that [of "pos b w1"] r os ok le by (simp add: stream_at_def)
qed

text \<open>C4: The proxied bytes are those of the object, whichever pods they come from: where the pods answer
  ranges as HTTP says, whatever a client reads from a wrapped response, over any number of broken
  connections, fallback pods and redirects, is a contiguous piece of the object. It starts at byte 0 for a 200, and for
  a request of an open range at the byte that was asked for.\<close>

theorem proxied_bytes_are_the_objects:
  assumes "upstream_contract e h rd pos obj"
    and "retry_RoundTrip e h (redirect_RoundTrip h) (Some c) req w = (Ret (resp, Some (r, rec)), w1)"
    and "read_seq (read_data (blib_of h rd rec)) ns (r, w1) = (ds, (r', w'))"
  shows "\<exists>start. ds = take (length ds) (drop start obj) \<and> r_bytesRead r' = int (length ds) \<and>
    (rs_StatusCode resp = 200 \<longrightarrow> start = 0) \<and>
    (\<forall>n. rs_StatusCode resp = 206 \<and> header_get (rq_Header req) ''Range'' = range_from (int n) \<longrightarrow> start = n)"
  using assms(1,2)
proof (rule wrapped_stream)
  fix start
  assume s: "stream_at (blib_of h rd rec) pos obj start (r, w1) start" and ok: "range_ok req resp start"
  from rr.seq_at [OF s assms(3)]
  have "ds = take (length ds) (drop start obj) \<and> r_bytesRead r' = int (length ds)" by (simp add: stream_at_def)
  with ok show ?thesis by (auto simp: range_ok_def)
qed

text \<open>
  Two pods that answer open ranges of an object of six bytes. A body is an identity and a start; the
  first one that is opened breaks after one byte.
\<close>

type_synonym 'x pods = "string list \<times> nat \<times> (nat \<times> nat) list \<times> 'x"

definition progress :: "(nat \<times> nat) list \<Rightarrow> nat \<Rightarrow> nat" where
  "progress pr i = (case map_of pr i of Some k \<Rightarrow> k | None \<Rightarrow> 0)"

definition pods_pos :: "nat \<times> nat \<Rightarrow> 'x pods \<Rightarrow> nat" where
  "pods_pos b w = (case (b, w) of ((i, st), (_, _, pr, _)) \<Rightarrow> min 6 (st + progress pr i))"

definition pods_read :: "nat \<times> nat \<Rightarrow> nat \<Rightarrow> 'x pods \<Rightarrow> (string \<times> ioerr option) \<times> 'x pods" where
  "pods_read b n w =
     (case (b, w) of ((i, st), (ig, k, pr, x)) \<Rightarrow>
      if n = 0 then (([], None), w)
      else if st + progress pr i < 6 \<and> (0 < i \<or> progress pr i < 1)
      then (([demo_obj ! (st + progress pr i)], None), (ig, k, (i, Suc (progress pr i)) # pr, x))
      else (([], Some (if i = 0 then Errno ECONNRESET else IoEOF)), w))"

definition pods_transport :: "(nat \<times> nat, 'x pods) RoundTripper" where
  "pods_transport req w =
     (case w of (ig, k, pr, x) \<Rightarrow>
      case find (\<lambda>a. header_get (rq_Header req) ''Range'' = range_from (int a)) [0..<6] of
        None \<Rightarrow> (Fail (ErrMsg ''unreachable''), w)
      | Some a \<Rightarrow>
          if progress pr k = 0 then
            (Ret \<lparr>rs_StatusCode = 206, rs_Header = header_set ''Content-Range'' (''bytes '' @ show_nat a @ ''-5/6'') fmempty,
              rs_ContentLength = int (6 - a), rs_Body = Some (k, a)\<rparr>, (ig, Suc k, pr, x))
          else (Fail (ErrMsg ''unreachable''), w))"

definition pods_hlib :: "(nat \<times> nat, 'x pods) HLib" where
  "pods_hlib = \<lparr>h_transport = pods_transport, h_external = (\<lambda>req w. (Fail (ErrMsg ''unreachable''), w)),
     h_NewRequest = (\<lambda>m u. Ret \<lparr>rq_Method = m, rq_URL = \<lparr>u_Path = ''/f'', u_RawQuery = [], u_Host = ''10.2:80''\<rparr>,
       rq_Header = fmempty\<rparr>),
     h_Close = (\<lambda>b w. w), h_empty_body = (0, 6)\<rparr>"

definition pods_slib :: "'x pods SLib" where
  "pods_slib = \<lparr>e_net = demo_net, e_ignore_get = (\<lambda>ip r w. (r, (ip # fst w, snd w))),
     e_ignore_status = (\<lambda>ip w. ip \<in> set (fst w)),
     e_endpoints = (\<lambda>name w. (Ret [demo_subset], w)), e_nodes = (\<lambda>w. (Ret demo_nodes, w)),
     e_nn = [], e_rand = (\<lambda>n w. (0, w)), e_probe_map = (\<lambda>key load w. load w),
     e_NewRequest = (\<lambda>url. Ret ()), e_Do = (\<lambda>url w. (Ret 200, w)),
     e_Getenv = (\<lambda>name. []), e_loc_map = (\<lambda>key load w. load w)\<rparr>"

lemma range_from_inj: "range_from (int a) = range_from (int b) \<longleftrightarrow> a = b"
proof -
  have "show_nat a = show_nat b \<longleftrightarrow> a = b" by (metis digits_val_show_nat option.inject)
  then show ?thesis by (simp add: range_from_def show_int_def)
qed

lemma pods_transport_ok: "pods_ok pods_transport pods_pos"
proof -
  have "(\<forall>b. pods_pos b w' = pods_pos b w) \<and> (\<forall>resp b. q = Ret resp \<longrightarrow> rs_Body resp = Some b \<longrightarrow> range_ok req resp (pods_pos b w'))"
    if tr: "pods_transport req w = (q, w')" for req w q w'
  proof -
    obtain ig k pr x where w: "w = (ig, k, pr, x)" by (metis prod_cases4)
    show ?thesis
    proof (cases "find (\<lambda>a. header_get (rq_Header req) ''Range'' = range_from (int a)) [0..<6]")
      case None
      then show ?thesis using tr by (auto simp: pods_transport_def w)
    next
      case (Some a)
      then have a: "header_get (rq_Header req) ''Range'' = range_from (int a)" "a < 6"
        by (auto simp: find_Some_iff)
      have "header_get (header_set ''Content-Range'' (''bytes '' @ show_nat a @ ''-5/6'') fmempty) ''Content-Range'' =
          ''bytes '' @ show_nat a @ ''-'' @ ''5/6''" by simp
      then show ?thesis
        using tr a Some by (auto simp: pods_transport_def w pods_pos_def range_ok_def range_from_inj split: if_splits)
    qed
  qed
  then show ?thesis unfolding pods_ok_def by (metis prod.collapse)
qed

lemma pods_contract: "upstream_contract pods_slib pods_hlib pods_read (pods_pos :: _ \<Rightarrow> 'x pods \<Rightarrow> _) demo_obj"
proof -
  have one: "take (Suc 0) (drop k demo_obj) = [demo_obj ! k]" if "k < 6" for k
    using that by (simp add: take_Suc hd_drop_conv_nth demo_obj_def)
  have "bodies_ok pods_read (\<lambda>b w. w) pods_pos demo_obj"
    unfolding bodies_ok_def by (auto simp: pods_read_def pods_pos_def progress_def one demo_obj_def [THEN arg_cong [where f = length]])
  moreover have "env_keeps pods_slib pods_hlib (\<lambda>w :: 'x pods. pods_pos b w = p)" for b p
  proof -
    have "pods_pos b (snd (pods_transport req w)) = pods_pos b w" for req and w :: "'x pods"
      using pods_okD(1) [OF pods_transport_ok] by (metis prod.collapse)
    moreover have "pods_pos b (ig, snd w) = pods_pos b w" for ig and w :: "'x pods" by (simp add: pods_pos_def split_beta)
    ultimately show ?thesis by (simp add: env_keeps_def pods_slib_def pods_hlib_def)
  qed
  moreover have "pods_ok (\<lambda>req w. (Fail (ErrMsg ''unreachable''), w)) pods_pos" by (simp add: pods_ok_def)
  ultimately show ?thesis using pods_transport_ok by (simp add: upstream_contract_def pods_hlib_def)
qed

definition open_request :: Request where
  "open_request = sample_request\<lparr>rq_Header := header_set ''Range'' ''bytes=1-'' fmempty\<rparr>"

definition pods_response :: "(nat \<times> nat) Response" where
  "pods_response = \<lparr>rs_StatusCode = 206, rs_Header = header_set ''Content-Range'' ''bytes 1-5/6'' fmempty,
     rs_ContentLength = 5, rs_Body = Some (0, 1)\<rparr>"

definition pods_reader :: "(nat \<times> nat) RRC" where
  "pods_reader = \<lparr>r_body = (0, 1), r_bytesRead = 0, r_expected = 5, r_maxRetries = 3, r_retries = 0, r_closed = False,
     r_failedHost = ''10.1:80''\<rparr>"

lemma pods_opened:
  fixes x :: "'x :: equal"
  shows "retry_RoundTrip pods_slib pods_hlib (redirect_RoundTrip pods_hlib) (Some demo_rc) open_request ([], 0, [], x) =
    (Ret (pods_response, Some (pods_reader, reconnectFn pods_slib pods_hlib demo_rc open_request 1)), ([], 1, [], x))"
proof -
  have "redirect_RoundTrip pods_hlib open_request ([], 0, [], x) = (Ret pods_response, ([], 1, [], x))" by code_simp
  moreover have "orig_start open_request pods_response = Some 1" by code_simp
  ultimately show ?thesis
    by (simp add: retry_RoundTrip_def pods_response_def pods_reader_def demo_rc_def status_defs open_request_def sample_request_def)
qed

abbreviation pods_blib :: "(nat \<times> nat, 'x pods) BLib" where
  "pods_blib \<equiv> blib_of pods_hlib pods_read (reconnectFn pods_slib pods_hlib demo_rc open_request 1)"

lemma pods_reconnects:
  fixes x :: "'x :: equal"
  shows "reconnectFn pods_slib pods_hlib demo_rc open_request 1 1 ''10.1:80'' ([], 1, [(0, 1)], x) =
     (Ret (NewBody (1, 2)), ''10.2:80'', ([''10.1''], 2, [(0, 1)], x))"
  by code_simp

lemma pods_reads:
  fixes x :: "'x :: equal"
  shows "read_data pods_blib 1 (pods_reader, ([], 1, [], x)) = (''b'', (pods_reader\<lparr>r_bytesRead := 1\<rparr>, ([], 1, [(0, 1)], x)))"
  "read_data pods_blib 1 (pods_reader\<lparr>r_bytesRead := 1\<rparr>, ([], 1, [(0, 1)], x)) =
     (''c'', (pods_reader\<lparr>r_bytesRead := 2, r_retries := 1, r_body := (1, 2), r_failedHost := ''10.2:80''\<rparr>, ([''10.1''], 2, [(1, 1), (0, 1)], x)))"
  using pods_reconnects [of x]
  by (simp_all add: read_data_def Read_def blib_of_def pods_read_def pods_reader_def progress_def advance_def demo_obj_def
      wrap64_def isRetryableError_def pods_hlib_def)

theorem proxied_bytes_are_the_objects_witness:
  "fst (read_seq (read_data pods_blib) [1, 1] (pods_reader, ([], 1, [], ()))) = ''bc'' \<and> ''bc'' = take 2 (drop 1 demo_obj)"
proof -
  have res: "read_seq (read_data pods_blib) [1, 1] (pods_reader, ([], 1, [], ())) = (''bc'',
      (pods_reader\<lparr>r_bytesRead := 2, r_retries := 1, r_body := (1, 2), r_failedHost := ''10.2:80''\<rparr>, ([''10.1''], 2, [(1, 1), (0, 1)], ())))"
    by (simp only: read_seq.simps pods_reads Let_def prod.case append.simps)
  have "header_get (rq_Header open_request) ''Range'' = range_from (int 1)" "rs_StatusCode pods_response = 206" by code_simp+
  with proxied_bytes_are_the_objects [OF pods_contract pods_opened res]
  have "''bc'' = take (length ''bc'') (drop 1 demo_obj)" by (metis (no_types, lifting))
  moreover have "length ''bc'' = 2" by simp
  ultimately show ?thesis unfolding res fst_conv by metis
qed

end
