(* ===== verification/Streaming.thy ===== *)
theory Streaming
  imports Upstream Web_Handlers Bandwidth
begin

text \<open>
  Streaming a response to the client: the loop of \<open>httputil.ReverseProxy\<close> reads the body through
  the retrying reader (\<open>services/retry_transport.go\<close>) and writes what it has read through the throttled writer
  (\<open>services/throttled_request_writer.go\<close>) and the interceptor
  (\<open>services/response_writer_interceptor.go\<close>) to the client's connection. The loop is the one of the
  library with \<open>FlushInterval\<close> -1, as \<open>services/http_proxy.go\<close> sets it. It need not end: not
  returning is \<open>None\<close>.
\<close>

section \<open>The copy loop\<close>

text \<open>What a read error makes of the loop: \<open>Inr\<close> goes on. An end of file is no error.\<close>

definition after_read :: "nat \<Rightarrow> ioerr option \<Rightarrow> (nat \<times> ioerr option) outcome + nat" where
  "after_read n rerr =
     (case rerr of None \<Rightarrow> Inr n | Some e \<Rightarrow> Inl (Ret (n, if e = IoEOF then None else Some e)))"

definition copy_round ::
  "(nat \<Rightarrow> 's \<Rightarrow> (string \<times> ioerr option) outcome \<times> 's) \<Rightarrow> (string \<Rightarrow> 's \<Rightarrow> ((nat \<times> ioerr option) \<times> 's) option) \<Rightarrow>
   nat \<Rightarrow> nat \<Rightarrow> 's \<Rightarrow> (((nat \<times> ioerr option) outcome + nat) \<times> 's) option" where
  "copy_round rd wr b n s =
     (case rd b s of
        (Fail e, s1) \<Rightarrow> Some (Inl (Fail e), s1)
      | (Panic k, s1) \<Rightarrow> Some (Inl (Panic k), s1)
      | (Ret (d, rerr), s1) \<Rightarrow>
          if d = [] then Some (after_read n rerr, s1)
          else case wr d s1 of
            None \<Rightarrow> None
          | Some ((nw, werr), s2) \<Rightarrow>
              Some (if werr \<noteq> None then Inl (Ret (n + nw, werr))
                    else if length d \<noteq> nw then Inl (Ret (n + nw, Some (Plain ''short write'')))
                    else after_read (n + nw) rerr, s2))"

partial_function (option) copyBuffer ::
  "(nat \<Rightarrow> 's \<Rightarrow> (string \<times> ioerr option) outcome \<times> 's) \<Rightarrow> (string \<Rightarrow> 's \<Rightarrow> ((nat \<times> ioerr option) \<times> 's) option) \<Rightarrow>
   nat \<Rightarrow> nat \<Rightarrow> 's \<Rightarrow> ((nat \<times> ioerr option) outcome \<times> 's) option" where
  "copyBuffer rd wr b n s =
     (case copy_round rd wr b n s of
        None \<Rightarrow> None
      | Some (Inl res, s') \<Rightarrow> Some (res, s')
      | Some (Inr n', s') \<Rightarrow> copyBuffer rd wr b n' s')"

text \<open>What reading and writing keep, the loop keeps.\<close>

lemma copyBuffer_inv:
  assumes "copyBuffer rd wr b n s = Some (res, s')" "P s"
    and rd: "\<And>n s q s'. rd n s = (q, s') \<Longrightarrow> P s \<Longrightarrow> P s'"
    and wr: "\<And>d s x s'. wr d s = Some (x, s') \<Longrightarrow> P s \<Longrightarrow> P s'"
  shows "P s'"
proof -
  have round: "P s'" if "copy_round rd wr b n s = Some (x, s')" "P s" for b n s x s'
    using that rd wr by (auto simp: copy_round_def split: prod.splits outcome.splits option.splits if_splits)
  have "rd = rd \<longrightarrow> wr = wr \<longrightarrow> P s \<longrightarrow> P (snd (res, s'))"
  proof (rule copyBuffer.raw_induct [where P = "\<lambda>rd' wr' b n s y. rd' = rd \<longrightarrow> wr' = wr \<longrightarrow> P s \<longrightarrow> P (snd y)", OF _ assms(1)],
      goal_cases)
    case (1 cb rd' wr' b n s y)
    show ?case
    proof (intro impI)
      assume eq: "rd' = rd" "wr' = wr" and "P s"
      obtain x s1 where r: "copy_round rd wr b n s = Some (x, s1)" using 1(2) by (auto simp: eq split: option.splits)
      have "P s1" by (rule round [OF r \<open>P s\<close>])
      then show "P (snd y)"
        using 1(2) 1(1) [of rd wr b _ s1 y] by (cases x) (auto simp: eq r)
    qed
  qed
  then show ?thesis using assms(2) by simp
qed

text \<open>\<open>io.ReadAll\<close>; \<open>room n\<close> is the free space of the growing buffer after \<open>n\<close> bytes.\<close>

partial_function (option) readAll ::
  "(nat \<Rightarrow> 's \<Rightarrow> (string \<times> ioerr option) outcome \<times> 's) \<Rightarrow> (nat \<Rightarrow> nat) \<Rightarrow> string \<Rightarrow> 's \<Rightarrow>
   ((string \<times> ioerr option) outcome \<times> 's) option" where
  "readAll rd room acc s =
     (case rd (room (length acc)) s of
        (Fail e, s1) \<Rightarrow> Some (Fail e, s1)
      | (Panic k, s1) \<Rightarrow> Some (Panic k, s1)
      | (Ret (d, None), s1) \<Rightarrow> readAll rd room (acc @ d) s1
      | (Ret (d, Some e), s1) \<Rightarrow> Some (Ret (acc @ d, if e = IoEOF then None else Some e), s1))"

lemma readAll_inv:
  assumes "readAll rd room acc s = Some (res, s')" "P s"
    and rd: "\<And>n s q s'. rd n s = (q, s') \<Longrightarrow> P s \<Longrightarrow> P s'"
  shows "P s'"
proof -
  have "rd = rd \<longrightarrow> P s \<longrightarrow> P (snd (res, s'))"
  proof (rule readAll.raw_induct [where P = "\<lambda>rd' room acc s y. rd' = rd \<longrightarrow> P s \<longrightarrow> P (snd y)", OF _ assms(1)], goal_cases)
    case (1 ra rd' room acc s y)
    show ?case
    proof (intro impI)
      assume eq: "rd' = rd" and "P s"
      obtain q s1 where r: "rd (room (length acc)) s = (q, s1)" by fastforce
      have "P s1" by (rule rd [OF r \<open>P s\<close>])
      then show "P (snd y)"
        using 1(2) 1(1) [of rd room _ s1 y] by (auto simp: eq r split: outcome.splits option.splits prod.splits)
    qed
  qed
  then show ?thesis using assms(2) by simp
qed

text \<open>A source that always returns makes the loop return.\<close>

lemma copyBuffer_returns:
  assumes "copyBuffer rd wr b n s = Some (res, s')" "\<And>n s. \<exists>x s'. rd n s = (Ret x, s')"
  shows "\<exists>x. res = Ret x"
proof -
  have round: "\<exists>x. q = Ret x" if "copy_round rd wr b n s = Some (Inl q, s')" for wr b n s q s'
  proof -
    obtain d e s1 where "rd b s = (Ret (d, e), s1)" using assms(2) [of b s] by auto
    then show ?thesis using that by (auto simp: copy_round_def after_read_def split: option.splits if_splits prod.splits)
  qed
  have "rd = rd \<longrightarrow> (\<exists>x. fst (res, s') = Ret x)"
  proof (rule copyBuffer.raw_induct [where P = "\<lambda>rd' wr b n s y. rd' = rd \<longrightarrow> (\<exists>x. fst y = Ret x)", OF _ assms(1)], goal_cases)
    case (1 cb rd' wr b n s y)
    show ?case
    proof
      assume eq: "rd' = rd"
      obtain q s1 where r: "copy_round rd wr b n s = Some (q, s1)" using 1(2) by (auto simp: eq split: option.splits)
      then show "\<exists>x. fst y = Ret x" using 1(2) 1(1) [of rd wr b _ s1 y] round [of wr b n s _ s1] by (cases q) (auto simp: eq)
    qed
  qed
  then show ?thesis by simp
qed

text \<open>
  A relay: a source that delivers an object from its position on, never nothing without an error,
  and a sink that takes what it is given up to an error. \<open>sent\<close> is what the sink took and \<open>cnt\<close>
  counts what it was given.
\<close>

locale relay =
  fixes rd :: "nat \<Rightarrow> 's \<Rightarrow> (string \<times> ioerr option) outcome \<times> 's"
    and wr :: "string \<Rightarrow> 's \<Rightarrow> ((nat \<times> ioerr option) \<times> 's) option"
    and posn :: "'s \<Rightarrow> nat \<Rightarrow> bool"
    and sent :: "'s \<Rightarrow> string"
    and cnt :: "'s \<Rightarrow> int"
    and obj :: string
  assumes posn_le: "posn s p \<Longrightarrow> p \<le> length obj"
    and rd_keeps: "posn s p \<Longrightarrow> rd n s = (q, s') \<Longrightarrow> sent s' = sent s \<and> cnt s' = cnt s"
    and rd_data: "posn s p \<Longrightarrow> rd n s = (Ret (d, e), s') \<Longrightarrow>
      length d \<le> n \<and> d = take (length d) (drop p obj) \<and> posn s' (p + length d)"
    and rd_progress: "posn s p \<Longrightarrow> rd n s = (Ret ([], e), s') \<Longrightarrow> 0 < n \<Longrightarrow> e \<noteq> None"
    and wr_ok: "posn s p \<Longrightarrow> \<exists>k e s'. wr d s = Some ((k, e), s') \<and> posn s' p \<and> k \<le> length d \<and>
      (k < length d \<longrightarrow> e \<noteq> None) \<and> sent s' = sent s @ take k d \<and> cnt s' = cnt s + int (length d)"
begin

text \<open>One round: nothing is lost or made up, and the sink is given at most a buffer more than it took.\<close>

lemma round_cases:
  assumes "posn s p" "0 < b"
  obtains (stop) res k s' where "copy_round rd wr b n s = Some (Inl res, s')" "k \<le> length obj - p"
      "sent s' = sent s @ take k (drop p obj)" "cnt s + int k \<le> cnt s'" "cnt s' \<le> cnt s + int (k + b)"
      "\<And>m e. res = Ret (m, e) \<Longrightarrow> m = n + k \<and> (e = None \<longrightarrow> cnt s' = cnt s + int k)"
      "\<And>m. res = Ret (m, None) \<Longrightarrow> \<exists>d s1. rd b s = (Ret (d, Some IoEOF), s1) \<and> k = length d"
  | (more) d s' where "copy_round rd wr b n s = Some (Inr (n + length d), s')" "d \<noteq> []"
      "d = take (length d) (drop p obj)" "posn s' (p + length d)" "sent s' = sent s @ d" "cnt s' = cnt s + int (length d)"
proof -
  obtain q s1 where r: "rd b s = (q, s1)" by fastforce
  note keep = rd_keeps [OF assms(1) r]
  show thesis
  proof (cases q)
    case (Ret x)
    obtain d e where x: "x = (d, e)" by fastforce
    note rd = r [unfolded Ret x]
    note data = rd_data [OF assms(1) rd]
    show thesis
    proof (cases "d = []")
      case True
      then obtain e' where "e = Some e'" using rd_progress [OF assms(1), of b e s1] rd assms(2) by auto
      then show thesis
        using True rd keep by (intro stop [of "Ret (n, if e' = IoEOF then None else Some e')" s1 0])
          (auto simp: copy_round_def after_read_def split: if_splits)
    next
      case False
      obtain k e' s2 where w: "wr d s1 = Some ((k, e'), s2)" "posn s2 (p + length d)" "k \<le> length d"
          "k < length d \<longrightarrow> e' \<noteq> None" "sent s2 = sent s1 @ take k d" "cnt s2 = cnt s1 + int (length d)"
        using wr_ok [of s1 "p + length d" d] data by blast
      have tk: "take k d = take k (drop p obj)" using data w(3) by (metis min.absorb1 take_take)
      have le: "length d \<le> length obj - p" using data by (metis length_drop length_take min.cobounded1)
      have full: "e' = None \<Longrightarrow> k = length d" using w(3,4) by force
      consider (fails) y where "e' = Some y" | (ends) y where "e' = None" "e = Some y" | (goes_on) "e' = None" "e = None"
        by (cases e'; cases e) auto
      then show thesis
      proof cases
        case fails
        have "copy_round rd wr b n s = Some (Inl (Ret (n + k, e')), s2)" using False rd w(1) fails by (simp add: copy_round_def)
        then show thesis by (rule stop [where k = k]) (use w tk le keep data fails in auto)
      next
        case ends
        have "copy_round rd wr b n s = Some (Inl (Ret (n + k, if y = IoEOF then None else Some y)), s2)"
          using False rd w(1) full ends by (simp add: copy_round_def after_read_def)
        then show thesis by (rule stop [where k = k]) (use w tk le keep data full ends rd in \<open>auto split: if_splits\<close>)
      next
        case goes_on
        have "copy_round rd wr b n s = Some (Inr (n + length d), s2)"
          using False rd w(1) full goes_on by (simp add: copy_round_def after_read_def)
        then show thesis by (rule more) (use w tk keep data full goes_on False in auto)
      qed
    qed
  next
    case (Fail x)
    then show thesis using r keep by (intro stop [of "Fail x" s1 0]) (auto simp: copy_round_def)
  next
    case (Panic x)
    then show thesis using r keep by (intro stop [of "Panic x" s1 0]) (auto simp: copy_round_def)
  qed
qed

lemma copy_ends:
  assumes "posn s p" "0 < b"
  shows "\<exists>res s' k. copyBuffer rd wr b n s = Some (res, s') \<and> k \<le> length obj - p \<and>
    sent s' = sent s @ take k (drop p obj) \<and> cnt s + int k \<le> cnt s' \<and> cnt s' \<le> cnt s + int (k + b) \<and>
    (\<forall>m e. res = Ret (m, e) \<longrightarrow> m = n + k \<and> (e = None \<longrightarrow> cnt s' = cnt s + int k))"
  using assms
proof (induction "length obj - p" arbitrary: s p n rule: less_induct)
  case less
  from less.prems show ?case
  proof (cases rule: round_cases [where n = n])
    case (stop res k s')
    then show ?thesis by (subst copyBuffer.simps) (auto intro!: exI [of _ k])
  next
    case (more d s')
    have le: "p + length d \<le> length obj" "0 < length d" using posn_le [OF more(4)] more(2) by auto
    have "length obj - (p + length d) < length obj - p" using le by linarith
    from less.hyps [OF this more(4) less.prems(2), of "n + length d"]
    obtain res s'' k where ih: "copyBuffer rd wr b (n + length d) s' = Some (res, s'')" "k \<le> length obj - (p + length d)"
        "sent s'' = sent s' @ take k (drop (p + length d) obj)" "cnt s' + int k \<le> cnt s''" "cnt s'' \<le> cnt s' + int (k + b)"
        "\<forall>m e. res = Ret (m, e) \<longrightarrow> m = n + length d + k \<and> (e = None \<longrightarrow> cnt s'' = cnt s' + int k)"
      by blast
    have "d @ take k (drop (p + length d) obj) = take (length d + k) (drop p obj)"
      using more(3) by (metis drop_drop add.commute take_add)
    then have "sent s'' = sent s @ take (length d + k) (drop p obj)" using ih(3) more(5) by simp
    moreover have "copyBuffer rd wr b n s = Some (res, s'')" using more(1) ih(1) by (subst copyBuffer.simps) simp
    ultimately show ?thesis using ih(2,4-6) more(6) le by (intro exI [of _ "length d + k"] exI) auto
  qed
qed

lemma read_all_ends:
  assumes "posn s p" "\<And>n. 0 < room n"
  shows "\<exists>res s'. readAll rd room acc s = Some (res, s') \<and> sent s' = sent s \<and> cnt s' = cnt s \<and>
    (\<forall>x e. res = Ret (x, e) \<longrightarrow> (\<exists>q d e' n u. posn u q \<and> rd n u = (Ret (d, e'), s') \<and> posn s' (q + length d) \<and>
       x = acc @ take (q + length d - p) (drop p obj) \<and> p \<le> q \<and> (e = None \<longrightarrow> e' = Some IoEOF)))"
  using assms(1)
proof (induction "length obj - p" arbitrary: s p acc rule: less_induct)
  case less
  let ?n = "room (length acc)"
  obtain q s1 where r: "rd ?n s = (q, s1)" by fastforce
  note keep = rd_keeps [OF less.prems r]
  show ?case
  proof (cases "\<exists>d. q = Ret (d, None)")
    case True
    then obtain d where q: "q = Ret (d, None)" by blast
    note data = rd_data [OF less.prems r [unfolded q]]
    have ne: "d \<noteq> []" using rd_progress [OF less.prems _ assms(2)] r q by blast
    have le: "p + length d \<le> length obj" using data posn_le by blast
    then have "length obj - (p + length d) < length obj - p" using ne by (cases d) auto
    from less.hyps [OF this, of s1 "acc @ d"] data obtain res s' where ih:
        "readAll rd room (acc @ d) s1 = Some (res, s')" "sent s' = sent s1" "cnt s' = cnt s1"
        "\<And>x e. res = Ret (x, e) \<Longrightarrow> \<exists>q' d' e' n u. posn u q' \<and> rd n u = (Ret (d', e'), s') \<and> posn s' (q' + length d') \<and>
          x = (acc @ d) @ take (q' + length d' - (p + length d)) (drop (p + length d) obj) \<and> p + length d \<le> q' \<and> (e = None \<longrightarrow> e' = Some IoEOF)"
      by blast
    have glue: "d @ take (m - (p + length d)) (drop (p + length d) obj) = take (m - p) (drop p obj)" if "p + length d \<le> m" for m
    proof -
      have "take (length d) (drop p obj) @ take (m - (p + length d)) (drop (length d) (drop p obj)) =
          take (length d + (m - (p + length d))) (drop p obj)" by (simp add: take_add)
      moreover have "length d + (m - (p + length d)) = m - p" using that by linarith
      ultimately show ?thesis using data by (simp add: add.commute)
    qed
    have "readAll rd room acc s = Some (res, s')" using ih(1) r q by (subst readAll.simps) simp
    moreover have "\<exists>q' d' e' n u. posn u q' \<and> rd n u = (Ret (d', e'), s') \<and> posn s' (q' + length d') \<and>
          x = acc @ take (q' + length d' - p) (drop p obj) \<and> p \<le> q' \<and> (e = None \<longrightarrow> e' = Some IoEOF)" if res: "res = Ret (x, e)" for x e
    proof -
      obtain q' d' e' n u where w: "posn u q'" "rd n u = (Ret (d', e'), s')" "posn s' (q' + length d')"
          "x = (acc @ d) @ take (q' + length d' - (p + length d)) (drop (p + length d) obj)" "p + length d \<le> q'" "e = None \<longrightarrow> e' = Some IoEOF"
        using ih(4) [OF res] by blast
      have "x = acc @ take (q' + length d' - p) (drop p obj)" using w(4,5) glue [of "q' + length d'"] by simp
      then show ?thesis using w by (metis add_leD1)
    qed
    ultimately show ?thesis using ih(2,3) keep by auto
  next
    case False
    then consider (panics) "\<forall>x. q \<noteq> Ret x" | (ends) d e where "q = Ret (d, Some e)" by (cases q) auto
    then show ?thesis
    proof cases
      case panics
      then show ?thesis using r keep by (subst readAll.simps) (auto split: outcome.split)
    next
      case ends
      note data = rd_data [OF less.prems r [unfolded ends]]
      let ?e = "if e = IoEOF then None else Some e"
      have one: "posn s p \<and> rd ?n s = (Ret (d, Some e), s1) \<and> posn s1 (p + length d) \<and>
          acc @ d = acc @ take (p + length d - p) (drop p obj) \<and> p \<le> p \<and> (?e = None \<longrightarrow> Some e = Some IoEOF)"
        using r ends data less.prems by simp
      have "\<exists>q d' e' n u. posn u q \<and> rd n u = (Ret (d', e'), s1) \<and> posn s1 (q + length d') \<and>
          x = acc @ take (q + length d' - p) (drop p obj) \<and> p \<le> q \<and> (ea = None \<longrightarrow> e' = Some IoEOF)"
        if "Ret (acc @ d, ?e) = Ret (x, ea)" for x ea
      proof -
        have eq: "x = acc @ d" "ea = ?e" using that by simp_all
        show ?thesis unfolding eq by (rule exI, rule exI, rule exI, rule exI, rule exI, rule one)
      qed
      moreover have "readAll rd room acc s = Some (Ret (acc @ d, ?e), s1)" using r ends by (subst readAll.simps) simp
      ultimately show ?thesis using keep by blast
    qed
  qed
qed

end

text \<open>A source that reports the end of the file only at the end of the object.\<close>

locale whole_relay = relay +
  assumes rd_eof: "posn s p \<Longrightarrow> rd n s = (Ret (d, Some IoEOF), s') \<Longrightarrow> p + length d = length obj"
begin

lemma copy_whole:
  assumes "posn s p" "0 < b" "copyBuffer rd wr b n s = Some (Ret (m, None), s')"
  shows "sent s' = sent s @ drop p obj"
  using assms
proof (induction "length obj - p" arbitrary: s p n rule: less_induct)
  case less
  from less.prems(1,2) show ?case
  proof (cases rule: round_cases [where n = n])
    case (stop res k s1)
    have "Some (res, s1) = Some (Ret (m, None), s')"
      using less.prems(3) [unfolded copyBuffer.simps [of rd wr b n s]] stop(1) by simp
    then have eq: "res = Ret (m, None)" "s1 = s'" by simp_all
    obtain d x where d: "rd b s = (Ret (d, Some IoEOF), x)" "k = length d" using stop(7) [OF eq(1)] by blast
    have "take k (drop p obj) = drop p obj" using rd_eof [OF less.prems(1) d(1)] d(2) by simp
    then show ?thesis using stop(3) unfolding eq(2) by simp
  next
    case (more d s1)
    have le: "p + length d \<le> length obj" "0 < length d" using posn_le [OF more(4)] more(2) by auto
    have "copyBuffer rd wr b (n + length d) s1 = Some (Ret (m, None), s')"
      using less.prems(3) [unfolded copyBuffer.simps [of rd wr b n s]] more(1) by simp
    then have "sent s' = sent s1 @ drop (p + length d) obj"
      by (rule less.hyps [OF _ more(4) less.prems(2), rotated]) (use le in linarith)
    moreover have "d @ drop (p + length d) obj = drop p obj"
      using append_take_drop_id [of "length d" "drop p obj", folded more(3)] by (simp add: add.commute)
    ultimately show ?thesis using more(5) by simp
  qed
qed

lemma read_all_whole:
  assumes "posn s p" "\<And>n. 0 < room n"
  obtains res s' where "readAll rd room [] s = Some (res, s')" "sent s' = sent s" "cnt s' = cnt s"
    "\<And>x. res = Ret (x, None) \<Longrightarrow> x = drop p obj" "\<And>x e. res = Ret (x, e) \<Longrightarrow> \<exists>q. posn s' q"
proof -
  obtain res s' where a: "readAll rd room [] s = Some (res, s')" "sent s' = sent s" "cnt s' = cnt s"
      "\<forall>x e. res = Ret (x, e) \<longrightarrow> (\<exists>q d e' n u. posn u q \<and> rd n u = (Ret (d, e'), s') \<and> posn s' (q + length d) \<and>
       x = [] @ take (q + length d - p) (drop p obj) \<and> p \<le> q \<and> (e = None \<longrightarrow> e' = Some IoEOF))"
    using read_all_ends [where room = room and acc = "[]", OF assms] by blast
  have "x = drop p obj" if res: "res = Ret (x, None)" for x
  proof -
    obtain q d n u where u: "posn u q" "rd n u = (Ret (d, Some IoEOF), s')" "x = take (q + length d - p) (drop p obj)"
      using a(4) res by auto
    then show ?thesis using rd_eof [OF u(1,2)] by simp
  qed
  with a that show thesis by blast
qed

end

section \<open>The client's side\<close>

text \<open>The connection of the client as \<open>net/http\<close> gives it: a write says how many bytes were taken. The
  clock is the one of \<open>time.Since\<close>.\<close>

record 'w Conn =
  k_now :: "'w \<Rightarrow> int \<times> 'w"
  k_header :: "int \<Rightarrow> Header \<Rightarrow> 'w \<Rightarrow> 'w"
  k_write :: "string \<Rightarrow> 'w \<Rightarrow> (nat \<times> ioerr option) \<times> 'w"
  k_flush :: "'w \<Rightarrow> 'w"

text \<open>A \<open>Throttler\<close>; waiting may never return.\<close>

type_synonym 'w throttler = "int \<Rightarrow> 'w \<Rightarrow> 'w option"

definition RWI_write_to :: "'w Conn \<Rightarrow> string \<Rightarrow> RWI \<times> 'w \<Rightarrow> (nat \<times> ioerr option) \<times> RWI \<times> 'w" where
  "RWI_write_to K p s =
     (let (wi, w) = s;
          (now, w1) = (if wi_bytesWritten wi = 0 then k_now K w else (0, w));
          (res, w2) = k_write K p w1
      in (res, RWI_Write now p wi, w2))"

definition Throttled_write_to ::
  "'w throttler \<Rightarrow> 'w Conn \<Rightarrow> string \<Rightarrow> RWI \<times> 'w \<Rightarrow> ((nat \<times> ioerr option) \<times> RWI \<times> 'w) option" where
  "Throttled_write_to wait K p s =
     (case s of (wi, w) \<Rightarrow>
      case wait (int (length p)) w of
        None \<Rightarrow> None
      | Some w1 \<Rightarrow> Some (RWI_write_to K p (wi, w1)))"

text \<open>Hijacking goes to the writer below.\<close>

definition Throttled_Hijack :: "('w \<Rightarrow> 'conn outcome \<times> 'w) option \<Rightarrow> 'w \<Rightarrow> 'conn outcome \<times> 'w" where
  "Throttled_Hijack hijacker w = Hijack hijacker w"

text \<open>The writer of a request: throttled if there is a throttler; after a write it is flushed.\<close>

definition client_write ::
  "'w throttler option \<Rightarrow> 'w Conn \<Rightarrow> string \<Rightarrow> 'r \<times> RWI \<times> 'w \<Rightarrow> ((nat \<times> ioerr option) \<times> 'r \<times> RWI \<times> 'w) option" where
  "client_write th K p s =
     (case s of (r, wi, w) \<Rightarrow>
      case (case th of None \<Rightarrow> Some (RWI_write_to K p (wi, w)) | Some wait \<Rightarrow> Throttled_write_to wait K p (wi, w)) of
        None \<Rightarrow> None
      | Some (res, wi', w') \<Rightarrow> Some (res, r, RWI_Flush True wi', k_flush K w'))"

definition body_read ::
  "('b, 'w) BLib \<Rightarrow> nat \<Rightarrow> 'b RRC \<times> RWI \<times> 'w \<Rightarrow> (string \<times> ioerr option) outcome \<times> 'b RRC \<times> RWI \<times> 'w" where
  "body_read lib n s = (case s of (r, wi, w) \<Rightarrow> case Read lib n (r, w) of (q, r', w') \<Rightarrow> (q, r', wi, w'))"

text \<open>
  What streaming relies on. \<open>I\<close> is an invariant of the world, kept by every operation; \<open>sent\<close> is what
  the client's connection took. A body that has nothing to deliver says why; a write that takes
  less than it was given reports an error, as \<open>io.Writer\<close> demands; the throttler returns.
\<close>

definition same :: "('w \<Rightarrow> bool) \<Rightarrow> ('w \<Rightarrow> 'a) \<Rightarrow> 'w \<Rightarrow> 'w \<Rightarrow> bool" where
  "same I obs w w' \<longleftrightarrow> (I w \<longrightarrow> I w' \<and> obs w' = obs w)"

definition source_ok :: "('b, 'w) BLib \<Rightarrow> ('w \<Rightarrow> string) \<Rightarrow> ('w \<Rightarrow> bool) \<Rightarrow> bool" where
  "source_ok lib sent I \<longleftrightarrow>
     (\<forall>b n w. same I sent w (snd (b_read lib b n w))) \<and> (\<forall>b w. same I sent w (b_close lib b w)) \<and>
     (\<forall>off fh w. same I sent w (snd (snd (b_reconnect lib off fh w)))) \<and>
     (\<forall>b n w. I w \<longrightarrow> 0 < n \<longrightarrow> fst (fst (b_read lib b n w)) = [] \<longrightarrow> snd (fst (b_read lib b n w)) \<noteq> None)"

definition sink_ok ::
  "'w throttler option \<Rightarrow> 'w Conn \<Rightarrow> ('b \<Rightarrow> 'w \<Rightarrow> nat) \<Rightarrow> ('w \<Rightarrow> string) \<Rightarrow> ('w \<Rightarrow> bool) \<Rightarrow> bool" where
  "sink_ok th K pos sent I \<longleftrightarrow>
     (\<forall>w. same I (\<lambda>w. (sent w, \<lambda>b. pos b w)) w (snd (k_now K w))) \<and>
     (\<forall>w. same I (\<lambda>w. (sent w, \<lambda>b. pos b w)) w (k_flush K w)) \<and>
     (\<forall>st hdr w. same I (\<lambda>w. (sent w, \<lambda>b. pos b w)) w (k_header K st hdr w)) \<and>
     (\<forall>d w. I w \<longrightarrow> (case k_write K d w of ((k, e), w') \<Rightarrow> k \<le> length d \<and> (k < length d \<longrightarrow> e \<noteq> None) \<and>
        sent w' = sent w @ take k d \<and> (\<forall>b. pos b w' = pos b w) \<and> I w')) \<and>
     (\<forall>wait n w. th = Some wait \<longrightarrow> I w \<longrightarrow> (\<exists>w'. wait n w = Some w' \<and> same I (\<lambda>w. (sent w, \<lambda>b. pos b w)) w w'))"

definition relay_at ::
  "('b, 'w) BLib \<Rightarrow> 'w throttler option \<Rightarrow> 'w Conn \<Rightarrow> ('b \<Rightarrow> 'w \<Rightarrow> nat) \<Rightarrow> string \<Rightarrow> nat \<Rightarrow> ('w \<Rightarrow> string) \<Rightarrow> ('w \<Rightarrow> bool) \<Rightarrow>
   'b RRC \<times> RWI \<times> 'w \<Rightarrow> nat \<Rightarrow> bool" where
  "relay_at lib th K pos obj start sent I s p \<longleftrightarrow>
     source_ok lib sent I \<and> sink_ok th K pos sent I \<and>
     stream_at lib pos obj start (fst s, snd (snd s)) p \<and> \<not> r_closed (fst s) \<and> I (snd (snd s))"

lemma source_okD:
  assumes "source_ok lib sent I" "I w"
  shows "b_read lib b n w = (x, w') \<Longrightarrow> I w' \<and> sent w' = sent w"
    and "I (b_close lib b w) \<and> sent (b_close lib b w) = sent w"
    and "b_reconnect lib off fh w = (q, fh', w') \<Longrightarrow> I w' \<and> sent w' = sent w"
    and "b_read lib b n w = (([], e), w') \<Longrightarrow> 0 < n \<Longrightarrow> e \<noteq> None"
  using assms unfolding source_ok_def same_def by (metis fst_conv snd_conv)+

text \<open>The pods, the caches and the bodies have nothing to do with the client's connection, and keep \<open>I\<close>.\<close>

definition client_apart ::
  "'w SLib \<Rightarrow> ('b, 'w) HLib \<Rightarrow> ('b \<Rightarrow> nat \<Rightarrow> 'w \<Rightarrow> (string \<times> ioerr option) \<times> 'w) \<Rightarrow> ('w \<Rightarrow> string) \<Rightarrow> ('w \<Rightarrow> bool) \<Rightarrow> bool" where
  "client_apart e h rd sent I \<longleftrightarrow>
     (\<forall>s. env_keeps e h (\<lambda>w. I w \<and> sent w = s)) \<and> (\<forall>b n w. same I sent w (snd (rd b n w))) \<and>
     (\<forall>b n w. I w \<longrightarrow> 0 < n \<longrightarrow> fst (fst (rd b n w)) = [] \<longrightarrow> snd (fst (rd b n w)) \<noteq> None)"

lemma client_apart_source_ok:
  assumes "client_apart e h rd sent I"
  shows "source_ok (blib_of h rd (reconnectFn e h rc req st)) sent I"
proof -
  have env: "env_keeps e h (\<lambda>w. I w \<and> sent w = s)" for s using assms by (simp add: client_apart_def)
  have "same I sent w (h_Close h b w)" for b w
    using env_keepsD(7) [OF env [of "sent w"], of w b] by (simp add: same_def)
  moreover have "same I sent w (snd (snd (reconnectFn e h rc req st off fh w)))" for off fh w
    using reconnectFn_keeps [OF env [of "sent w"], of w rc req st off fh] by (simp add: same_def)
  ultimately show ?thesis using assms by (simp add: source_ok_def client_apart_def blib_of_def)
qed

text \<open>The courses a read may take.\<close>

lemma Read_cases:
  assumes "Read lib n (r, w) = (q, r', w')" "\<not> r_closed r"
  obtains (first) d err e where "b_read lib (r_body r) n w = ((d, err), w')" "q = Ret (d, e)" "r' = advance d r"
      "e = None \<Longrightarrow> d \<noteq> [] \<or> err = None"
      "e = Some IoEOF \<Longrightarrow> err = Some IoEOF \<or> d = [] \<and> 0 \<le> r_expected r \<and> r_expected r \<le> r_bytesRead r"
  | (broken) err w1 fh p where "b_read lib (r_body r) n w = (([], Some err), w1)"
      "b_reconnect lib (r_bytesRead r) (r_failedHost r) (b_close lib (r_body r) w1) = (p, fh, w')"
      "\<And>b. p \<noteq> Ret (NewBody b)" "r_closed r' = r_closed r" "r_expected r' = r_expected r" "\<And>d e. q = Ret (d, e) \<Longrightarrow> d = [] \<and> e \<noteq> None"
      "\<And>d. q = Ret (d, Some IoEOF) \<Longrightarrow> p = Ret UpstreamEOF"
  | (resumed) err w1 fh b w3 d e where "b_read lib (r_body r) n w = (([], Some err), w1)"
      "b_reconnect lib (r_bytesRead r) (r_failedHost r) (b_close lib (r_body r) w1) = (Ret (NewBody b), fh, w3)"
      "b_read lib b n w3 = ((d, e), w')" "q = Ret (d, e)"
      "r' = advance d (r\<lparr>r_failedHost := fh, r_retries := r_retries r + 1, r_body := b\<rparr>)"
proof -
  obtain d err w1 where rd: "b_read lib (r_body r) n w = ((d, err), w1)" by (metis prod.collapse)
  show thesis
  proof (cases "err = None \<or> err = Some IoEOF \<or> d \<noteq> [] \<or> \<not> isRetryableError err \<or>
      0 \<le> r_expected r \<and> r_expected r \<le> r_bytesRead r \<or> r_maxRetries r \<le> r_retries r")
    case True
    then have "\<exists>e. q = Ret (d, e) \<and> r' = advance d r \<and> w' = w1 \<and> (e = None \<longrightarrow> d \<noteq> [] \<or> err = None) \<and>
        (e = Some IoEOF \<longrightarrow> err = Some IoEOF \<or> d = [] \<and> 0 \<le> r_expected r \<and> r_expected r \<le> r_bytesRead r)"
      using assms rd by (auto simp: Read_def Let_def split: if_splits)
    then show thesis using rd first by blast
  next
    case False
    obtain p fh w3 where rec: "b_reconnect lib (r_bytesRead r) (r_failedHost r) (b_close lib (r_body r) w1) = (p, fh, w3)"
      by (metis prod.collapse)
    obtain x where err: "err = Some x" using False by auto
    show thesis
    proof (cases "\<exists>b. p = Ret (NewBody b)")
      case True
      then obtain b where b: "p = Ret (NewBody b)" by blast
      obtain d' e' w4 where rd': "b_read lib b n w3 = ((d', e'), w4)" by (metis prod.collapse)
      show thesis
        using assms rd rec False err b rd' by (intro resumed [of x w1 b fh w3 d' e']) (auto simp: Read_def Let_def)
    next
      case no: False
      have "w' = w3" "r_closed r' = r_closed r" "r_expected r' = r_expected r" "\<And>d e. q = Ret (d, e) \<Longrightarrow> d = [] \<and> e \<noteq> None"
        "\<And>d. q = Ret (d, Some IoEOF) \<Longrightarrow> p = Ret UpstreamEOF"
        using assms rd rec False err no by (auto simp: Read_def Let_def split: outcome.splits reconn.splits)
      then show thesis using rd rec False err no by (intro broken [of x w1 p fh]) auto
    qed
  qed
qed

text \<open>What a read does to the world and to the reader.\<close>

lemma Read_source:
  assumes "source_ok lib sent I" "I w" "Read lib n (r, w) = (q, r', w')" "\<not> r_closed r"
  shows "I w' \<and> sent w' = sent w \<and> \<not> r_closed r'"
  using assms(3,4)
proof (cases rule: Read_cases)
  case (first d err e)
  then show ?thesis using source_okD(1) [OF assms(1,2)] assms(4) by simp
next
  case (broken err w1 fh p)
  then show ?thesis using source_okD(1-3) [OF assms(1)] assms(2,4) by metis
next
  case (resumed err w1 fh b w3 d e)
  then have "I w' \<and> sent w' = sent w" using source_okD(1-3) [OF assms(1)] assms(2) by metis
  then show ?thesis using resumed(5) assms(4) by simp
qed

lemma Read_progress:
  assumes "source_ok lib sent I" "I w" "Read lib n (r, w) = (Ret ([], e), r', w')" "0 < n" "\<not> r_closed r"
  shows "e \<noteq> None"
  using assms(3,5)
proof (cases rule: Read_cases)
  case (first d err e')
  then show ?thesis using source_okD(4) [OF assms(1,2) _ assms(4)] by auto
next
  case (broken err w1 fh p)
  then show ?thesis by auto
next
  case (resumed err w1 fh b w3 d e')
  have "I w3" using resumed(1,2) source_okD(1-3) [OF assms(1)] assms(2) by metis
  then show ?thesis using source_okD(4) [OF assms(1) _ _ assms(4)] resumed(3,4) by auto
qed

lemma Read_read_data: "Read lib n s = (Ret (d, e), s') \<Longrightarrow> read_data lib n s = (d, s')"
  by (simp add: read_data_def)

lemma same_obs:
  "same I (\<lambda>w. (sent w, \<lambda>b. pos b w)) w w' \<longleftrightarrow> (I w \<longrightarrow> I w' \<and> sent w' = sent w \<and> (\<forall>b. pos b w' = pos b w))"
  by (auto simp: same_def fun_eq_iff)

lemma sink_okD:
  assumes "sink_ok th K pos sent I" "I w"
  shows "k_now K w = (now, w') \<Longrightarrow> I w' \<and> sent w' = sent w \<and> (\<forall>b. pos b w' = pos b w)"
    and "I (k_flush K w) \<and> sent (k_flush K w) = sent w \<and> (\<forall>b. pos b (k_flush K w) = pos b w)"
    and "I (k_header K st hdr w) \<and> sent (k_header K st hdr w) = sent w \<and> (\<forall>b. pos b (k_header K st hdr w) = pos b w)"
    and "k_write K d w = ((k, e), w') \<Longrightarrow> k \<le> length d \<and> (k < length d \<longrightarrow> e \<noteq> None) \<and>
        sent w' = sent w @ take k d \<and> (\<forall>b. pos b w' = pos b w) \<and> I w'"
    and "th = Some wait \<Longrightarrow> \<exists>w'. wait n w = Some w' \<and> I w' \<and> sent w' = sent w \<and> (\<forall>b. pos b w' = pos b w)"
proof -
  note ok = assms(1) [unfolded sink_ok_def same_obs] and I = assms(2)
  note rest = ok [THEN conjunct2, THEN conjunct2]
  show "k_now K w = (now, w') \<Longrightarrow> I w' \<and> sent w' = sent w \<and> (\<forall>b. pos b w' = pos b w)"
    using ok [THEN conjunct1, THEN spec, of w] I by simp
  show "I (k_flush K w) \<and> sent (k_flush K w) = sent w \<and> (\<forall>b. pos b (k_flush K w) = pos b w)"
    using ok [THEN conjunct2, THEN conjunct1, THEN spec, of w] I by simp
  show "I (k_header K st hdr w) \<and> sent (k_header K st hdr w) = sent w \<and> (\<forall>b. pos b (k_header K st hdr w) = pos b w)"
    using rest [THEN conjunct1] I by blast
  show "k_write K d w = ((k, e), w') \<Longrightarrow> k \<le> length d \<and> (k < length d \<longrightarrow> e \<noteq> None) \<and>
        sent w' = sent w @ take k d \<and> (\<forall>b. pos b w' = pos b w) \<and> I w'"
    using rest [THEN conjunct2, THEN conjunct1, rule_format, OF I, of d] by simp
  show "th = Some wait \<Longrightarrow> \<exists>w'. wait n w = Some w' \<and> I w' \<and> sent w' = sent w \<and> (\<forall>b. pos b w' = pos b w)"
    using rest [THEN conjunct2, THEN conjunct2] I by blast
qed

lemma RWI_write_to_ok:
  assumes "sink_ok th K pos sent I" "I w" "RWI_write_to K d (wi, w) = ((k, e), wi', w')"
  shows "k \<le> length d \<and> (k < length d \<longrightarrow> e \<noteq> None) \<and> sent w' = sent w @ take k d \<and> (\<forall>b. pos b w' = pos b w) \<and> I w' \<and>
    wi_bytesWritten wi' = wi_bytesWritten wi + int (length d)"
proof -
  obtain now w1 where n: "(if wi_bytesWritten wi = 0 then k_now K w else (0, w)) = (now, w1)" by fastforce
  have 1: "I w1 \<and> sent w1 = sent w \<and> (\<forall>b. pos b w1 = pos b w)"
    using n sink_okD(1) [OF assms(1,2)] assms(2) by (auto split: if_splits)
  have wr: "k_write K d w1 = ((k, e), w')" and wi: "wi' = RWI_Write now d wi"
    using assms(3) n by (auto simp: RWI_write_to_def split: prod.splits)
  from sink_okD(4) [OF assms(1) _ wr] 1 show ?thesis by (simp add: wi RWI_Write_def Let_def)
qed

lemma client_write_ok:
  assumes "sink_ok th K pos sent I" "I w"
  shows "\<exists>k e wi' w'. client_write th K d (r, wi, w) = Some ((k, e), r, wi', w') \<and> k \<le> length d \<and> (k < length d \<longrightarrow> e \<noteq> None) \<and>
    sent w' = sent w @ take k d \<and> (\<forall>b. pos b w' = pos b w) \<and> I w' \<and> wi_bytesWritten wi' = wi_bytesWritten wi + int (length d)"
proof -
  obtain w1 where 1: "(case th of None \<Rightarrow> Some w | Some wait \<Rightarrow> wait (int (length d)) w) = Some w1"
      "I w1 \<and> sent w1 = sent w \<and> (\<forall>b. pos b w1 = pos b w)"
    using sink_okD(5) [OF assms, of _ "int (length d)"] assms(2) by (cases th) auto
  obtain k e wi' w2 where 2: "RWI_write_to K d (wi, w1) = ((k, e), wi', w2)" by (metis prod.collapse)
  have "client_write th K d (r, wi, w) = Some ((k, e), r, RWI_Flush True wi', k_flush K w2)"
    using 1(1) 2 by (cases th) (auto simp: client_write_def Throttled_write_to_def split: option.splits)
  moreover note RWI_write_to_ok [OF assms(1) _ 2] sink_okD(2) [OF assms(1), of w2] 1(2)
  ultimately show ?thesis by (auto simp: RWI_Flush_def)
qed

lemma body_read_cases:
  assumes "body_read lib n (r, wi, w) = (q, s')"
  obtains r' w' where "s' = (r', wi, w')" "Read lib n (r, w) = (q, r', w')"
  using assms by (auto simp: body_read_def split: prod.splits)

lemma relay_atD:
  assumes "relay_at lib th K pos obj start sent I (r, wi, w) p"
  shows "source_ok lib sent I" "sink_ok th K pos sent I" "stream_at lib pos obj start (r, w) p" "\<not> r_closed r" "I w"
  using assms by (simp_all add: relay_at_def)

lemma relay_read:
  assumes "relay_at lib th K pos obj start sent I (r, wi, w) p" "body_read lib n (r, wi, w) = (q, s')"
  shows "sent (snd (snd s')) = sent w \<and> fst (snd s') = wi"
    and "q = Ret (d, e) \<Longrightarrow> length d \<le> n \<and> d = take (length d) (drop p obj) \<and> relay_at lib th K pos obj start sent I s' (p + length d)"
    and "q = Ret ([], e) \<Longrightarrow> 0 < n \<Longrightarrow> e \<noteq> None"
proof -
  note at = relay_atD [OF assms(1)]
  obtain r' w' where s': "s' = (r', wi, w')" and R: "Read lib n (r, w) = (q, r', w')"
    using assms(2) by (rule body_read_cases)
  have src: "I w' \<and> sent w' = sent w \<and> \<not> r_closed r'" by (rule Read_source [OF at(1,5) R at(4)])
  then show "sent (snd (snd s')) = sent w \<and> fst (snd s') = wi" by (simp add: s')
  show "e \<noteq> None" if "q = Ret ([], e)" "0 < n" using Read_progress [OF at(1,5) _ that(2) at(4)] R that(1) by blast
  show "length d \<le> n \<and> d = take (length d) (drop p obj) \<and> relay_at lib th K pos obj start sent I s' (p + length d)"
    if "q = Ret (d, e)"
  proof -
    note data = read_data_at [OF at(3) Read_read_data [OF R [unfolded that]]]
    have "relay_at lib th K pos obj start sent I s' (p + length d)" using src at data by (simp add: relay_at_def s')
    then show ?thesis using data by blast
  qed
qed

lemma relay_write:
  assumes "relay_at lib th K pos obj start sent I (r, wi, w) p"
  shows "\<exists>k e s'. client_write th K d (r, wi, w) = Some ((k, e), s') \<and> relay_at lib th K pos obj start sent I s' p \<and> k \<le> length d \<and>
      (k < length d \<longrightarrow> e \<noteq> None) \<and> sent (snd (snd s')) = sent w @ take k d \<and>
      wi_bytesWritten (fst (snd s')) = wi_bytesWritten wi + int (length d)"
proof -
  note at = relay_atD [OF assms]
  obtain k e wi' w' where w: "client_write th K d (r, wi, w) = Some ((k, e), r, wi', w')" "k \<le> length d" "k < length d \<longrightarrow> e \<noteq> None"
      "sent w' = sent w @ take k d" "\<forall>b. pos b w' = pos b w" "I w'" "wi_bytesWritten wi' = wi_bytesWritten wi + int (length d)"
    using client_write_ok [OF at(2,5), of d r wi] by metis
  have "relay_at lib th K pos obj start sent I (r, wi', w') p" using at w(5,6) by (simp add: relay_at_def stream_at_def)
  with w show ?thesis by (intro exI [of _ k] exI [of _ e] exI [of _ "(r, wi', w')"]) simp
qed

text \<open>The retrying reader and the writers of a request are a relay.\<close>

interpretation rs: relay "body_read lib" "client_write th K" "relay_at lib th K pos obj start sent I"
  "\<lambda>s. sent (snd (snd s))" "\<lambda>s. wi_bytesWritten (fst (snd s))" obj
  for lib :: "('b, 'w) BLib" and th K and pos :: "'b \<Rightarrow> 'w \<Rightarrow> nat" and obj start sent I
proof (standard, goal_cases)
  case (1 s p)
  then show ?case by (simp add: relay_at_def stream_at_def)
next
  case (2 s p n q s')
  obtain r wi w where "s = (r, wi, w)" by (rule prod_cases3)
  with 2 show ?case using relay_read(1) by (metis fst_conv snd_conv)
next
  case (3 s p n d e s')
  obtain r wi w where "s = (r, wi, w)" by (rule prod_cases3)
  with 3 show ?case using relay_read(2) by metis
next
  case (4 s p n e s')
  obtain r wi w where "s = (r, wi, w)" by (rule prod_cases3)
  with 4 show ?case using relay_read(3) by metis
next
  case (5 s p d)
  obtain r wi w where s: "s = (r, wi, w)" by (rule prod_cases3)
  show ?case using relay_write [OF 5 [unfolded s], of d] unfolding s by simp
qed

section \<open>The whole object\<close>

text \<open>An honest end of file: a body reports it at the end of the object, a reconnection finds the object
  delivered only there, and the announced length, if any, is the one from the start to the end.\<close>

definition eof_ok :: "('b, 'w) BLib \<Rightarrow> ('b \<Rightarrow> 'w \<Rightarrow> nat) \<Rightarrow> string \<Rightarrow> nat \<Rightarrow> bool" where
  "eof_ok lib pos obj start \<longleftrightarrow>
     (\<forall>b n w. snd (fst (b_read lib b n w)) = Some IoEOF \<longrightarrow> pos b w + length (fst (fst (b_read lib b n w))) = length obj) \<and>
     (\<forall>off fh w. fst (b_reconnect lib off fh w) = Ret UpstreamEOF \<longrightarrow> 0 \<le> off \<longrightarrow> start + nat off = length obj)"

definition whole_at ::
  "('b, 'w) BLib \<Rightarrow> 'w throttler option \<Rightarrow> 'w Conn \<Rightarrow> ('b \<Rightarrow> 'w \<Rightarrow> nat) \<Rightarrow> string \<Rightarrow> nat \<Rightarrow> ('w \<Rightarrow> string) \<Rightarrow> ('w \<Rightarrow> bool) \<Rightarrow>
   'b RRC \<times> RWI \<times> 'w \<Rightarrow> nat \<Rightarrow> bool" where
  "whole_at lib th K pos obj start sent I s p \<longleftrightarrow> relay_at lib th K pos obj start sent I s p \<and> eof_ok lib pos obj start \<and>
     (r_expected (fst s) < 0 \<or> r_expected (fst s) = int (length obj - start))"

lemma Read_expected:
  assumes "Read lib n (r, w) = (q, r', w')"
  shows "r_expected r' = r_expected r"
proof (cases "r_closed r")
  case True
  then show ?thesis using assms by (simp add: Read_def)
next
  case False
  from assms False show ?thesis by (cases rule: Read_cases) simp_all
qed

lemma whole_read:
  assumes "whole_at lib th K pos obj start sent I (r, wi, w) p" "body_read lib n (r, wi, w) = (Ret (d, e), s')"
  shows "whole_at lib th K pos obj start sent I s' (p + length d)" "e = Some IoEOF \<Longrightarrow> p + length d = length obj"
proof -
  have rel: "relay_at lib th K pos obj start sent I (r, wi, w) p" and eof: "eof_ok lib pos obj start"
      and ex: "r_expected r < 0 \<or> r_expected r = int (length obj - start)"
    using assms(1) by (simp_all add: whole_at_def)
  note at = relay_atD [OF rel]
  obtain r' w' where s': "s' = (r', wi, w')" and R: "Read lib n (r, w) = (Ret (d, e), r', w')"
    using assms(2) by (rule body_read_cases)
  show "whole_at lib th K pos obj start sent I s' (p + length d)"
    using relay_read(2) [OF rel assms(2) refl] eof ex Read_expected [OF R] by (simp add: whole_at_def s')
  have p: "pos (r_body r) w = p" "start \<le> p" "p \<le> length obj" "r_bytesRead r = int (p - start)" "upstream_ok lib pos obj start"
    using at(3) by (auto simp: stream_at_def)
  have e1: "pos b u + length d' = length obj" if "b_read lib b n u = ((d', Some IoEOF), u')" for b u d' u'
    using eof that unfolding eof_ok_def by (metis fst_conv snd_conv)
  show "p + length d = length obj" if "e = Some IoEOF"
    using R at(4)
  proof (cases rule: Read_cases)
    case (first d' err e')
    then consider "err = Some IoEOF" | "d = []" "0 \<le> r_expected r" "r_expected r \<le> r_bytesRead r"
      using \<open>e = Some IoEOF\<close> by auto
    then show ?thesis using first e1 p ex by cases auto
  next
    case (broken err w1 fh q)
    then have q: "q = Ret UpstreamEOF" "d = []" using \<open>e = Some IoEOF\<close> by auto
    have "start + nat (r_bytesRead r) = length obj"
      using eof broken(2) q(1) p(4) unfolding eof_ok_def by (metis fst_conv of_nat_0_le_iff)
    then show ?thesis using q(2) p by simp
  next
    case (resumed err w1 fh b w3 d' e')
    have "start + nat (r_bytesRead r) = p" using p by simp
    then have "pos b w3 = p" using reconnect_at(1) [OF p(5) resumed(2) refl] p(3,4) by simp
    then show ?thesis using e1 [of b w3 d'] resumed(3,4) \<open>e = Some IoEOF\<close> by simp
  qed
qed

interpretation ws: whole_relay "body_read lib" "client_write th K" "whole_at lib th K pos obj start sent I"
  "\<lambda>s. sent (snd (snd s))" "\<lambda>s. wi_bytesWritten (fst (snd s))" obj
  for lib :: "('b, 'w) BLib" and th K and pos :: "'b \<Rightarrow> 'w \<Rightarrow> nat" and obj start sent I
proof (standard, goal_cases)
  case (1 s p)
  then show ?case using rs.posn_le unfolding whole_at_def by blast
next
  case (2 s p n q s')
  then show ?case using rs.rd_keeps unfolding whole_at_def by blast
next
  case (3 s p n d e s')
  obtain r wi w where s: "s = (r, wi, w)" by (rule prod_cases3)
  have "relay_at lib th K pos obj start sent I s p" using 3(1) by (simp add: whole_at_def)
  from rs.rd_data [OF this 3(2)] whole_read(1) [OF 3 [unfolded s]] show ?case by blast
next
  case (4 s p n e s')
  have "relay_at lib th K pos obj start sent I s p" using 4(1) by (simp add: whole_at_def)
  from rs.rd_progress [OF this 4(2,3)] show ?case .
next
  case (5 s p d)
  obtain r wi w where s: "s = (r, wi, w)" by (rule prod_cases3)
  have rel: "relay_at lib th K pos obj start sent I s p" using 5 by (simp add: whole_at_def)
  have "fst s' = r" if "client_write th K d (r, wi, w) = Some (x, s')" for x s'
    using that by (auto simp: client_write_def split: option.splits prod.splits)
  then show ?case using rs.wr_ok [OF rel, of d] 5 unfolding whole_at_def s by (metis fst_conv)
next
  case (6 s p n d s')
  obtain r wi w where s: "s = (r, wi, w)" by (rule prod_cases3)
  show ?case by (rule whole_read(2) [OF 6 [unfolded s] refl])
qed

end
