(* ===== verification/Serving.thy ===== *)
theory Serving
  imports Streaming
begin

text \<open>
  Serving a request from the reverse proxy to the deferred functions of its handler
  (\<open>services/http_proxy.go\<close>, \<open>services/web.go\<close>): the request that goes to the pod, the answer and its
  status, the hook, which rewrites a manifest and otherwise changes headers only, the body streamed to the client, and what is
  left behind.
\<close>

section \<open>Serving a response\<close>

text \<open>How serving ends: with the response written, with an error of the copy, on which the library panics with
  \<open>http.ErrAbortHandler\<close>, with another panic, or with the 502 of the library's error handler.\<close>

datatype served = Completed nat | Aborted ioerr | Died panic | BadGateway gerror

text \<open>The default director of a proxy for a single host sets the host; the code's own follows it.\<close>

definition out_request :: "ReverseProxy \<Rightarrow> Request \<Rightarrow> Request" where
  "out_request rp req = director (req\<lparr>rq_URL := (rq_URL req)\<lparr>u_Host := rp_Host rp\<rparr>\<rparr>)"

fun ending :: "(nat \<times> ioerr option) outcome \<Rightarrow> served" where
  "ending (Ret (n, None)) = Completed n"
| "ending (Ret (n, Some e)) = Aborted e"
| "ending (Fail x) = BadGateway x"
| "ending (Panic k) = Died k"

text \<open>Copying the body and closing it; a panic leaves it open.\<close>

definition relay_body ::
  "('b, 'w) BLib \<Rightarrow> 'w throttler option \<Rightarrow> 'w Conn \<Rightarrow> nat \<Rightarrow> 'b RRC \<times> RWI \<times> 'w \<Rightarrow> (served \<times> RWI \<times> 'w) option" where
  "relay_body lib th K b s =
     (case copyBuffer (body_read lib) (client_write th K) b 0 s of
        None \<Rightarrow> None
      | Some (res, (r, wi, w)) \<Rightarrow>
          Some (ending res, wi, (case res of Panic k \<Rightarrow> w | _ \<Rightarrow> snd (RRC_Close lib (r, w)))))"

definition plain_read ::
  "('b \<Rightarrow> nat \<Rightarrow> 'w \<Rightarrow> (string \<times> ioerr option) \<times> 'w) \<Rightarrow> nat \<Rightarrow> 'b \<times> RWI \<times> 'w \<Rightarrow>
   (string \<times> ioerr option) outcome \<times> 'b \<times> RWI \<times> 'w" where
  "plain_read rd n s = (case s of (b, wi, w) \<Rightarrow> case rd b n w of (x, w') \<Rightarrow> (Ret x, b, wi, w'))"

definition plain_body ::
  "('b, 'w) HLib \<Rightarrow> ('b \<Rightarrow> nat \<Rightarrow> 'w \<Rightarrow> (string \<times> ioerr option) \<times> 'w) \<Rightarrow> 'w throttler option \<Rightarrow> 'w Conn \<Rightarrow> nat \<Rightarrow>
   'b option \<times> RWI \<times> 'w \<Rightarrow> (served \<times> RWI \<times> 'w) option" where
  "plain_body h rd th K b s =
     (case s of
        (None, wi, w) \<Rightarrow> Some (Died NilDeref, wi, w)
      | (Some body, wi, w) \<Rightarrow>
          (case copyBuffer (plain_read rd) (client_write th K) b 0 (body, wi, w) of
             None \<Rightarrow> None
           | Some (res, (body', wi', w')) \<Rightarrow> Some (ending res, wi', h_Close h body' w')))"

text \<open>A response whose body stays as it is: the hook changes headers only.\<close>

type_synonym ('b, 'w) wrapping = "('b RRC \<times> (int \<Rightarrow> string \<Rightarrow> 'w \<Rightarrow> 'b reconn outcome \<times> string \<times> 'w)) option"

definition media_response ::
  "('b, 'w) HLib \<Rightarrow> ('b \<Rightarrow> nat \<Rightarrow> 'w \<Rightarrow> (string \<times> ioerr option) \<times> 'w) \<Rightarrow> string list \<Rightarrow>
   (string \<times> string) option \<Rightarrow> 'w throttler option \<Rightarrow> 'w Conn \<Rightarrow> nat \<Rightarrow> 'b Response \<Rightarrow> ('b, 'w) wrapping \<Rightarrow>
   FileSizeCache option \<times> RWI \<times> 'w \<Rightarrow> (served \<times> FileSizeCache option \<times> RWI \<times> 'w) option" where
  "media_response h rd ks fk th K b resp wrapped s =
     (case s of (cache, wi, w1) \<Rightarrow>
      let resp' = resp\<lparr>rs_Header := delCORSHeaders (rs_Header resp)\<rparr>;
          cache' = captureFileSize ks fk resp' cache;
          wi1 = RWI_WriteHeader (rs_StatusCode resp') wi;
          w2 = k_header K (rs_StatusCode resp') (rs_Header resp') w1
      in case (case wrapped of
                 Some (r, rec) \<Rightarrow> relay_body (blib_of h rd rec) th K b (r, wi1, w2)
               | None \<Rightarrow> plain_body h rd th K b (rs_Body resp', wi1, w2)) of
           None \<Rightarrow> None
         | Some (o1, wi', w') \<Rightarrow> Some (o1, cache', wi', w'))"

text \<open>The hook rewrites the body exactly if a rule of the request applies to the path of the response.\<close>

definition manifest_rule :: "RulesContext option \<Rightarrow> string \<Rightarrow> bool" where
  "manifest_rule rules urlPath \<longleftrightarrow>
     (case rules of
        None \<Rightarrow> False
      | Some c \<Rightarrow> ru_Claims c \<noteq> None \<and> has_suffix urlPath ''.m3u8'' \<and> findGraceRule (ru_Claims c) \<noteq> None)"

lemma media_hook:
  assumes "\<not> manifest_rule rules urlPath"
  shows "modifyResponse fl ks urlPath fk rules resp cache =
    (Ret (resp\<lparr>rs_Header := delCORSHeaders (rs_Header resp)\<rparr>),
     captureFileSize ks fk (resp\<lparr>rs_Header := delCORSHeaders (rs_Header resp)\<rparr>) cache)"
  using assms
  by (auto simp: modifyResponse_def applyResponseRules_def rewriteManifestForGrace_def manifest_rule_def Let_def split: option.split)

text \<open>The body of a manifest is read to its end and closed. The result says in addition which body is left, as the library
  closes it again if the hook fails. A panic leaves it open.\<close>

fun read_result :: "(string \<times> ioerr option) outcome \<Rightarrow> string outcome" where
  "read_result (Ret (x, None)) = Ret x"
| "read_result (Ret (x, Some e)) = Fail (ErrMsg (err_msg e))"
| "read_result (Fail x) = Fail x"
| "read_result (Panic k) = Panic k"

definition read_manifest ::
  "('b, 'w) HLib \<Rightarrow> ('b \<Rightarrow> nat \<Rightarrow> 'w \<Rightarrow> (string \<times> ioerr option) \<times> 'w) \<Rightarrow> (nat \<Rightarrow> nat) \<Rightarrow> 'b \<Rightarrow> ('b, 'w) wrapping \<Rightarrow> RWI \<Rightarrow> 'w \<Rightarrow>
   (string outcome \<times> 'b \<times> 'w) option" where
  "read_manifest h rd room body wrapped wi w =
     (case wrapped of
        Some (r, rec) \<Rightarrow>
          (case readAll (body_read (blib_of h rd rec)) room [] (r, wi, w) of
             None \<Rightarrow> None
           | Some (res, (r', _, w')) \<Rightarrow>
               Some (read_result res, r_body r', case res of Panic k \<Rightarrow> w' | _ \<Rightarrow> h_Close h (r_body r') w'))
      | None \<Rightarrow>
          (case readAll (plain_read rd) room [] (body, wi, w) of
             None \<Rightarrow> None
           | Some (res, (body', _, w')) \<Rightarrow> Some (read_result res, body', h_Close h body' w')))"

text \<open>\<open>bytes.Reader\<close>: what is left of the rewritten manifest.\<close>

definition string_read :: "nat \<Rightarrow> string \<times> RWI \<times> 'w \<Rightarrow> (string \<times> ioerr option) outcome \<times> string \<times> RWI \<times> 'w" where
  "string_read n s =
     (case s of (x, wi, w) \<Rightarrow>
      if x = [] then (Ret ([], Some IoEOF), s) else (Ret (take n x, None), drop n x, wi, w))"

definition manifest_response ::
  "('b, 'w) HLib \<Rightarrow> ('b \<Rightarrow> nat \<Rightarrow> 'w \<Rightarrow> (string \<times> ioerr option) \<times> 'w) \<Rightarrow> 'f FloatLib \<Rightarrow> (nat \<Rightarrow> nat) \<Rightarrow> string list \<Rightarrow> string \<Rightarrow>
   RulesContext option \<Rightarrow> (string \<times> string) option \<Rightarrow> 'w throttler option \<Rightarrow> 'w Conn \<Rightarrow> nat \<Rightarrow> 'b Response \<Rightarrow> 'b \<Rightarrow>
   ('b, 'w) wrapping \<Rightarrow> FileSizeCache option \<times> RWI \<times> 'w \<Rightarrow> (served \<times> FileSizeCache option \<times> RWI \<times> 'w) option" where
  "manifest_response h rd fl room ks urlPath rules fk th K b resp body wrapped s =
     (case s of (cache, wi, w1) \<Rightarrow>
      case read_manifest h rd room body wrapped wi w1 of
        None \<Rightarrow> None
      | Some (content, body', w2) \<Rightarrow>
          (case modifyResponse fl ks urlPath fk rules
                  \<lparr>rs_StatusCode = rs_StatusCode resp, rs_Header = rs_Header resp, rs_ContentLength = rs_ContentLength resp,
                   rs_Body = Some content\<rparr> cache of
             (Fail x, cache') \<Rightarrow>
               Some (BadGateway x, cache', RWI_WriteHeader 502 wi, k_header K 502 fmempty (h_Close h body' w2))
           | (Panic k, cache') \<Rightarrow> Some (Died k, cache', wi, w2)
           | (Ret resp', cache') \<Rightarrow>
               (case rs_Body resp' of
                  Some (Ret x) \<Rightarrow>
                    (case copyBuffer string_read (client_write th K) b 0
                            (x, RWI_WriteHeader (rs_StatusCode resp') wi, k_header K (rs_StatusCode resp') (rs_Header resp') w2) of
                       None \<Rightarrow> None
                     | Some (res, (_, wi', w')) \<Rightarrow> Some (ending res, cache', wi', w'))
                | _ \<Rightarrow> Some (Died NilDeref, cache', wi, w2))))"

text \<open>The request that a response answers, \<open>Response.Request\<close>: after redirects it is the one of the last hop.\<close>

fun redirect_last :: "('b, 'w) HLib \<Rightarrow> Request \<Rightarrow> nat \<Rightarrow> Request \<Rightarrow> 'b Response \<Rightarrow> 'w \<Rightarrow> Request" where
  "redirect_last h req 0 cur resp w = cur"
| "redirect_last h req (Suc n) cur resp w =
     (if \<not> is_redirect resp then cur
      else let loc = header_get (rs_Header resp) ''Location'' in
      if loc = [] then cur
      else case rs_Body resp of
        None \<Rightarrow> cur
      | Some b \<Rightarrow>
          (let w1 = h_Close h b w in
           case hop_request h req loc of
             Ret newReq \<Rightarrow>
               (case h_external h newReq w1 of
                  (Ret resp', w2) \<Rightarrow> redirect_last h req n newReq resp' w2
                | _ \<Rightarrow> cur)
           | _ \<Rightarrow> cur))"

definition answered_request :: "('b, 'w) HLib \<Rightarrow> transport \<Rightarrow> Request \<Rightarrow> 'w \<Rightarrow> Request" where
  "answered_request h tr req w =
     (if tr = StubTransport then req
      else case h_transport h req w of
        (Ret resp, w1) \<Rightarrow> redirect_last h req 10 req resp w1
      | _ \<Rightarrow> req)"

text \<open>\<open>ReverseProxy.ServeHTTP\<close> with the code's transport, director and hook.\<close>

definition ServeHTTP ::
  "'w SLib \<Rightarrow> ('b, 'w) HLib \<Rightarrow> ('b \<Rightarrow> nat \<Rightarrow> 'w \<Rightarrow> (string \<times> ioerr option) \<times> 'w) \<Rightarrow> 'f FloatLib \<Rightarrow> (nat \<Rightarrow> nat) \<Rightarrow> string list \<Rightarrow>
   RulesContext option \<Rightarrow> (string \<times> string) option \<Rightarrow> RetryContext option \<Rightarrow> ReverseProxy \<Rightarrow> 'w throttler option \<Rightarrow> 'w Conn \<Rightarrow> nat \<Rightarrow>
   Request \<Rightarrow> FileSizeCache option \<times> RWI \<times> 'w \<Rightarrow> (served \<times> FileSizeCache option \<times> RWI \<times> 'w) option" where
  "ServeHTTP e h rd fl room ks rules fk rcx rp th K b req s =
     (case s of (cache, wi, w) \<Rightarrow>
      let outreq = out_request rp req in
      case proxy_RoundTrip e h rcx (rp_Transport rp) outreq w of
        (Fail x, w1) \<Rightarrow> Some (BadGateway x, cache, RWI_WriteHeader 502 wi, k_header K 502 fmempty w1)
      | (Panic k, w1) \<Rightarrow> Some (Died k, cache, wi, w1)
      | (Ret (resp, wrapped), w1) \<Rightarrow>
          (let urlPath = u_Path (rq_URL (answered_request h (rp_Transport rp) outreq w)) in
           case rs_Body resp of
             Some body \<Rightarrow>
               if manifest_rule rules urlPath
               then manifest_response h rd fl room ks urlPath rules fk th K b resp body wrapped (cache, wi, w1)
               else media_response h rd ks fk th K b resp wrapped (cache, wi, w1)
           | None \<Rightarrow> media_response h rd ks fk th K b resp wrapped (cache, wi, w1)))"

section \<open>Throttling\<close>

text \<open>The bucket of the session is a part of the world.\<close>

definition bucket_throttler ::
  "'w BwLib \<Rightarrow> Num \<Rightarrow> ('w \<Rightarrow> HybridBucket) \<Rightarrow> (HybridBucket \<Rightarrow> 'w \<Rightarrow> 'w) \<Rightarrow> 'w throttler" where
  "bucket_throttler bl N bget bput n w = map_option (\<lambda>(hb, w'). bput hb w') (Wait bl N n (bget w, w))"

definition bw_keeps :: "'w BwLib \<Rightarrow> ('w \<Rightarrow> bool) \<Rightarrow> bool" where
  "bw_keeps bl P \<longleftrightarrow> (\<forall>w. P w \<longrightarrow> P (snd (bw_now bl w)) \<and> (\<forall>d. P (bw_sleep bl d w)) \<and>
     (\<forall>k f. P (snd (bw_run bl k f w))) \<and> P (bw_probe bl w))"

lemma refill_keeps:
  assumes "bw_keeps bl P" "P w" "refillFromRedis bl N req (hb, w) = (g, hb', w')"
  shows "P w'"
proof -
  obtain now w1 where n: "bw_now bl w = (now, w1)" by fastforce
  have 1: "P w1" using assms(1,2) n unfolding bw_keeps_def by (metis snd_conv)
  obtain q w2 where r: "bw_run bl (hb_redisKey hb) (script_of N hb req now) w1 = (q, w2)" by fastforce
  have 2: "P w2" "P (bw_probe bl w2)" using assms(1) 1 r unfolding bw_keeps_def by (metis snd_conv)+
  show ?thesis using assms(3) 2 by (auto simp: refillFromRedis_def n r split: option.splits prod.splits if_splits)
qed

lemma degraded_keeps: "bw_keeps bl P \<Longrightarrow> P w \<Longrightarrow> P (degraded_sleep bl N hb need w)"
  by (simp add: degraded_sleep_def bw_keeps_def)

lemma wait_loop_keeps:
  assumes "wait_loop bl N need s = Some s'" "bw_keeps bl P" "P (snd s)"
  shows "P (snd s')"
proof -
  have "bw_keeps bl P \<longrightarrow> P (snd s) \<longrightarrow> P (snd s')"
  proof (rule wait_loop.raw_induct [where P = "\<lambda>bl N need s s'. bw_keeps bl P \<longrightarrow> P (snd s) \<longrightarrow> P (snd s')", OF _ assms(1)], goal_cases)
    case (1 wl bl N need s s')
    show ?case
    proof (intro impI)
      assume bw: "bw_keeps bl P" and "P (snd s)"
      obtain g hb w where r: "refillFromRedis bl N (batch_of (fst s) need) s = (g, hb, w)" by (metis prod.collapse)
      have w: "P w" using refill_keeps [OF bw, of "snd s" N _ "fst s"] r \<open>P (snd s)\<close> by simp
      let ?need = "if 0 < g then fsub N need g else need"
      have sl: "P (bw_sleep bl (poll_dur N hb ?need) w)" using bw w by (simp add: bw_keeps_def)
      show "P (snd s')"
        using 1(2) 1(1) [of bl N ?need "(hb, bw_sleep bl (poll_dur N hb ?need) w)" s'] bw sl w \<open>P (snd s)\<close> degraded_keeps [OF bw w]
        by (auto simp: r Let_def split: if_splits)
    qed
  qed
  then show ?thesis using assms(2,3) by blast
qed

lemma Wait_keeps:
  assumes "Wait bl N n (hb, w) = Some (hb', w')" "bw_keeps bl P" "P w"
  shows "P w'"
proof -
  obtain now w1 where n: "(if hb_redisOK hb \<and> hb_rc hb then (0, w) else bw_now bl w) = (now, w1)" by fastforce
  have 1: "P w1" using assms(2,3) n unfolding bw_keeps_def by (metis snd_conv)
  show ?thesis
    using assms(1,3) 1 n degraded_keeps [OF assms(2) 1] wait_loop_keeps [OF _ assms(2)]
    by (fastforce simp: Wait_def Let_def split: if_splits entered.splits prod.splits)
qed

text \<open>A session whose bucket is in order: Redis answers, nobody else uses the key and the rate is at least a byte
  per second.\<close>

definition bucket_ready ::
  "'w BwLib \<Rightarrow> string \<Rightarrow> ('w \<Rightarrow> int) \<Rightarrow> ('w \<Rightarrow> RHash option) \<Rightarrow> ('w \<Rightarrow> HybridBucket) \<Rightarrow> 'w \<Rightarrow> bool" where
  "bucket_ready bl key clk hash bget w \<longleftrightarrow> lone_waiter bl key clk hash \<and>
     hb_redisKey (bget w) = key \<and> hb_redisOK (bget w) \<and> hb_rc (bget w) \<and> 1 \<le> hb_rate (bget w) \<and> 1 \<le> hb_capacity (bget w) \<and>
     0 \<le> clk w \<and> written_before 0 (clk w) (hash w)"

lemma bucket_throttler_returns:
  assumes "exact N" "bucket_ready bl key clk hash bget w"
    and put: "\<And>hb w. bget (bput hb w) = hb" "\<And>hb w. clk (bput hb w) = clk w" "\<And>hb w. hash (bput hb w) = hash w"
    and P: "bw_keeps bl P" "P w" "\<And>hb w. P w \<Longrightarrow> P (bput hb w)"
  shows "\<exists>w'. bucket_throttler bl N bget bput n w = Some w' \<and> bucket_ready bl key clk hash bget w' \<and> P w'"
proof -
  note rdy = assms(2) [unfolded bucket_ready_def]
  have "settled clk hash (bget w) (Wait bl N n (bget w, w))"
    using rdy by (intro Wait_settles [OF assms(1)]) auto
  then obtain l w' where W: "Wait bl N n (bget w, w) = Some ((bget w)\<lparr>hb_local := l\<rparr>, w')"
      "0 \<le> clk w'" "written_before 0 (clk w') (hash w')" by (auto simp: settled_def)
  have "P w'" by (rule Wait_keeps [OF W(1) P(1,2)])
  then show ?thesis using W rdy put P(3) by (simp add: bucket_throttler_def bucket_ready_def)
qed

section \<open>What the client gets\<close>

lemma client_write_status:
  assumes "client_write th K d s = Some (x, s')"
  shows "wi_statusCode (fst (snd s')) = wi_statusCode (fst (snd s))"
  using assms
  by (auto simp: client_write_def Throttled_write_to_def RWI_write_to_def RWI_Write_def RWI_Flush_def Let_def
      split: option.splits prod.splits if_splits)

lemma copy_status:
  assumes "copyBuffer (body_read lib) (client_write th K) b n s = Some (res, s')"
  shows "wi_statusCode (fst (snd s')) = wi_statusCode (fst (snd s))"
  using assms
proof (rule copyBuffer_inv [where P = "\<lambda>s'. wi_statusCode (fst (snd s')) = wi_statusCode (fst (snd s))"])
  show "wi_statusCode (fst (snd u')) = wi_statusCode (fst (snd s))"
    if "body_read lib n u = (q, u')" "wi_statusCode (fst (snd u)) = wi_statusCode (fst (snd s))" for n u q u'
    using that by (cases u) (auto elim!: body_read_cases)
qed (simp_all add: client_write_status)

lemma copy_keeps:
  assumes "copyBuffer (body_read lib) (client_write th K) b n s = Some (res, s')" "source_ok lib sent I" "sink_ok th K pos sent I"
    and "I (snd (snd s))" "\<not> r_closed (fst s)"
  shows "I (snd (snd s'))"
proof -
  have "I (snd (snd s')) \<and> \<not> r_closed (fst s')"
    using assms(1)
  proof (rule copyBuffer_inv [where P = "\<lambda>s. I (snd (snd s)) \<and> \<not> r_closed (fst s)"])
    show "I (snd (snd u')) \<and> \<not> r_closed (fst u')"
      if "body_read lib n u = (q, u')" "I (snd (snd u)) \<and> \<not> r_closed (fst u)" for n u q u'
      using that by (cases u) (auto elim!: body_read_cases dest: Read_source [OF assms(2)])
    show "I (snd (snd u')) \<and> \<not> r_closed (fst u')"
      if "client_write th K d u = Some (x, u')" "I (snd (snd u)) \<and> \<not> r_closed (fst u)" for d u x u'
    proof -
      obtain r wi w where u: "u = (r, wi, w)" by (rule prod_cases3)
      show ?thesis using client_write_ok [OF assms(3), of w d r wi] that by (auto simp: u)
    qed
  qed (use assms(4,5) in simp)
  then show ?thesis by simp
qed

lemma relay_body_delivers:
  assumes "relay_at lib th K pos obj start sent I (r, wi, w) start" "0 < b"
  shows "\<exists>o1 wi' w' k. relay_body lib th K b (r, wi, w) = Some (o1, wi', w') \<and> k \<le> length obj - start \<and>
    sent w' = sent w @ take k (drop start obj) \<and> wi_statusCode wi' = wi_statusCode wi \<and>
    wi_bytesWritten wi + int k \<le> wi_bytesWritten wi' \<and> wi_bytesWritten wi' \<le> wi_bytesWritten wi + int (k + b) \<and>
    (\<forall>m. o1 = Completed m \<longrightarrow> m = k \<and> wi_bytesWritten wi' = wi_bytesWritten wi + int k \<and>
      (whole_at lib th K pos obj start sent I (r, wi, w) start \<longrightarrow> k = length obj - start))"
proof -
  note at = relay_atD [OF assms(1)]
  obtain res s' k where c: "copyBuffer (body_read lib) (client_write th K) b 0 (r, wi, w) = Some (res, s')"
      "k \<le> length obj - start" "sent (snd (snd s')) = sent w @ take k (drop start obj)"
      "wi_bytesWritten wi + int k \<le> wi_bytesWritten (fst (snd s'))" "wi_bytesWritten (fst (snd s')) \<le> wi_bytesWritten wi + int (k + b)"
      "\<forall>m e. res = Ret (m, e) \<longrightarrow> m = k \<and> (e = None \<longrightarrow> wi_bytesWritten (fst (snd s')) = wi_bytesWritten wi + int k)"
    using rs.copy_ends [OF assms, of 0] by auto
  obtain r' wi' w' where s': "s' = (r', wi', w')" by (rule prod_cases3)
  have "I w'" using copy_keeps [OF c(1) at(1,2)] at(4,5) by (simp add: s')
  then have cl: "sent (b_close lib (r_body r') w') = sent w'" using source_okD(2) [OF at(1)] by simp
  have whole: "k = length obj - start" if "whole_at lib th K pos obj start sent I (r, wi, w) start" "res = Ret (m, None)" for m
  proof -
    have "sent w' = sent w @ drop start obj" using ws.copy_whole [OF that(1) assms(2) c(1) [unfolded that(2) s']] by simp
    then have "take k (drop start obj) = drop start obj" using c(3) by (simp add: s')
    then show ?thesis using c(2) by (metis length_drop length_take min.absorb2)
  qed
  have "ending res = Completed m \<longleftrightarrow> res = Ret (m, None)" for m by (cases res rule: ending.cases) auto
  then show ?thesis
    using c copy_status [OF c(1)] cl whole by (auto simp: relay_body_def s' RRC_Close_def split: outcome.split)
qed

text \<open>C1: Serving a media request ends and the client gets what it asked for: through the retrying transport, the
  copy loop and the writers, throttled or not, the client is sent a contiguous piece of the object
  from the start of the response (byte 0 for a 200, the byte asked for with an open range), with the status of
  the upstream; the interceptor's count is at most one buffer above what the client's connection took, and exact
  if the response is completed. If the ends of file are honest, a completed response is the whole rest of the object.\<close>

theorem media_delivered:
  assumes "upstream_contract e h rd pos obj" "client_apart e h rd sent I" "sink_ok th K pos sent I"
    and "rp_Transport rp = RetryTransport" "0 < b" "I w1" "sent w1 = []"
    and "proxy_RoundTrip e h (Some c) RetryTransport (out_request rp req) w = (Ret (resp, Some (r, rec)), w1)"
    and "\<not> manifest_rule rules (u_Path (rq_URL (answered_request h RetryTransport (out_request rp req) w)))"
  shows "\<exists>o1 cache' wi' w' start k. ServeHTTP e h rd fl room ks rules fk (Some c) rp th K b req (cache, wi, w) = Some (o1, cache', wi', w') \<and>
    sent w' = take k (drop start obj) \<and> k \<le> length obj - start \<and>
    (rs_StatusCode resp = 200 \<longrightarrow> start = 0) \<and>
    (\<forall>n. rs_StatusCode resp = 206 \<and> header_get (rq_Header (out_request rp req)) ''Range'' = range_from (int n) \<longrightarrow> start = n) \<and>
    wi_statusCode wi' = rs_StatusCode resp \<and>
    wi_bytesWritten wi + int k \<le> wi_bytesWritten wi' \<and> wi_bytesWritten wi' \<le> wi_bytesWritten wi + int (k + b) \<and>
    (\<forall>m. o1 = Completed m \<longrightarrow> m = k \<and> wi_bytesWritten wi' = wi_bytesWritten wi + int k \<and>
      (eof_ok (blib_of h rd rec) pos obj start \<and> (rs_ContentLength resp < 0 \<or> rs_ContentLength resp = int (length obj - start)) \<longrightarrow>
        sent w' = drop start obj))"
proof -
  have "retry_RoundTrip e h (redirect_RoundTrip h) (Some c) (out_request rp req) w = (Ret (resp, Some (r, rec)), w1)"
    using assms(8) by (simp add: proxy_RoundTrip_def)
  with assms(1) show ?thesis
  proof (rule wrapped_stream)
    fix start
    let ?lib = "blib_of h rd rec" and ?wi = "RWI_WriteHeader (rs_StatusCode resp) wi"
    let ?w2 = "k_header K (rs_StatusCode resp) (delCORSHeaders (rs_Header resp)) w1"
    assume st: "stream_at ?lib pos obj start (r, w1) start" "\<not> r_closed r" "range_ok (out_request rp req) resp start"
      "r_expected r = rs_ContentLength resp" "rec = reconnectFn e h c (out_request rp req) (int start)"
    have src: "source_ok ?lib sent I" unfolding st(5) by (rule client_apart_source_ok [OF assms(2)])
    have hd: "I ?w2" "sent ?w2 = []" "\<And>b. pos b ?w2 = pos b w1"
      using sink_okD(3) [OF assms(3,6)] assms(7) by simp_all
    have at: "relay_at ?lib th K pos obj start sent I (r, ?wi, ?w2) start"
      using st(1,2) src assms(3) hd by (simp add: relay_at_def stream_at_def)
    have wi: "wi_statusCode ?wi = rs_StatusCode resp" "wi_bytesWritten ?wi = wi_bytesWritten wi"
      by (simp_all add: RWI_WriteHeader_def)
    obtain o1 wi' w' k where d: "relay_body ?lib th K b (r, ?wi, ?w2) = Some (o1, wi', w')" "k \<le> length obj - start"
        "sent w' = take k (drop start obj)" "wi_statusCode wi' = rs_StatusCode resp"
        "wi_bytesWritten wi + int k \<le> wi_bytesWritten wi'" "wi_bytesWritten wi' \<le> wi_bytesWritten wi + int (k + b)"
        "\<And>m. o1 = Completed m \<Longrightarrow> m = k \<and> wi_bytesWritten wi' = wi_bytesWritten wi + int k \<and>
          (whole_at ?lib th K pos obj start sent I (r, ?wi, ?w2) start \<longrightarrow> k = length obj - start)"
      using relay_body_delivers [OF at assms(5)] unfolding wi hd(2) append_Nil by blast
    have "sent w' = drop start obj" if "o1 = Completed m" "eof_ok ?lib pos obj start"
        "rs_ContentLength resp < 0 \<or> rs_ContentLength resp = int (length obj - start)" for m
      using d(3) d(7) [OF that(1)] at that(2,3) st(4) by (simp add: whole_at_def)
    moreover have "ServeHTTP e h rd fl room ks rules fk (Some c) rp th K b req (cache, wi, w) =
        Some (o1, captureFileSize ks fk (resp\<lparr>rs_Header := delCORSHeaders (rs_Header resp)\<rparr>) cache, wi', w')"
      using assms(8,9) d(1) by (simp add: ServeHTTP_def media_response_def assms(4) Let_def split: option.split)
    ultimately show ?thesis
      using d(2-7) st(3) unfolding range_ok_def by blast
  qed
qed

text \<open>A client of the two pods, whose connection takes all it is given, throttled by the bucket of its session.\<close>

type_synonym client = "string \<times> HybridBucket \<times> Sim"

definition on_client :: "(client \<Rightarrow> client) \<Rightarrow> client pods \<Rightarrow> client pods" where
  "on_client f w = (case w of (ig, k, pr, x) \<Rightarrow> (ig, k, pr, f x))"

definition the_client :: "client pods \<Rightarrow> client" where
  "the_client w = (case w of (_, _, _, x) \<Rightarrow> x)"

definition taking :: "(client pods) Conn" where
  "taking = \<lparr>k_now = (\<lambda>w. (0, w)), k_header = (\<lambda>st hdr w. w),
     k_write = (\<lambda>d w. ((length d, None), on_client (\<lambda>(x, y). (x @ d, y)) w)), k_flush = (\<lambda>w. w)\<rparr>"

abbreviation taken :: "client pods \<Rightarrow> string" where "taken w \<equiv> fst (the_client w)"

abbreviation clock_of :: "client pods \<Rightarrow> int" where "clock_of w \<equiv> sim_clock (snd (snd (the_client w)))"

abbreviation hash_of :: "client pods \<Rightarrow> RHash option" where "hash_of w \<equiv> sim_hash (snd (snd (the_client w)))"

abbreviation bucket_of :: "client pods \<Rightarrow> HybridBucket" where "bucket_of w \<equiv> fst (snd (the_client w))"

abbreviation put_bucket :: "HybridBucket \<Rightarrow> client pods \<Rightarrow> client pods" where
  "put_bucket hb w \<equiv> on_client (\<lambda>(x, _, s). (x, hb, s)) w"

definition on_sim :: "(Sim \<Rightarrow> Sim) \<Rightarrow> client pods \<Rightarrow> client pods" where
  "on_sim f = on_client (\<lambda>(x, hb, s). (x, hb, f s))"

definition client_bw :: "(client pods) BwLib" where
  "client_bw = \<lparr>bw_now = (\<lambda>w. (clock_of w, w)), bw_sleep = (\<lambda>d. on_sim (\<lambda>s. s\<lparr>sim_clock := sim_clock s + d\<rparr>)),
     bw_run = (\<lambda>key f w. (Some (fst (f (hash_of w))), on_sim (\<lambda>s. s\<lparr>sim_hash := Some (snd (f (sim_hash s)))\<rparr>) w)),
     bw_probe = (\<lambda>w. w)\<rparr>"

abbreviation client_throttler :: "(client pods) throttler" where
  "client_throttler \<equiv> bucket_throttler client_bw ideal bucket_of put_bucket"

abbreviation client_ready :: "client pods \<Rightarrow> bool" where
  "client_ready \<equiv> bucket_ready client_bw ''bw:limit:s1'' clock_of hash_of bucket_of"

definition pods_proxy :: ReverseProxy where
  "pods_proxy = \<lparr>rp_Host = ''10.1:80'', rp_Transport = RetryTransport\<rparr>"

lemma on_client_simps [simp]:
  "the_client (on_client f w) = f (the_client w)" "pods_pos b (on_client f w) = pods_pos b w"
  by (simp_all add: on_client_def the_client_def pods_pos_def split_beta)

lemma client_lone: "lone_waiter client_bw key clock_of hash_of"
  by (simp add: lone_waiter_def client_bw_def on_sim_def split_beta)

lemma client_bw_keeps: "bw_keeps client_bw (\<lambda>w. taken w = s \<and> (\<forall>b. pods_pos b w = p b))"
  by (simp add: bw_keeps_def client_bw_def on_sim_def split_beta)

lemma client_throttler_ok:
  assumes "client_ready w"
  shows "\<exists>w'. client_throttler n w = Some w' \<and> client_ready w' \<and> taken w' = taken w \<and> (\<forall>b. pods_pos b w' = pods_pos b w)"
proof -
  have "\<exists>w'. client_throttler n w = Some w' \<and> client_ready w' \<and> (taken w' = taken w \<and> (\<forall>b. pods_pos b w' = pods_pos b w))"
    by (rule bucket_throttler_returns [OF exact_ideal assms _ _ _ client_bw_keeps]) (simp_all add: split_beta)
  then show ?thesis by blast
qed

lemma taking_ok: "sink_ok (Some client_throttler) taking pods_pos taken client_ready"
  using client_throttler_ok
  by (auto simp: sink_ok_def same_obs taking_def split_beta bucket_ready_def)

lemma pods_apart: "client_apart pods_slib pods_hlib pods_read taken client_ready"
proof -
  have "the_client (snd (pods_transport req w)) = the_client w" for req w
    by (cases w) (auto simp: pods_transport_def the_client_def split: option.split)
  moreover have "the_client (snd (pods_read b n w)) = the_client w" for b n w
    by (cases w; cases b) (auto simp: pods_read_def the_client_def)
  moreover have "the_client (ig, snd w) = the_client w" for ig w by (cases w) (simp add: the_client_def)
  moreover have "0 < n \<Longrightarrow> fst (fst (pods_read b n w)) = [] \<Longrightarrow> \<exists>y. snd (fst (pods_read b n w)) = Some y" for b n w
    by (cases w; cases b) (auto simp: pods_read_def split: if_splits)
  ultimately show ?thesis
    by (auto simp: client_apart_def env_keeps_def pods_slib_def pods_hlib_def same_def bucket_ready_def)
qed

definition start_client :: client where
  "start_client = ([], NewHybridBucket 8 8 True ''s1'' 0, \<lparr>sim_clock = 0, sim_hash = None\<rparr>)"

lemma pods_served:
  "proxy_RoundTrip pods_slib pods_hlib (Some demo_rc) RetryTransport (out_request pods_proxy open_request) ([], 0, [], start_client) =
    (Ret (pods_response, Some (pods_reader, reconnectFn pods_slib pods_hlib demo_rc open_request 1)), ([], 1, [], start_client))"
proof -
  have "out_request pods_proxy open_request = open_request"
    by (simp add: out_request_def director_def open_request_def sample_request_def pods_proxy_def has_suffix_def)
  then show ?thesis by (simp add: proxy_RoundTrip_def pods_opened)
qed

theorem media_delivered_witness:
  "\<exists>o1 cache' wi' w' k. ServeHTTP pods_slib pods_hlib pods_read int_floats (\<lambda>n. 512) [] None None (Some demo_rc) pods_proxy (Some client_throttler) taking 32768
      open_request (None, NewResponseWriterInterceptor [] 0, ([], 0, [], start_client)) = Some (o1, cache', wi', w') \<and>
    taken w' = take k (drop 1 demo_obj) \<and> wi_statusCode wi' = 206"
proof -
  have no_rule: "\<not> manifest_rule None p" for p by (simp add: manifest_rule_def)
  have "header_get (rq_Header (out_request pods_proxy open_request)) ''Range'' = range_from (int 1)" by code_simp
  moreover have "rs_StatusCode pods_response = 206" by (simp add: pods_response_def)
  moreover have "rp_Transport pods_proxy = RetryTransport" "taken ([], 1, [], start_client) = []" "client_ready ([], 1, [], start_client)"
    using client_lone
    by (simp_all add: pods_proxy_def the_client_def start_client_def bucket_ready_def NewHybridBucket_def written_before_def)
  ultimately show ?thesis
    using media_delivered [OF pods_contract pods_apart taking_ok _ _ _ _ pods_served no_rule, of 32768 int_floats "\<lambda>n. 512" "[]" None None
        "NewResponseWriterInterceptor [] 0"]
    by (simp only: simp_thms) (metis zero_less_numeral)
qed

section \<open>Bounded ranges\<close>

text \<open>
  The connection of \<open>net/http\<close> when the response declares its length, as one to a bounded range does: a write that would
  exceed it is refused as a whole.
\<close>

record SrvConn =
  cn_declared :: "int option"
  cn_count :: int
  cn_out :: string

definition ErrContentLength :: ioerr where
  "ErrContentLength = Plain ''http: wrote more than the declared Content-Length''"

definition server_write :: "string \<Rightarrow> SrvConn \<Rightarrow> (nat \<times> ioerr option) \<times> SrvConn" where
  "server_write p c =
     (let c' = c\<lparr>cn_count := cn_count c + int (length p)\<rparr> in
      if (case cn_declared c of Some l \<Rightarrow> l < cn_count c' | None \<Rightarrow> False) then ((0, Some ErrContentLength), c')
      else ((length p, None), c'\<lparr>cn_out := cn_out c @ p\<rparr>))"

text \<open>The two pods of before with an object of any length, which answer a range with an end by the bytes up to it and a range
  without one by the rest of the object. A body is an identity and the range it delivers; the first body that is
  opened breaks after \<open>k\<close> bytes. The connection learns the declared length from the header.\<close>

type_synonym range_body = "nat \<times> nat \<times> nat"

definition range_read :: "string \<Rightarrow> nat \<Rightarrow> range_body \<Rightarrow> nat \<Rightarrow> SrvConn pods \<Rightarrow> (string \<times> ioerr option) \<times> SrvConn pods" where
  "range_read obj k body n w =
     (case (body, w) of ((i, a, z), (ig, j, pr, c)) \<Rightarrow>
      let p = a + progress pr i; stop = (if i = 0 then min z (a + k) else z); d = take (min n (stop - p)) (drop p obj) in
      if p < stop then ((d, None), (ig, j, (i, progress pr i + length d) # pr, c))
      else (([], Some (if stop < z then Errno ECONNRESET else IoEOF)), w))"

definition range_transport :: "string \<Rightarrow> (range_body, SrvConn pods) RoundTripper" where
  "range_transport obj req w =
     (case (w, parseRange (header_get (rq_Header req) ''Range'')) of ((ig, j, pr, c), (s, e, hasEnd, ok)) \<Rightarrow>
      if ok \<and> 0 \<le> s \<and> s < int (length obj) then
        (let a = nat s; z = (if hasEnd then min (length obj) (Suc (nat e)) else length obj) in
         (Ret \<lparr>rs_StatusCode = 206,
            rs_Header = header_set ''Content-Range'' (''bytes '' @ show_nat a @ ''-'' @ show_nat (z - 1) @ ''/'' @ show_nat (length obj))
              (header_set ''Content-Length'' (show_nat (z - a)) fmempty),
            rs_ContentLength = int (z - a), rs_Body = Some (j, a, z)\<rparr>, (ig, Suc j, pr, c)))
      else (Fail (ErrMsg ''unreachable''), w))"

definition range_hlib :: "string \<Rightarrow> (range_body, SrvConn pods) HLib" where
  "range_hlib obj = \<lparr>h_transport = range_transport obj, h_external = (\<lambda>req w. (Fail (ErrMsg ''unreachable''), w)),
     h_NewRequest = (\<lambda>m u. Ret \<lparr>rq_Method = m, rq_URL = \<lparr>u_Path = ''/f'', u_RawQuery = [], u_Host = ''10.2:80''\<rparr>,
       rq_Header = fmempty\<rparr>),
     h_Close = (\<lambda>b w. w), h_empty_body = (0, 0, 0)\<rparr>"

definition on_conn :: "(SrvConn \<Rightarrow> SrvConn) \<Rightarrow> SrvConn pods \<Rightarrow> SrvConn pods" where
  "on_conn f w = (case w of (ig, j, pr, c) \<Rightarrow> (ig, j, pr, f c))"

definition range_conn :: "(SrvConn pods) Conn" where
  "range_conn = \<lparr>k_now = (\<lambda>w. (0, w)),
     k_header = (\<lambda>st hdr. on_conn (\<lambda>c. c\<lparr>cn_declared := parse_int 10 (header_get hdr ''Content-Length'')\<rparr>)),
     k_write = (\<lambda>d (ig, j, pr, c). case server_write d c of (res, c') \<Rightarrow> (res, (ig, j, pr, c'))), k_flush = (\<lambda>w. w)\<rparr>"

definition range_request :: "nat \<Rightarrow> nat \<Rightarrow> Request" where
  "range_request start m =
     sample_request\<lparr>rq_Header := header_set ''Range'' (''bytes='' @ show_nat start @ ''-'' @ show_nat (start + m - 1)) fmempty\<rparr>"

definition range_reader :: "nat \<Rightarrow> nat \<Rightarrow> range_body RRC" where
  "range_reader start m = \<lparr>r_body = (0, start, start + m), r_bytesRead = 0, r_expected = int m, r_maxRetries = 3, r_retries = 0,
     r_closed = False, r_failedHost = ''10.1:80''\<rparr>"

abbreviation range_rec :: "string \<Rightarrow> nat \<Rightarrow> nat \<Rightarrow> int \<Rightarrow> string \<Rightarrow> SrvConn pods \<Rightarrow> range_body reconn outcome \<times> string \<times> SrvConn pods" where
  "range_rec obj start m \<equiv> reconnectFn pods_slib (range_hlib obj) demo_rc (range_request start m) (int start)"

abbreviation range_blib :: "string \<Rightarrow> nat \<Rightarrow> nat \<Rightarrow> nat \<Rightarrow> (range_body, SrvConn pods) BLib" where
  "range_blib obj k start m \<equiv> blib_of (range_hlib obj) (range_read obj k) (range_rec obj start m)"

lemma range_keys:
  "canonical_key ''Range'' = ''Range''" "canonical_key ''Content-Range'' = ''Content-Range''"
  "canonical_key ''Content-Length'' = ''Content-Length''"
  "canonical_key ''Access-Control-Allow-Credentials'' = ''Access-Control-Allow-Credentials''"
  "canonical_key ''Access-Control-Allow-Origin'' = ''Access-Control-Allow-Origin''"
  by code_simp+

text \<open>The answer to the request: the bytes of its range, and their number as the declared length.\<close>

lemma range_opened:
  assumes "0 < m" "start + m < length obj" "length obj < 2 ^ 63"
  obtains resp where
    "proxy_RoundTrip pods_slib (range_hlib obj) (Some demo_rc) RetryTransport (out_request pods_proxy (range_request start m)) ([], 0, [], c) =
      (Ret (resp, Some (range_reader start m, range_rec obj start m)), ([], 1, [], c))"
    "rs_Body resp = Some (0, start, start + m)"
    "header_get (delCORSHeaders (rs_Header resp)) ''Content-Length'' = show_nat m"
proof -
  obtain e where e: "start + m = Suc e" using assms(1) by (cases "start + m") simp_all
  then have m: "Suc e - start = m" by simp
  let ?resp = "\<lparr>rs_StatusCode = 206, rs_Header = header_set ''Content-Range''
      (''bytes '' @ show_nat start @ ''-'' @ show_nat (start + m - 1) @ ''/'' @ show_nat (length obj))
      (header_set ''Content-Length'' (show_nat m) fmempty), rs_ContentLength = int m, rs_Body = Some (0 :: nat, start, start + m)\<rparr>"
  have "parseRange (header_get (rq_Header (range_request start m)) ''Range'') = (int start, int e, True, True)"
    using parseRange_show(2) [of start e] assms(2,3) e by (simp add: range_request_def)
  then have "range_transport obj (range_request start m) ([], 0, [], c) = (Ret ?resp, ([], 1, [], c))"
    using assms(2) e m by (simp add: range_transport_def Let_def)
  then have tr: "redirect_RoundTrip (range_hlib obj) (range_request start m) ([], 0, [], c) = (Ret ?resp, ([], 1, [], c))"
    by (simp add: redirect_RoundTrip_def range_hlib_def numeral_eq_Suc is_redirect_def status_defs)
  have "parseContentRangeStart (header_get (rs_Header ?resp) ''Content-Range'') = Some (int start)"
    using parseContentRangeStart_show [of start] assms(2,3) by simp
  then have os: "orig_start (range_request start m) ?resp = Some (int start)" by (simp add: orig_start_def status_defs)
  have host: "u_Host (rq_URL (range_request start m)) = ''10.1:80''" by (simp add: range_request_def sample_request_def)
  have out: "out_request pods_proxy (range_request start m) = range_request start m"
    by (simp add: out_request_def director_def range_request_def sample_request_def pods_proxy_def has_suffix_def)
  show thesis
  proof (rule that [of ?resp])
    show "proxy_RoundTrip pods_slib (range_hlib obj) (Some demo_rc) RetryTransport (out_request pods_proxy (range_request start m)) ([], 0, [], c) =
      (Ret (?resp, Some (range_reader start m, range_rec obj start m)), ([], 1, [], c))"
      unfolding out proxy_RoundTrip_def transport.case retry_RoundTrip_def tr
      using os host by (simp add: demo_rc_def status_defs range_reader_def)
    show "header_get (delCORSHeaders (rs_Header ?resp)) ''Content-Length'' = show_nat m"
      by (simp add: delCORSHeaders_def del_headers_get corsHeaders_def range_keys)
  qed simp
qed

text \<open>The code's reconnection: the other pod is asked for the rest of the object, whatever the end of the range was.\<close>

lemma range_fallback:
  "retry_cfg demo_rc = Some (small_service ''torrent-web-seeder'')"
  "\<exists>loc. GetFallback pods_slib (Some (small_service ''torrent-web-seeder'')) demo_source (n_ParseIP demo_net (failed_ip ''10.1:80'')) None ([], j, pr, c) =
     (Ret loc, ([''10.1''], j, pr, c)) \<and> ip_string (pods_slib :: SrvConn pods SLib) (lo_IP loc) @ '':'' @ show_int (lo_HTTP loc) = ''10.2:80''"
  for c :: SrvConn
proof -
  show "retry_cfg demo_rc = Some (small_service ''torrent-web-seeder'')" by code_simp
  have "case GetFallback pods_slib (Some (small_service ''torrent-web-seeder'')) demo_source (n_ParseIP demo_net (failed_ip ''10.1:80'')) None ([], j, pr, c) of
      (Ret loc, w) \<Rightarrow> w = ([''10.1''], j, pr, c) \<and> ip_string (pods_slib :: SrvConn pods SLib) (lo_IP loc) @ '':'' @ show_int (lo_HTTP loc) = ''10.2:80'' | _ \<Rightarrow> False"
    by code_simp
  then show "\<exists>loc. GetFallback pods_slib (Some (small_service ''torrent-web-seeder'')) demo_source (n_ParseIP demo_net (failed_ip ''10.1:80'')) None ([], j, pr, c) =
     (Ret loc, ([''10.1''], j, pr, c)) \<and> ip_string (pods_slib :: SrvConn pods SLib) (lo_IP loc) @ '':'' @ show_int (lo_HTTP loc) = ''10.2:80''"
    by (auto split: prod.splits outcome.splits)
qed

lemma range_resumed:
  assumes "start + k < length obj" "length obj < 2 ^ 63"
  shows "range_rec obj start m (int k) ''10.1:80'' ([], 1, pr, c) =
    (Ret (NewBody (1, start + k, length obj)), ''10.2:80'', ([''10.1''], 2, pr, c))"
proof -
  obtain loc where loc: "GetFallback pods_slib (Some (small_service ''torrent-web-seeder'')) demo_source (n_ParseIP demo_net (failed_ip ''10.1:80'')) None ([], 1, pr, c) =
     (Ret loc, ([''10.1''], 1, pr, c))" "ip_string (pods_slib :: SrvConn pods SLib) (lo_IP loc) @ '':'' @ show_int (lo_HTTP loc) = ''10.2:80''"
    using range_fallback(2) by blast
  have w: "wrap64 (int start + int k) = int (start + k)" using assms by (intro wrap64_id [THEN trans]) (simp_all add: in_int64_def)
  have "\<exists>newReq. retry_request (range_hlib obj) (range_request start m) ''10.2:80'' (int (start + k)) = Ret newReq \<and>
      header_get (rq_Header newReq) ''Range'' = range_from (int (start + k))"
    by (simp add: retry_request_def range_hlib_def)
  then obtain newReq where req: "retry_request (range_hlib obj) (range_request start m) ''10.2:80'' (int (start + k)) = Ret newReq"
      "header_get (rq_Header newReq) ''Range'' = range_from (int (start + k))"
    by blast
  have "parseRange (range_from (int (start + k))) = (int (start + k), 0, False, True)"
    using parseRange_show(1) [of "start + k"] assms by (simp add: range_from_def show_int_def del: of_nat_add)
  then obtain resp where resp: "range_transport obj newReq ([''10.1''], 1, pr, c) = (Ret resp, ([''10.1''], 2, pr, c))"
      "rs_StatusCode resp = 206" "rs_Body resp = Some (1, start + k, length obj)"
    using assms(1) by (simp add: range_transport_def req(2) Let_def nat_add_distrib)
  then have tr: "redirect_RoundTrip (range_hlib obj) newReq ([''10.1''], 1, pr, c) = (Ret resp, ([''10.1''], 2, pr, c))"
    by (simp add: redirect_RoundTrip_def range_hlib_def numeral_eq_Suc is_redirect_def status_defs)
  have parts: "rc_Src demo_rc = demo_source" "rc_Claims demo_rc = None" "e_net pods_slib = demo_net"
    by (simp_all add: demo_rc_def pods_slib_def)
  show ?thesis
    unfolding reconnectFn_def Let_def w range_fallback(1) option.case parts loc(1) prod.case outcome.case
    unfolding loc(2) req(1) outcome.case tr prod.case
    by (simp add: check_retry_def resp(2,3) status_defs)
qed

lemma range_write:
  "\<exists>wi'. client_write None range_conn d (r, wi, (ig, j, pr, c)) =
      Some (fst (server_write d c), r, wi', (ig, j, pr, snd (server_write d c))) \<and>
    wi_bytesWritten wi' = wi_bytesWritten wi + int (length d)"
proof -
  have "RWI_write_to range_conn d (wi, (ig, j, pr, c)) =
      (fst (server_write d c), RWI_Write 0 d wi, (ig, j, pr, snd (server_write d c)))"
    by (simp add: RWI_write_to_def range_conn_def split_beta)
  then show ?thesis by (simp add: client_write_def range_conn_def RWI_Flush_def RWI_Write_def Let_def)
qed

text \<open>The copy: one buffer from before the failure, and one from the reconnection, which is refused.\<close>

lemma range_copy:
  assumes "0 < k" "k < m" "k \<le> b" "m - k < b" "start + m < length obj" "length obj < 2 ^ 63"
  shows "\<exists>r' wi' pr c'. copyBuffer (body_read (range_blib obj k start m)) (client_write None range_conn) b 0
      (range_reader start m, wi, ([], 1, [], \<lparr>cn_declared = Some (int m), cn_count = 0, cn_out = []\<rparr>)) =
        Some (Ret (k, Some ErrContentLength), (r', wi', ([''10.1''], 2, pr, c'))) \<and>
    cn_declared c' = Some (int m) \<and> cn_out c' = take k (drop start obj) \<and> wi_bytesWritten wi + int m < wi_bytesWritten wi'"
proof -
  let ?c = "\<lparr>cn_declared = Some (int m), cn_count = 0, cn_out = []\<rparr>"
  let ?d = "take k (drop start obj)" and ?e = "take b (drop (start + k) obj)"
  let ?rd = "body_read (range_blib obj k start m)" and ?wr = "client_write None range_conn"
  have len: "length ?d = k" "length ?e = min b (length obj - (start + k))" using assms by auto
  have ne: "?d \<noteq> []" "?e \<noteq> []" and more: "m < k + length ?e" using len assms by auto
  let ?r1 = "(range_reader start m)\<lparr>r_bytesRead := int k\<rparr>"
  let ?c1 = "?c\<lparr>cn_count := int k, cn_out := ?d\<rparr>"
  have k64: "wrap64 (int k) = int k" using assms by (intro wrap64_id) (simp add: in_int64_def)
  have first: "range_read obj k (0, start, start + m) b ([], 1, [], c) = ((?d, None), ([], 1, [(0, k)], c))" for c
    using assms len(1) by (simp add: range_read_def progress_def Let_def min_def)
  have rd1: "?rd b (range_reader start m, wi, ([], 1, [], ?c)) = (Ret (?d, None), ?r1, wi, ([], 1, [(0, k)], ?c))"
    using first [of ?c] len(1) k64 assms(1)
    by (simp add: body_read_def Read_def blib_of_def range_reader_def advance_def Let_def)
  have "server_write ?d ?c = ((k, None), ?c1)" using assms(2) len(1) by (simp add: server_write_def)
  then obtain wi1 where wi1: "?wr ?d (?r1, wi, ([], 1, [(0, k)], ?c)) = Some ((k, None), ?r1, wi1, ([], 1, [(0, k)], ?c1))"
      "wi_bytesWritten wi1 = wi_bytesWritten wi + int k"
    using range_write [of ?d ?r1 wi "[]" 1 "[(0, k)]" ?c] len(1) by auto
  have round1: "copy_round ?rd ?wr b 0 (range_reader start m, wi, ([], 1, [], ?c)) = Some (Inr k, ?r1, wi1, ([], 1, [(0, k)], ?c1))"
    using rd1 wi1(1) ne(1) len(1) by (simp add: copy_round_def after_read_def)
  let ?r2 = "advance ?e (?r1\<lparr>r_failedHost := ''10.2:80'', r_retries := 1, r_body := (1, start + k, length obj)\<rparr>)"
  let ?pr = "[(1, length ?e), (0, k)]"
  have rt: "isRetryableError (Some (Errno ECONNRESET))" by (simp add: isRetryableError_def)
  have broken: "range_read obj k (0, start, start + m) b ([], 1, [(0, k)], c) = (([], Some (Errno ECONNRESET)), ([], 1, [(0, k)], c))" for c
    using assms(2) by (simp add: range_read_def progress_def Let_def min_def)
  have "take (min b (length obj - (start + k))) (drop (start + k) obj) = ?e" by (simp add: min_def)
  then have second: "range_read obj k (1, start + k, length obj) b ([''10.1''], 2, [(0, k)], c) = ((?e, None), ([''10.1''], 2, ?pr, c))" for c
    using assms(2,5) by (simp add: range_read_def progress_def Let_def)
  have at: "start + k < length obj" using assms(2,5) by linarith
  note rec = range_resumed [OF at assms(6), of m "[(0, k)]" ?c1]
  have rd2: "?rd b (?r1, wi1, ([], 1, [(0, k)], ?c1)) = (Ret (?e, None), ?r2, wi1, ([''10.1''], 2, ?pr, ?c1))"
    using assms(2) rt broken [of ?c1] second [of ?c1] rec
    by (simp add: body_read_def Read_def blib_of_def range_reader_def range_hlib_def Let_def del: of_nat_add)
  let ?c2 = "?c1\<lparr>cn_count := int k + int (length ?e)\<rparr>"
  have "server_write ?e ?c1 = ((0, Some ErrContentLength), ?c2)" using more by (simp add: server_write_def)
  then obtain wi2 where wi2: "?wr ?e (?r2, wi1, ([''10.1''], 2, ?pr, ?c1)) = Some ((0, Some ErrContentLength), ?r2, wi2, ([''10.1''], 2, ?pr, ?c2))"
      "wi_bytesWritten wi2 = wi_bytesWritten wi1 + int (length ?e)"
    using range_write [of ?e ?r2 wi1 "[''10.1'']" 2 ?pr ?c1] by auto
  have round2: "copy_round ?rd ?wr b k (?r1, wi1, ([], 1, [(0, k)], ?c1)) =
      Some (Inl (Ret (k, Some ErrContentLength)), ?r2, wi2, ([''10.1''], 2, ?pr, ?c2))"
    using rd2 wi2(1) ne(2) by (simp add: copy_round_def)
  have "copyBuffer ?rd ?wr b 0 (range_reader start m, wi, ([], 1, [], ?c)) =
      Some (Ret (k, Some ErrContentLength), ?r2, wi2, ([''10.1''], 2, ?pr, ?c2))"
    by (simp only: copyBuffer.simps [of ?rd ?wr b 0] copyBuffer.simps [of ?rd ?wr b k] round1 round2 option.case prod.case sum.case)
  moreover have "wi_bytesWritten wi + int m < wi_bytesWritten wi2" using wi1(2) wi2(2) more by linarith
  ultimately show ?thesis
    by - (rule exI [of _ ?r2], rule exI [of _ wi2], rule exI [of _ ?pr], rule exI [of _ ?c2], simp)
qed

text \<open>C40: A bounded range does not survive a broken connection, although the retrying transport was meant to hide it. A client asks
  for the bytes from \<open>start\<close> to \<open>start + m - 1\<close> of an object that goes on behind them; the connection to
  the pod breaks after \<open>k\<close> of them, which one read had delivered, and the code's reconnection finds the other pod, which works. It
  asks that pod for an open range, so the next buffer holds, where the rest of the range is smaller than a buffer of
  the copy, bytes from behind the end of the range; as it exceeds the length that the answer declared, the connection
  refuses it as a whole and the response is aborted. The client is left with the \<open>k\<close> bytes from before the failure
  although the rest was read, and the refused bytes are counted as sent.\<close>

theorem bounded_range_cut:
  assumes "0 < k" "k < m" "k \<le> b" "m - k < b" "start + m < length obj" "length obj < 2 ^ 63"
  shows "\<exists>cache' wi' pr c'. ServeHTTP pods_slib (range_hlib obj) (range_read obj k) fl room ks None fk (Some demo_rc) pods_proxy None
      range_conn b (range_request start m) (cache, wi, ([], 0, [], \<lparr>cn_declared = None, cn_count = 0, cn_out = []\<rparr>)) =
        Some (Aborted ErrContentLength, cache', wi', ([''10.1''], 2, pr, c')) \<and>
    cn_declared c' = Some (int m) \<and> cn_out c' = take k (drop start obj) \<and> length (cn_out c') < m \<and>
    wi_bytesWritten wi + int m < wi_bytesWritten wi'"
proof -
  let ?fresh = "\<lparr>cn_declared = None, cn_count = 0, cn_out = []\<rparr>" and ?c = "\<lparr>cn_declared = Some (int m), cn_count = 0, cn_out = []\<rparr>"
  have "0 < m" using assms(1,2) by simp
  then obtain resp where resp:
    "proxy_RoundTrip pods_slib (range_hlib obj) (Some demo_rc) RetryTransport (out_request pods_proxy (range_request start m)) ([], 0, [], ?fresh) =
      (Ret (resp, Some (range_reader start m, range_rec obj start m)), ([], 1, [], ?fresh))"
    "rs_Body resp = Some (0, start, start + m)"
    "header_get (delCORSHeaders (rs_Header resp)) ''Content-Length'' = show_nat m"
    using assms(5,6) by (rule range_opened)
  have no_rule: "\<not> manifest_rule None p" for p by (simp add: manifest_rule_def)
  have hd: "k_header range_conn st (delCORSHeaders (rs_Header resp)) ([], 1, [], ?fresh) = ([], 1, [], ?c)" for st
    using parse_int_show_nat [of m] assms(5,6) by (simp add: range_conn_def on_conn_def resp(3))
  define wi0 where "wi0 = RWI_WriteHeader (rs_StatusCode resp) wi"
  have wi0: "wi_bytesWritten wi0 = wi_bytesWritten wi" by (simp add: wi0_def RWI_WriteHeader_def)
  obtain r' wi' pr c' where copy: "copyBuffer (body_read (range_blib obj k start m)) (client_write None range_conn) b 0
      (range_reader start m, wi0, ([], 1, [], ?c)) = Some (Ret (k, Some ErrContentLength), (r', wi', ([''10.1''], 2, pr, c')))"
    and c': "cn_declared c' = Some (int m)" "cn_out c' = take k (drop start obj)" "wi_bytesWritten wi0 + int m < wi_bytesWritten wi'"
    using range_copy [OF assms, of wi0] by blast
  have close: "snd (RRC_Close (range_blib obj k start m) (r', w)) = w" for w by (simp add: RRC_Close_def blib_of_def range_hlib_def)
  have relay: "relay_body (range_blib obj k start m) None range_conn b (range_reader start m, wi0, ([], 1, [], ?c)) =
      Some (Aborted ErrContentLength, wi', ([''10.1''], 2, pr, c'))"
    unfolding relay_body_def copy by (simp add: close)
  let ?cache = "captureFileSize ks fk (resp\<lparr>rs_Header := delCORSHeaders (rs_Header resp)\<rparr>) cache"
  have "rp_Transport pods_proxy = RetryTransport" by (simp add: pods_proxy_def)
  then have "ServeHTTP pods_slib (range_hlib obj) (range_read obj k) fl room ks None fk (Some demo_rc) pods_proxy None
      range_conn b (range_request start m) (cache, wi, ([], 0, [], ?fresh)) =
        Some (Aborted ErrContentLength, ?cache, wi', ([''10.1''], 2, pr, c'))"
    by (simp add: ServeHTTP_def Let_def resp(1,2) no_rule media_response_def hd relay wi0_def [symmetric] del: One_nat_def)
  moreover have "length (take k (drop start obj)) < m" using assms(2,5) by simp
  ultimately show ?thesis
    using c' wi0 by - (rule exI [of _ ?cache], rule exI [of _ wi'], rule exI [of _ pr], rule exI [of _ c'], simp)
qed

theorem bounded_range_cut_witness:
  "\<exists>cache' wi' pr c'. ServeHTTP pods_slib (range_hlib ''abcdefgh'') (range_read ''abcdefgh'' 2) int_floats (\<lambda>n. 512) [] None None (Some demo_rc)
      pods_proxy None range_conn 32768 (range_request 1 4) (None, demo_wi, ([], 0, [], \<lparr>cn_declared = None, cn_count = 0, cn_out = []\<rparr>)) =
        Some (Aborted ErrContentLength, cache', wi', ([''10.1''], 2, pr, c')) \<and>
    cn_declared c' = Some (int 4) \<and> cn_out c' = take 2 (drop 1 ''abcdefgh'') \<and> length (cn_out c') < 4 \<and>
    wi_bytesWritten demo_wi + int 4 < wi_bytesWritten wi'"
  by (rule bounded_range_cut) simp_all

end
