(* ===== verification/Handling.thy ===== *)
theory Handling
  imports Serving
begin

text \<open>
  The handler of a request as a whole (\<open>proxyHTTP\<close> of \<open>services/web.go\<close>): admission, the gauge of current requests, the
  preparation with its early returns, the response streamed by the reverse proxy, and the deferred functions, which run
  on every way out. The metrics are those registered in \<open>services/web.go\<close>; of a histogram the number of
  observations is kept.
\<close>

section \<open>Metrics\<close>

text \<open>The labels \<open>source\<close>, \<open>role\<close> and \<open>name\<close>; some metrics have a \<open>status\<close> in addition.\<close>

type_synonym label = "string \<times> string \<times> string"

record Metrics =
  pm_current :: "label \<Rightarrow> int"
  pm_total :: "label \<times> string \<Rightarrow> nat"
  pm_duration :: "label \<times> string \<Rightarrow> nat"
  pm_ttfb :: "label \<times> string \<Rightarrow> nat"

definition labels_of :: "Inbound \<Rightarrow> MapClaims \<Rightarrow> Source \<Rightarrow> label" where
  "labels_of r claims src = (source_of r, role_of claims, GetEdgeName src)"

text \<open>The labels of the size counter; the status is the one at the first write.\<close>

definition resolveSize :: "Inbound \<Rightarrow> MapClaims \<Rightarrow> Source \<Rightarrow> int \<Rightarrow> string list" where
  "resolveSize r claims src statusCode =
     [domain_of claims, role_of claims, source_of r, GetEdgeName src, show_int (quot statusCode 100 * 100)]"

definition metrics_begin :: "label \<Rightarrow> Metrics \<Rightarrow> Metrics" where
  "metrics_begin lb pm = pm\<lparr>pm_current := (pm_current pm)(lb := pm_current pm lb + 1)\<rparr>"

definition metrics_end :: "label \<Rightarrow> RWI \<Rightarrow> Metrics \<Rightarrow> Metrics" where
  "metrics_end lb wi pm =
     (let k = (lb, show_int (GroupedStatusCode wi));
          pm1 = pm\<lparr>pm_duration := (pm_duration pm)(k := pm_duration pm k + 1)\<rparr>;
          pm2 = (if 0 < wi_bytesWritten wi then pm1\<lparr>pm_ttfb := (pm_ttfb pm1)(k := pm_ttfb pm1 k + 1)\<rparr> else pm1);
          pm3 = pm2\<lparr>pm_current := (pm_current pm2)(lb := pm_current pm2 lb - 1)\<rparr>
      in pm3\<lparr>pm_total := (pm_total pm3)(k := pm_total pm3 k + 1)\<rparr>)"

lemma metrics_simps [simp]:
  "pm_current (metrics_begin lb pm) = (pm_current pm)(lb := pm_current pm lb + 1)"
  "pm_total (metrics_begin lb pm) = pm_total pm"
  "pm_current (metrics_end lb wi pm) = (pm_current pm)(lb := pm_current pm lb - 1)"
  "pm_total (metrics_end lb wi pm) =
     (pm_total pm)((lb, show_int (GroupedStatusCode wi)) := pm_total pm (lb, show_int (GroupedStatusCode wi)) + 1)"
  by (simp_all add: metrics_begin_def metrics_end_def Let_def)

section \<open>The handler\<close>

record 'w HState =
  hs_ls :: LState
  hs_ch :: "ClickHouse option"
  hs_pm :: Metrics
  hs_cache :: "FileSizeCache option"
  hs_w :: 'w

datatype handled = Answered answer | Proxied served

text \<open>The status that an early return writes; a panic writes none.\<close>

fun answer_status :: "answer \<Rightarrow> RWI \<Rightarrow> RWI" where
  "answer_status (Status c) wi = RWI_WriteHeader c wi"
| "answer_status (Crash k) wi = wi"

text \<open>The deferred functions: the record and the metrics, then the release.\<close>

definition request_finish ::
  "MapClaims \<Rightarrow> Source \<Rightarrow> Inbound \<Rightarrow> RWI \<Rightarrow> int \<Rightarrow> ticket option \<Rightarrow> 'w HState \<Rightarrow> StatRecord list option \<times> 'w HState" where
  "request_finish claims src r wi now t st =
     (case request_end claims src r wi now t (hs_ch st, hs_ls st) of (batch, ch', ls') \<Rightarrow>
        (batch, st\<lparr>hs_ch := ch', hs_pm := metrics_end (labels_of r claims src) wi (hs_pm st), hs_ls := ls'\<rparr>))"

text \<open>\<open>start\<close>, \<open>now\<close> and \<open>fin\<close> are the times of the interceptor, of the admission and of the deferred function; the limiter
  looks sizes up in the cache of file sizes.\<close>

definition proxyHTTP ::
  "'w WebLib \<Rightarrow> ('b, 'w) HLib \<Rightarrow> ('b \<Rightarrow> nat \<Rightarrow> 'w \<Rightarrow> (string \<times> ioerr option) \<times> 'w) \<Rightarrow> 'f FloatLib \<Rightarrow> (nat \<Rightarrow> nat) \<Rightarrow> (HybridBucket \<Rightarrow> 'w throttler) \<Rightarrow>
   'w Conn \<Rightarrow> nat \<Rightarrow> string list \<Rightarrow> WebServer \<Rightarrow> int \<times> int \<times> int \<Rightarrow> Source \<Rightarrow> Inbound \<Rightarrow> 'w HState \<Rightarrow>
   (handled \<times> StatRecord list option \<times> 'w HState) option" where
  "proxyHTTP lib h rd fl room bwait K b ks s tm src r st =
     (case tm of (start, now, fin) \<Rightarrow>
      let wi = NewResponseWriterInterceptor [] start in
      case admit lib s (map_option GetSize (hs_cache st)) now src r (hs_ls st) of
        (Inl a, ls1) \<Rightarrow> Some (Answered a, None, st\<lparr>hs_ls := ls1\<rparr>)
      | (Inr (claims, t), ls1) \<Rightarrow>
          (let wi1 = wi\<lparr>wi_resolve := True\<rparr>;
               st1 = st\<lparr>hs_ls := ls1, hs_pm := metrics_begin (labels_of r claims src) (hs_pm st)\<rparr>
           in case prepare lib s claims t src r (hs_w st1) of
                (Inl a, w1) \<Rightarrow>
                  (case request_finish claims src r (answer_status a wi1) fin t (st1\<lparr>hs_w := w1\<rparr>) of
                     (batch, st2) \<Rightarrow> Some (Answered a, batch, st2))
              | (Inr sv, w1) \<Rightarrow>
                  (case ServeHTTP (wl_slib lib) h rd fl room ks (Some (sv_rules sv)) (Some (sv_fileKey sv)) (sv_retry sv) (sv_proxy sv)
                          (map_option bwait (sv_throttler sv)) K b (sv_req sv) (hs_cache st1, wi1, w1) of
                     None \<Rightarrow> None
                   | Some (o1, cache', wi2, w2) \<Rightarrow>
                       (case request_finish claims src r wi2 fin t (st1\<lparr>hs_cache := cache', hs_w := w2\<rparr>) of
                          (batch, st2) \<Rightarrow> Some (Proxied o1, batch, st2)))))"

lemma request_finish_simps:
  assumes "request_finish claims src r wi now t st = (batch, st')"
  shows "hs_ls st' = proxy_end t (hs_ls st)" "hs_pm st' = metrics_end (labels_of r claims src) wi (hs_pm st)"
    "record_request (hs_ch st) claims src r wi now = (batch, hs_ch st')" "hs_cache st' = hs_cache st" "hs_w st' = hs_w st"
  using assms by (auto simp: request_finish_def request_end_def split: prod.splits)

text \<open>The ways through the handler.\<close>

lemma proxyHTTP_cases:
  assumes "proxyHTTP lib h rd fl room bwait K b ks s (start, now, fin) src r st = Some (res, batch, st')"
  obtains (refused) a ls1 where "admit lib s (map_option GetSize (hs_cache st)) now src r (hs_ls st) = (Inl a, ls1)"
      "res = Answered a" "batch = None" "st' = st\<lparr>hs_ls := ls1\<rparr>"
  | (admitted) claims t ls1 wi where
      "admit lib s (map_option GetSize (hs_cache st)) now src r (hs_ls st) = (Inr (claims, t), ls1)"
      "hs_ls st' = proxy_end t ls1" "hs_pm st' = metrics_end (labels_of r claims src) wi (metrics_begin (labels_of r claims src) (hs_pm st))"
      "record_request (hs_ch st) claims src r wi fin = (batch, hs_ch st')"
proof -
  obtain x ls1 where ad: "admit lib s (map_option GetSize (hs_cache st)) now src r (hs_ls st) = (x, ls1)" by fastforce
  show thesis
  proof (cases x)
    case (Inl a)
    then show thesis using assms ad by (intro refused [of a ls1]) (simp_all add: proxyHTTP_def Let_def)
  next
    case (Inr y)
    obtain claims t where y: "y = (claims, t)" by fastforce
    let ?st1 = "st\<lparr>hs_ls := ls1, hs_pm := metrics_begin (labels_of r claims src) (hs_pm st)\<rparr>"
    obtain z w1 where p: "prepare lib s claims t src r (hs_w st) = (z, w1)" by fastforce
    have "\<exists>wi st2. request_finish claims src r wi fin t st2 = (batch, st') \<and> hs_ls st2 = ls1 \<and> hs_pm st2 = hs_pm ?st1 \<and> hs_ch st2 = hs_ch st"
    proof (cases z)
      case (Inl a)
      then show ?thesis using assms ad Inr y p
        by (intro exI [of _ "answer_status a ((NewResponseWriterInterceptor [] start)\<lparr>wi_resolve := True\<rparr>)"] exI [of _ "?st1\<lparr>hs_w := w1\<rparr>"])
          (auto simp: proxyHTTP_def Let_def split: prod.splits)
    next
      case sv: (Inr sv)
      then obtain o1 cache' wi2 w2 where "ServeHTTP (wl_slib lib) h rd fl room ks (Some (sv_rules sv)) (Some (sv_fileKey sv)) (sv_retry sv) (sv_proxy sv)
          (map_option bwait (sv_throttler sv)) K b (sv_req sv) (hs_cache st, (NewResponseWriterInterceptor [] start)\<lparr>wi_resolve := True\<rparr>, w1) =
            Some (o1, cache', wi2, w2)"
        using assms ad Inr y p by (auto simp: proxyHTTP_def Let_def split: option.splits)
      then show ?thesis using assms ad Inr y p sv
        by (intro exI [of _ wi2] exI [of _ "?st1\<lparr>hs_cache := cache', hs_w := w2\<rparr>"]) (auto simp: proxyHTTP_def Let_def split: prod.splits)
    qed
    then obtain wi st2 where f: "request_finish claims src r wi fin t st2 = (batch, st')" "hs_ls st2 = ls1" "hs_pm st2 = hs_pm ?st1"
        "hs_ch st2 = hs_ch st" by blast
    show thesis by (rule admitted [OF ad [unfolded Inr y]]) (use request_finish_simps(1-3) [OF f(1)] f(2-4) in simp_all)
  qed
qed

lemma admit_end_reach:
  assumes "ws_limits s = Some l" "lim_reachable l (e_net (wl_slib lib)) ls T" "size T < 2 ^ 31 - 1"
    and "admit lib s sizes now src r ls = (x, ls1)"
  shows "x = Inl a \<Longrightarrow> lim_reachable l (e_net (wl_slib lib)) ls1 T"
    and "x = Inr (claims, t) \<Longrightarrow> lim_reachable l (e_net (wl_slib lib)) (proxy_end t ls1) T"
proof -
  have "(x = Inl a \<longrightarrow> lim_reachable l (e_net (wl_slib lib)) ls1 T) \<and>
      (x = Inr (claims, t) \<longrightarrow> lim_reachable l (e_net (wl_slib lib)) (proxy_end t ls1) T)"
    using assms(1,4)
  proof (cases rule: admit_limiter)
    case none
    then show ?thesis using assms(2) by (auto simp: proxy_end_def)
  next
    case (rejected sid h p ip reason)
    then show ?thesis using reach_step [OF assms(2) lim_step.rejected [OF rejected(1)]] by simp
  next
    case (granted sid h p ip claims' t')
    show ?thesis
    proof (cases t')
      case None
      then have "lim_reachable l (e_net (wl_slib lib)) ls1 T" using reach_step [OF assms(2) lim_step.anonymous] granted by blast
      then show ?thesis using granted None by (simp add: proxy_end_def)
    next
      case (Some k)
      have g: "lim_reachable l (e_net (wl_slib lib)) ls1 (add_mset k T)"
        using reach_step [OF assms(2) lim_step.granted [OF assms(3)]] granted(1) Some by blast
      have "lim_reachable l (e_net (wl_slib lib)) (Release k ls1) T" using reach_step [OF g lim_step.released [of k]] by simp
      then show ?thesis using granted Some by (auto simp: proxy_end_def)
    qed
  qed
  then show "x = Inl a \<Longrightarrow> lim_reachable l (e_net (wl_slib lib)) ls1 T"
    and "x = Inr (claims, t) \<Longrightarrow> lim_reachable l (e_net (wl_slib lib)) (proxy_end t ls1) T"
    by blast+
qed

text \<open>C5: A request cleans up after itself on every way out, whether it is refused, fails to find a bucket or a backend,
  panics, is aborted while streaming or completes: the limiter is back to the tickets of the other requests, the gauge of
  current requests is what it was, and an admitted request is counted exactly once, under the labels of its claims, and is the
  only thing that may add a record.\<close>

theorem handler_cleans_up:
  assumes "proxyHTTP lib h rd fl room bwait K b ks s (start, now, fin) src r st = Some (res, batch, st')"
    and "ws_limits s = Some l" "lim_reachable l (e_net (wl_slib lib)) (hs_ls st) T" "size T < 2 ^ 31 - 1"
  shows "lim_reachable l (e_net (wl_slib lib)) (hs_ls st') T \<and> pm_current (hs_pm st') = pm_current (hs_pm st) \<and>
    (case fst (admit lib s (map_option GetSize (hs_cache st)) now src r (hs_ls st)) of
       Inl a \<Rightarrow> res = Answered a \<and> hs_pm st' = hs_pm st \<and> hs_ch st' = hs_ch st \<and> hs_cache st' = hs_cache st
     | Inr (claims, t) \<Rightarrow>
         \<exists>wi. pm_total (hs_pm st') = (pm_total (hs_pm st))((labels_of r claims src, show_int (GroupedStatusCode wi)) :=
               pm_total (hs_pm st) (labels_of r claims src, show_int (GroupedStatusCode wi)) + 1) \<and>
           (batch, hs_ch st') = record_request (hs_ch st) claims src r wi fin)"
  using assms(1)
proof (cases rule: proxyHTTP_cases)
  case (refused a ls1)
  then show ?thesis using admit_end_reach(1) [OF assms(2-4) refused(1) refl] by simp
next
  case (admitted claims t ls1 wi)
  have "lim_reachable l (e_net (wl_slib lib)) (hs_ls st') T"
    using admit_end_reach(2) [OF assms(2-4) admitted(1) refl] by (simp add: admitted(2))
  moreover have "pm_current (hs_pm st') = pm_current (hs_pm st)" by (simp add: admitted(3))
  ultimately show ?thesis using admitted(1,3,4) by (auto intro!: exI [of _ wi])
qed

text \<open>The demonstration server when it cannot build a reverse proxy.\<close>

definition failing_weblib :: "string list WebLib" where
  "failing_weblib = demo_weblib\<lparr>wl_proxy_map := (\<lambda>key load w. (Fail (ErrMsg ''no proxy''), w))\<rparr>"

definition demo_state :: "string list HState" where
  "demo_state = \<lparr>hs_ls = init_state, hs_ch = None,
     hs_pm = \<lparr>pm_current = (\<lambda>_. 0), pm_total = (\<lambda>_. 0), pm_duration = (\<lambda>_. 0), pm_ttfb = (\<lambda>_. 0)\<rparr>, hs_cache = None, hs_w = []\<rparr>"

definition quiet_conn :: "'w Conn" where
  "quiet_conn = \<lparr>k_now = (\<lambda>w. (0, w)), k_header = (\<lambda>st hdr w. w), k_write = (\<lambda>d w. ((length d, None), w)), k_flush = (\<lambda>w. w)\<rparr>"

lemma failing_prepare: "\<exists>a w'. prepare failing_weblib s claims t src r w = (Inl a, w')"
  by (auto simp: prepare_def HTTPProxy_Get_def failing_weblib_def split: prod.split outcome.split)

lemma failing_handled: "\<exists>res batch st'. proxyHTTP failing_weblib h rd fl room bwait K b ks s (start, now, fin) src r st = Some (res, batch, st')"
proof (cases "admit failing_weblib s (map_option GetSize (hs_cache st)) now src r (hs_ls st)")
  case (Pair x ls1)
  show ?thesis
  proof (cases x)
    case (Inr y)
    obtain claims t where y: "y = (claims, t)" by fastforce
    obtain a w' where "prepare failing_weblib s claims t src r (hs_w st) = (Inl a, w')" using failing_prepare by blast
    then show ?thesis using Pair Inr y by (simp add: proxyHTTP_def Let_def split: prod.split)
  qed (use Pair in \<open>simp add: proxyHTTP_def\<close>)
qed

theorem handler_cleans_up_witness:
  "\<not> isl (fst (admit failing_weblib demo_server None 0 demo_source demo_inbound init_state)) \<and>
   (\<exists>res batch st'. proxyHTTP failing_weblib demo_hlib (\<lambda>b n w. ((b, Some IoEOF), w)) int_floats (\<lambda>n. 512) (\<lambda>hb n w. Some w) quiet_conn 32768 [] demo_server (0, 0, 9) demo_source demo_inbound demo_state = Some (res, batch, st') \<and>
     lim_reachable demo_limits (e_net (wl_slib failing_weblib)) (hs_ls st') {#} \<and> pm_current (hs_pm st') = (\<lambda>_. 0))"
proof
  show "\<not> isl (fst (admit failing_weblib demo_server None 0 demo_source demo_inbound init_state))" by code_simp
  obtain res batch st' where p: "proxyHTTP failing_weblib demo_hlib (\<lambda>b n w. ((b, Some IoEOF), w)) int_floats (\<lambda>n. 512) (\<lambda>hb n w. Some w) quiet_conn 32768 [] demo_server (0, 0, 9) demo_source demo_inbound demo_state = Some (res, batch, st')"
    using failing_handled [where fl = int_floats and room = "\<lambda>n. 512"] by blast
  have "ws_limits demo_server = Some demo_limits" by (simp add: demo_server_def)
  moreover have "lim_reachable demo_limits (e_net (wl_slib failing_weblib)) (hs_ls demo_state) {#}"
    by (simp add: lim_reachable_def demo_state_def)
  ultimately have "lim_reachable demo_limits (e_net (wl_slib failing_weblib)) (hs_ls st') {#} \<and> pm_current (hs_pm st') = pm_current (hs_pm demo_state)"
    using handler_cleans_up [OF p, of demo_limits "{#}"] by simp
  with p show "\<exists>res batch st'. proxyHTTP failing_weblib demo_hlib (\<lambda>b n w. ((b, Some IoEOF), w)) int_floats (\<lambda>n. 512) (\<lambda>hb n w. Some w) quiet_conn 32768 [] demo_server (0, 0, 9) demo_source demo_inbound demo_state = Some (res, batch, st') \<and>
     lim_reachable demo_limits (e_net (wl_slib failing_weblib)) (hs_ls st') {#} \<and> pm_current (hs_pm st') = (\<lambda>_. 0)"
    by (simp add: demo_state_def)
qed

section \<open>The gauge\<close>

text \<open>The labels of a request that gets past admission, with which the gauge is raised.\<close>

definition admitted_labels ::
  "'w WebLib \<Rightarrow> WebServer \<Rightarrow> string list \<Rightarrow> (string \<Rightarrow> string \<Rightarrow> int option) option \<Rightarrow> int \<Rightarrow> Inbound \<Rightarrow> LState \<Rightarrow> label option" where
  "admitted_labels lib s ks sizes now r ls =
     (let url = rq_URL (ib_req r) in
      if is_static (u_Path url) then None
      else case Parse (ws_cfg s) ks url of
        Ret src \<Rightarrow>
          (let newPath = (case s_Mod src of Some m \<Rightarrow> m_Path m | None \<Rightarrow> s_Path src);
               r' = r\<lparr>ib_req := (ib_req r)\<lparr>rq_URL := url\<lparr>u_Path := newPath\<rparr>\<rparr>\<rparr>
           in case fst (admit lib s sizes now src r' ls) of
                Inr (claims, t) \<Rightarrow> Some (labels_of r' claims src)
              | Inl a \<Rightarrow> None)
      | _ \<Rightarrow> None)"

lemma served_admitted:
  assumes "handle_root lib s ks sizes now r (ls, w) = (Inr sv, ls', w')"
  shows "admitted_labels lib s ks sizes now r ls \<noteq> None"
  using assms
  by (auto simp: handle_root_def admitted_labels_def proxy_begin_def labels_of_def Let_def
      split: if_splits outcome.splits sum.splits prod.splits)

text \<open>Requests that are served at the same time; \<open>failed\<close> are those that return early after the gauge was raised.\<close>

inductive gauge_step ::
  "'w WebLib \<Rightarrow> WebServer \<Rightarrow> string list \<Rightarrow> LState \<times> 'w \<times> (Serving \<times> label) multiset \<times> Metrics \<Rightarrow>
   LState \<times> 'w \<times> (Serving \<times> label) multiset \<times> Metrics \<Rightarrow> bool" for lib s ks where
  served: "handle_root lib s ks sizes now r (ls, w) = (Inr sv, ls', w') \<Longrightarrow> admitted_labels lib s ks sizes now r ls = Some lb \<Longrightarrow>
     gauge_step lib s ks (ls, w, M, pm) (ls', w', add_mset (sv, lb) M, metrics_begin lb pm)"
| refused: "handle_root lib s ks sizes now r (ls, w) = (Inl a, ls', w') \<Longrightarrow> admitted_labels lib s ks sizes now r ls = None \<Longrightarrow>
     gauge_step lib s ks (ls, w, M, pm) (ls', w', M, pm)"
| failed: "handle_root lib s ks sizes now r (ls, w) = (Inl a, ls', w') \<Longrightarrow> admitted_labels lib s ks sizes now r ls = Some lb \<Longrightarrow>
     gauge_step lib s ks (ls, w, M, pm) (ls', w', M, metrics_end lb (answer_status a wi) (metrics_begin lb pm))"
| finished: "(sv, lb) \<in># M \<Longrightarrow>
     gauge_step lib s ks (ls, w, M, pm) (proxy_end (sv_ticket sv) ls, w', M - {#(sv, lb)#}, metrics_end lb wi pm)"

definition zero_metrics :: Metrics where
  "zero_metrics = \<lparr>pm_current = (\<lambda>_. 0), pm_total = (\<lambda>_. 0), pm_duration = (\<lambda>_. 0), pm_ttfb = (\<lambda>_. 0)\<rparr>"

definition gauge_ok :: "(Serving \<times> label) multiset \<Rightarrow> Metrics \<Rightarrow> bool" where
  "gauge_ok M pm \<longleftrightarrow> (\<forall>lb. pm_current pm lb = int (count (image_mset snd M) lb))"

lemma gauge_step_ok:
  assumes "gauge_step lib s ks (ls, w, M, pm) (ls', w', M', pm')" "gauge_ok M pm"
  shows "gauge_ok M' pm'"
  using assms(1)
proof cases
  case (finished sv lb wi)
  then obtain M0 where "M = add_mset (sv, lb) M0" by (metis insert_DiffM)
  then show ?thesis using assms(2) finished by (auto simp: gauge_ok_def)
qed (use assms(2) in \<open>auto simp: gauge_ok_def\<close>)

text \<open>C8: The gauge of current requests is exact: in every state that is reached by requests arriving, failing and finishing in
  any order, it shows for each source, role and edge the number of requests that are being served.\<close>

theorem gauge_counts_requests:
  assumes "(gauge_step lib s ks)\<^sup>*\<^sup>* (init_state, w0, {#}, zero_metrics) (ls, w, M, pm)"
  shows "pm_current pm lb = int (size (filter_mset (\<lambda>x. snd x = lb) M))"
proof -
  have "gauge_ok (fst (snd (snd y))) (snd (snd (snd y)))"
    if "(gauge_step lib s ks)\<^sup>*\<^sup>* x y" "gauge_ok (fst (snd (snd x))) (snd (snd (snd x)))" for x y
    using that
  proof (induction rule: rtranclp_induct)
    case (step y z)
    obtain ls w M pm where y: "y = (ls, w, M, pm)" by (rule prod_cases4)
    obtain ls' w' M' pm' where z: "z = (ls', w', M', pm')" by (rule prod_cases4)
    show ?case using gauge_step_ok [OF step.hyps(2) [unfolded y z]] step.IH [OF step.prems] by (simp add: y z)
  qed simp
  from this [OF assms] have "gauge_ok M pm" by (simp add: gauge_ok_def zero_metrics_def)
  moreover have "count (image_mset snd M) lb = size (filter_mset (\<lambda>x. snd x = lb) M)"
    by (induction M) auto
  ultimately show ?thesis by (metis gauge_ok_def)
qed

theorem gauge_counts_requests_witness:
  "\<exists>ls w sv lb pm. (gauge_step demo_weblib demo_server small_range)\<^sup>*\<^sup>* (init_state, [], {#}, zero_metrics) (ls, w, {#(sv, lb)#}, pm) \<and>
     pm_current pm lb = 1"
proof -
  obtain sv ls' w' where p: "handle_root demo_weblib demo_server small_range None 0 demo_inbound (init_state, []) = (Inr sv, ls', w')"
    using not_isl_Inr [OF demo_handled] by blast
  obtain lb where lb: "admitted_labels demo_weblib demo_server small_range None 0 demo_inbound init_state = Some lb"
    using served_admitted [OF p] by blast
  have run: "(gauge_step demo_weblib demo_server small_range)\<^sup>*\<^sup>* (init_state, [], {#}, zero_metrics)
      (ls', w', {#(sv, lb)#}, metrics_begin lb zero_metrics)"
    by (rule r_into_rtranclp) (rule gauge_step.served [OF p lb])
  have "pm_current (metrics_begin lb zero_metrics) lb = 1" using gauge_counts_requests [OF run, of lb] by simp
  with run show ?thesis by blast
qed

section \<open>Closing\<close>

text \<open>\<open>Web.Close\<close> closes the listener that \<open>Serve\<close> has stored, if there is one.\<close>

definition Web_Close :: "('l \<Rightarrow> 'w \<Rightarrow> 'w) \<Rightarrow> 'l option \<Rightarrow> 'w \<Rightarrow> 'w" where
  "Web_Close close_listener lis w = (case lis of None \<Rightarrow> w | Some l \<Rightarrow> close_listener l w)"

lemma closed_after_failed_listen:
  assumes "Serve listen host port w = (Fail e, w')"
  shows "Web_Close close_listener None w' = w' \<and> (\<exists>x. listen (host @ '':'' @ show_int port) w = (Fail x, w'))"
  using assms by (auto simp: Web_Close_def Serve_def elim!: wrap_err.elims split: prod.splits)

end
