(* ===== verification/Manifest_Serving.thy ===== *)
theory Manifest_Serving
  imports Serving
begin

text \<open>
  Manifests on their way to the client (\<open>services/manifest_rewriter.go\<close>, \<open>services/rules.go\<close>, \<open>services/http_proxy.go\<close>): the hook
  reads the body of the response through the retrying reader to its end and rewrites it, and the reverse proxy copies the
  result to the client. A manifest that could not be read is answered by the library's error handler.
\<close>

section \<open>The rewritten manifest as a source\<close>

definition string_at ::
  "'w throttler option \<Rightarrow> 'w Conn \<Rightarrow> ('b \<Rightarrow> 'w \<Rightarrow> nat) \<Rightarrow> ('w \<Rightarrow> string) \<Rightarrow> ('w \<Rightarrow> bool) \<Rightarrow> string \<Rightarrow> string \<times> RWI \<times> 'w \<Rightarrow> nat \<Rightarrow> bool" where
  "string_at th K pos sent I obj s p \<longleftrightarrow>
     sink_ok th K pos sent I \<and> p \<le> length obj \<and> fst s = drop p obj \<and> I (snd (snd s))"

lemma string_read_cases:
  assumes "string_read n (x, wi, w) = (q, s')"
  obtains (eof) "x = []" "q = Ret ([], Some IoEOF)" "s' = (x, wi, w)"
  | (data) "x \<noteq> []" "q = Ret (take n x, None)" "s' = (drop n x, wi, w)"
  using assms by (auto simp: string_read_def split: if_splits)

lemma take_drop_min: "take n (drop p x) = take (min (length x - p) n) (drop p x)"
  by (simp add: min_def)

lemma string_at_read:
  assumes "string_at th K pos sent I obj s p" "string_read n s = (Ret (d, e), s')"
  shows "length d \<le> n \<and> d = take (length d) (drop p obj) \<and> string_at th K pos sent I obj s' (p + length d)"
    and "e = Some IoEOF \<Longrightarrow> p + length d = length obj"
    and "d = [] \<Longrightarrow> 0 < n \<Longrightarrow> e \<noteq> None"
    and "snd s' = snd s"
proof -
  obtain x wi w where s: "s = (x, wi, w)" by (rule prod_cases3)
  have x: "x = drop p obj" "p \<le> length obj" using assms(1) by (simp_all add: string_at_def s)
  have "(length d \<le> n \<and> d = take (length d) (drop p obj) \<and> string_at th K pos sent I obj s' (p + length d)) \<and>
      (e = Some IoEOF \<longrightarrow> p + length d = length obj) \<and> (d = [] \<longrightarrow> 0 < n \<longrightarrow> e \<noteq> None) \<and> snd s' = snd s"
    using assms(2) [unfolded s]
  proof (cases rule: string_read_cases)
    case eof
    then show ?thesis using assms(1) x by (auto simp: s)
  next
    case data
    have len: "drop n (drop p obj) = drop (p + min (length obj - p) n) obj" by (simp add: min_def add.commute)
    show ?thesis using data assms(1) x len by (auto simp: s string_at_def intro: take_drop_min)
  qed
  then show "length d \<le> n \<and> d = take (length d) (drop p obj) \<and> string_at th K pos sent I obj s' (p + length d)"
    and "e = Some IoEOF \<Longrightarrow> p + length d = length obj" and "d = [] \<Longrightarrow> 0 < n \<Longrightarrow> e \<noteq> None" and "snd s' = snd s"
    by blast+
qed

lemma string_read_returns: "\<exists>x s'. string_read n s = (Ret x, s')"
  by (cases s) (simp add: string_read_def)

interpretation ms: whole_relay string_read "client_write th K" "string_at th K pos sent I obj"
  "\<lambda>s. sent (snd (snd s))" "\<lambda>s. wi_bytesWritten (fst (snd s))" obj
  for th :: "'w throttler option" and K and pos :: "'b \<Rightarrow> 'w \<Rightarrow> nat" and sent I obj
proof (standard, goal_cases)
  case (1 s p)
  then show ?case by (simp add: string_at_def)
next
  case (2 s p n q s')
  obtain x where "q = Ret x" using string_read_returns [of n s] 2(2) by auto
  then show ?case using string_at_read(4) [OF 2(1), of n "fst x" "snd x" s'] 2(2) by simp
next
  case (3 s p n d e s')
  then show ?case by (rule string_at_read(1))
next
  case (4 s p n e s')
  then show ?case using string_at_read(3) by blast
next
  case (5 s p d)
  obtain x wi w where s: "s = (x, wi, w)" by (rule prod_cases3)
  have at: "sink_ok th K pos sent I" "I w" using 5 by (simp_all add: string_at_def s)
  obtain k e wi' w' where c: "client_write th K d (x, wi, w) = Some ((k, e), x, wi', w')" "k \<le> length d" "k < length d \<longrightarrow> e \<noteq> None"
      "sent w' = sent w @ take k d" "I w'" "wi_bytesWritten wi' = wi_bytesWritten wi + int (length d)"
    using client_write_ok [OF at, of d x wi] by metis
  show ?case using 5 c by (intro exI [of _ k] exI [of _ e] exI [of _ "(x, wi', w')"]) (simp add: s string_at_def)
next
  case (6 s p n d s')
  then show ?case using string_at_read(2) by blast
qed

section \<open>Delivery\<close>

lemma string_copied:
  assumes "sink_ok th K pos sent I" "I w" "0 < b"
  shows "\<exists>m e y wi' w'. copyBuffer string_read (client_write th K) b 0 (x, wi, w) = Some (Ret (m, e), y, wi', w') \<and> m \<le> length x \<and>
    sent w' = sent w @ take m x \<and> wi_statusCode wi' = wi_statusCode wi \<and> (e = None \<longrightarrow> m = length x)"
proof -
  have at: "string_at th K pos sent I x (x, wi, w) 0" using assms(1,2) by (simp add: string_at_def)
  obtain res s' k where c: "copyBuffer string_read (client_write th K) b 0 (x, wi, w) = Some (res, s')" "k \<le> length x"
      "sent (snd (snd s')) = sent w @ take k x" "\<And>m e. res = Ret (m, e) \<Longrightarrow> m = k"
    using ms.copy_ends [OF at assms(3), of 0] unfolding drop_0 minus_nat.diff_0 add_0 snd_conv by blast
  obtain m e where res: "res = Ret (m, e)" using copyBuffer_returns [OF c(1) string_read_returns] by auto
  obtain y wi' w' where s': "s' = (y, wi', w')" by (rule prod_cases3)
  have "wi_statusCode (fst (snd s')) = wi_statusCode wi"
    using c(1)
  proof (rule copyBuffer_inv [where P = "\<lambda>s. wi_statusCode (fst (snd s)) = wi_statusCode wi"])
    show "wi_statusCode (fst (snd u')) = wi_statusCode wi" if "string_read n u = (q, u')" "wi_statusCode (fst (snd u)) = wi_statusCode wi" for n u q u'
      using that by (cases u) (auto elim!: string_read_cases)
  qed (simp_all add: client_write_status)
  moreover have "m = length x" if "e = None"
  proof -
    have "sent w' = sent w @ drop 0 x" using ms.copy_whole [OF at assms(3) c(1) [unfolded res that s']] by simp
    then have "take k x = x" using c(3) s' by simp
    then show ?thesis using c(2) c(4) [OF res] by (metis length_take min.absorb2)
  qed
  ultimately show ?thesis using c(1-3) c(4) [OF res] unfolding res s' fst_conv snd_conv by blast
qed

lemma manifest_read:
  assumes "relay_at lib th K pos obj start sent I (r, wi, w) start" "\<And>n. 0 < room n"
  shows "\<exists>res r' wi' w'. readAll (body_read lib) room [] (r, wi, w) = Some (res, r', wi', w') \<and> I w' \<and> sent w' = sent w \<and>
    (\<forall>x. res = Ret (x, None) \<longrightarrow> (\<exists>n. x = take n (drop start obj)) \<and>
      (whole_at lib th K pos obj start sent I (r, wi, w) start \<longrightarrow> x = drop start obj))"
proof -
  note at = relay_atD [OF assms(1)]
  obtain res s' where a: "readAll (body_read lib) room [] (r, wi, w) = Some (res, s')" "sent (snd (snd s')) = sent w"
      "\<And>x e. res = Ret (x, e) \<Longrightarrow> \<exists>n. x = take n (drop start obj)"
    using rs.read_all_ends [where room = room and acc = "[]", OF assms] by fastforce
  have "I (snd (snd s')) \<and> \<not> r_closed (fst s')"
    using a(1)
  proof (rule readAll_inv [where P = "\<lambda>s. I (snd (snd s)) \<and> \<not> r_closed (fst s)"])
    show "I (snd (snd u')) \<and> \<not> r_closed (fst u')"
      if "body_read lib n u = (q, u')" "I (snd (snd u)) \<and> \<not> r_closed (fst u)" for n u q u'
      using that by (cases u) (auto elim!: body_read_cases dest: Read_source [OF at(1)])
  qed (use at(4,5) in simp)
  moreover have "x = drop start obj" if "res = Ret (x, None)" "whole_at lib th K pos obj start sent I (r, wi, w) start" for x
  proof (rule ws.read_all_whole [where room = room, OF that(2) assms(2)])
    fix res' s''
    assume "readAll (body_read lib) room [] (r, wi, w) = Some (res', s'')" "\<And>x. res' = Ret (x, None) \<Longrightarrow> x = drop start obj"
    then show ?thesis using a(1) that(1) by auto
  qed
  ultimately show ?thesis using a by (cases s') auto
qed

lemma manifest_hook:
  assumes "manifest_rule (Some c) urlPath"
  shows "\<exists>cache'. modifyResponse fl ks urlPath fk (Some c)
      \<lparr>rs_StatusCode = st, rs_Header = hdr, rs_ContentLength = l, rs_Body = Some content\<rparr> cache =
    (and_then (wrap_err ''failed to read manifest body'' content) (\<lambda>body.
       let x = RewriteManifest fl body (ru_Claims c) (ru_PrimaryToken c) in
       Ret \<lparr>rs_StatusCode = st, rs_Header = header_set ''Content-Length'' (show_nat (length x)) (delCORSHeaders hdr),
            rs_ContentLength = int (length x), rs_Body = Some (Ret x)\<rparr>), cache')"
proof -
  have "ru_Claims c \<noteq> None" "has_suffix urlPath ''.m3u8''" "findGraceRule (ru_Claims c) \<noteq> None"
    using assms by (simp_all add: manifest_rule_def)
  then show ?thesis
    by (simp add: modifyResponse_def applyResponseRules_def rewriteManifestForGrace_def Let_def del: not_None_eq)
qed

text \<open>What the response becomes when the manifest was read, and when it was not.\<close>

lemma manifest_response_written:
  assumes "sink_ok th K pos sent I" "I w2" "sent w2 = []" "0 < b" "manifest_rule (Some c) urlPath"
    and "read_manifest h rd room body wrapped wi w = Some (Ret x, body', w2)"
    and "M = RewriteManifest fl x (ru_Claims c) (ru_PrimaryToken c)"
  shows "\<exists>o1 cache' wi' w' k. manifest_response h rd fl room ks urlPath (Some c) fk th K b resp body wrapped (cache, wi, w) =
      Some (o1, cache', wi', w') \<and> sent w' = take k M \<and> wi_statusCode wi' = rs_StatusCode resp \<and>
    (\<forall>m. o1 = Completed m \<longrightarrow> m = k \<and> k = length M) \<and> (\<forall>z. o1 \<noteq> BadGateway z)"
proof -
  obtain cache' where hook: "modifyResponse fl ks urlPath fk (Some c)
      \<lparr>rs_StatusCode = rs_StatusCode resp, rs_Header = rs_Header resp, rs_ContentLength = rs_ContentLength resp, rs_Body = Some (Ret x)\<rparr> cache =
    (Ret \<lparr>rs_StatusCode = rs_StatusCode resp, rs_Header = header_set ''Content-Length'' (show_nat (length M)) (delCORSHeaders (rs_Header resp)),
          rs_ContentLength = int (length M), rs_Body = Some (Ret M)\<rparr>, cache')"
    using manifest_hook [OF assms(5), of fl ks fk "rs_StatusCode resp" "rs_Header resp" "rs_ContentLength resp" "Ret x" cache]
    by (auto simp: assms(7) Let_def)
  define w3 where "w3 = k_header K (rs_StatusCode resp) (header_set ''Content-Length'' (show_nat (length M)) (delCORSHeaders (rs_Header resp))) w2"
  let ?wi = "RWI_WriteHeader (rs_StatusCode resp) wi"
  have w3: "I w3" "sent w3 = []" "wi_statusCode ?wi = rs_StatusCode resp"
    using sink_okD(3) [OF assms(1,2)] assms(3) by (simp_all add: RWI_WriteHeader_def w3_def)
  obtain m e y wi' w4 where cp: "copyBuffer string_read (client_write th K) b 0 (M, ?wi, w3) = Some (Ret (m, e), y, wi', w4)"
      "m \<le> length M" "sent w4 = take m M" "wi_statusCode wi' = rs_StatusCode resp" "e = None \<longrightarrow> m = length M"
    using string_copied [OF assms(1) w3(1) assms(4), of M ?wi] unfolding w3(2,3) append_Nil by (elim exE conjE) (rule that)
  have "manifest_response h rd fl room ks urlPath (Some c) fk th K b resp body wrapped (cache, wi, w) =
      Some (ending (Ret (m, e)), cache', wi', w4)"
    using assms(6) hook cp(1) by (simp add: manifest_response_def w3_def)
  moreover have "\<forall>m'. ending (Ret (m, e)) = Completed m' \<longrightarrow> m' = m \<and> m = length M" "\<forall>z. ending (Ret (m, e)) \<noteq> BadGateway z"
    using cp(5) by (cases e; simp)+
  ultimately show ?thesis using cp(3,4) by blast
qed

lemma manifest_response_failed:
  assumes "sink_ok th K pos sent I" "I (h_Close h body' w2)" "sent (h_Close h body' w2) = []" "manifest_rule (Some c) urlPath"
    and "read_manifest h rd room body wrapped wi w = Some (Fail z, body', w2)"
  shows "\<exists>x cache' w'. manifest_response h rd fl room ks urlPath (Some c) fk th K b resp body wrapped (cache, wi, w) =
      Some (BadGateway x, cache', RWI_WriteHeader 502 wi, w') \<and> sent w' = []"
proof -
  obtain cache' where "modifyResponse fl ks urlPath fk (Some c)
      \<lparr>rs_StatusCode = rs_StatusCode resp, rs_Header = rs_Header resp, rs_ContentLength = rs_ContentLength resp, rs_Body = Some (Fail z)\<rparr> cache =
    (Fail (ErrWrap ''failed to read manifest body'' z), cache')"
    using manifest_hook [OF assms(4), of fl ks fk "rs_StatusCode resp" "rs_Header resp" "rs_ContentLength resp" "Fail z" cache] by auto
  moreover have "sent (k_header K 502 fmempty (h_Close h body' w2)) = []" using sink_okD(3) [OF assms(1,2)] assms(3) by simp
  ultimately show ?thesis using assms(5) by (simp add: manifest_response_def)
qed

text \<open>A response with a manifest, from the state in which the round trip leaves the world.\<close>

lemma manifest_response_delivers:
  assumes "relay_at (blib_of h rd rec) th K pos obj start sent I (r, wi, w) start" "\<And>n. 0 < room n" "0 < b"
    and "manifest_rule (Some c) urlPath" "sent w = []"
  shows "\<exists>o1 cache' wi' w' n k. manifest_response h rd fl room ks urlPath (Some c) fk th K b resp body (Some (r, rec)) (cache, wi, w) =
      Some (o1, cache', wi', w') \<and>
    sent w' = take k (RewriteManifest fl (take n (drop start obj)) (ru_Claims c) (ru_PrimaryToken c)) \<and>
    (whole_at (blib_of h rd rec) th K pos obj start sent I (r, wi, w) start \<longrightarrow> take n (drop start obj) = drop start obj) \<and>
    (sent w' \<noteq> [] \<longrightarrow> wi_statusCode wi' = rs_StatusCode resp) \<and>
    (\<forall>m. o1 = Completed m \<longrightarrow> m = k \<and> wi_statusCode wi' = rs_StatusCode resp \<and>
       k = length (RewriteManifest fl (take n (drop start obj)) (ru_Claims c) (ru_PrimaryToken c))) \<and>
    (\<forall>x. o1 = BadGateway x \<longrightarrow> sent w' = [] \<and> wi_statusCode wi' = 502)" (is "\<exists>o1 cache' wi' w' n k. ?resp o1 cache' wi' w' n k")
proof -
  let ?lib = "blib_of h rd rec"
  note at = relay_atD [OF assms(1)]
  obtain res r' wi0 w' where a: "readAll (body_read ?lib) room [] (r, wi, w) = Some (res, r', wi0, w')" "I w'" "sent w' = sent w"
      "\<And>x. res = Ret (x, None) \<Longrightarrow> (\<exists>n. x = take n (drop start obj)) \<and>
        (whole_at ?lib th K pos obj start sent I (r, wi, w) start \<longrightarrow> x = drop start obj)"
    using manifest_read [where room = room, OF assms(1,2)] by blast
  have closes: "I (h_Close h y u) \<and> sent (h_Close h y u) = sent u" if "I u" for y u
    using source_okD(2) [OF at(1) that, of y] by (simp add: blib_of_def)
  let ?w2 = "h_Close h (r_body r') w'"
  have w2: "I ?w2" "sent ?w2 = []" "I (h_Close h (r_body r') ?w2)" "sent (h_Close h (r_body r') ?w2) = []"
    using closes a(2,3) assms(5) by simp_all
  have rm: "read_manifest h rd room body (Some (r, rec)) wi w = Some (read_result res, r_body r', case res of Panic k \<Rightarrow> w' | _ \<Rightarrow> ?w2)"
    using a(1) by (simp add: read_manifest_def)
  consider (read) x where "res = Ret (x, None)" | (failed) z where "read_result res = Fail z" "\<And>k. res \<noteq> Panic k" | (died) k where "res = Panic k"
    by (cases res rule: read_result.cases) auto
  then show ?thesis
  proof cases
    case (read x)
    then obtain n where x: "x = take n (drop start obj)" using a(4) by blast
    obtain o1 cache' wi' w4 k where
        "manifest_response h rd fl room ks urlPath (Some c) fk th K b resp body (Some (r, rec)) (cache, wi, w) = Some (o1, cache', wi', w4)"
        "sent w4 = take k (RewriteManifest fl x (ru_Claims c) (ru_PrimaryToken c))" "wi_statusCode wi' = rs_StatusCode resp"
        "\<forall>m. o1 = Completed m \<longrightarrow> m = k \<and> k = length (RewriteManifest fl x (ru_Claims c) (ru_PrimaryToken c))" "\<forall>z. o1 \<noteq> BadGateway z"
      using manifest_response_written [OF at(2) w2(1,2) assms(3,4) rm [unfolded read outcome.case read_result.simps] refl, of fl ks fk resp cache]
      by blast
    then have "?resp o1 cache' wi' w4 n k" using a(4) [OF read] unfolding x by blast
    then show ?thesis by blast
  next
    case (failed z)
    then have "read_manifest h rd room body (Some (r, rec)) wi w = Some (Fail z, r_body r', ?w2)" using rm by (cases res) auto
    from manifest_response_failed [OF at(2) w2(3,4) assms(4) this, of fl ks fk b resp cache]
    obtain y cache' w4 where "manifest_response h rd fl room ks urlPath (Some c) fk th K b resp body (Some (r, rec)) (cache, wi, w) =
        Some (BadGateway y, cache', RWI_WriteHeader 502 wi, w4)" "sent w4 = []" by blast
    then have "?resp (BadGateway y) cache' (RWI_WriteHeader 502 wi) w4 (length obj) 0" by (simp add: RWI_WriteHeader_def)
    then show ?thesis by blast
  next
    case (died k)
    obtain cache' where "manifest_response h rd fl room ks urlPath (Some c) fk th K b resp body (Some (r, rec)) (cache, wi, w) = Some (Died k, cache', wi, w')"
      using rm died manifest_hook [OF assms(4), of fl ks fk "rs_StatusCode resp" "rs_Header resp" "rs_ContentLength resp" "Panic k" cache]
      by (auto simp: manifest_response_def)
    then have "?resp (Died k) cache' wi w' (length obj) 0" using a(3) assms(5) by simp
    then show ?thesis by blast
  qed
qed

text \<open>C9: Serving a manifest ends, and the client never sees a manifest that is cut by the upstream: what it is sent is a
  prefix of the rewriting of what was read, the whole of it if the response is completed, and where ends of file are
  honest what was read is the whole rest of the object, whichever pods it came from. If the manifest cannot be read, the client is
  sent nothing but a 502.\<close>

theorem manifest_delivered:
  assumes "upstream_contract e h rd pos obj" "client_apart e h rd sent I" "sink_ok th K pos sent I"
    and "rp_Transport rp = RetryTransport" "0 < b" "I w1" "sent w1 = []" "\<And>n. 0 < room n"
    and "proxy_RoundTrip e h (Some c) RetryTransport (out_request rp req) w = (Ret (resp, Some (r, rec)), w1)"
    and "manifest_rule (Some ru) (u_Path (rq_URL (answered_request h RetryTransport (out_request rp req) w)))"
  shows "\<exists>o1 cache' wi' w' start n k M. ServeHTTP e h rd fl room ks (Some ru) fk (Some c) rp th K b req (cache, wi, w) = Some (o1, cache', wi', w') \<and>
    M = RewriteManifest fl (take n (drop start obj)) (ru_Claims ru) (ru_PrimaryToken ru) \<and> sent w' = take k M \<and>
    (rs_StatusCode resp = 200 \<longrightarrow> start = 0) \<and>
    (sent w' \<noteq> [] \<longrightarrow> wi_statusCode wi' = rs_StatusCode resp) \<and>
    (\<forall>m. o1 = Completed m \<longrightarrow> m = length M \<and> sent w' = M \<and> wi_statusCode wi' = rs_StatusCode resp) \<and>
    (\<forall>x. o1 = BadGateway x \<longrightarrow> sent w' = [] \<and> wi_statusCode wi' = 502) \<and>
    (eof_ok (blib_of h rd rec) pos obj start \<and> (rs_ContentLength resp < 0 \<or> rs_ContentLength resp = int (length obj - start)) \<longrightarrow>
      M = RewriteManifest fl (drop start obj) (ru_Claims ru) (ru_PrimaryToken ru))"
proof -
  have "retry_RoundTrip e h (redirect_RoundTrip h) (Some c) (out_request rp req) w = (Ret (resp, Some (r, rec)), w1)"
    using assms(9) by (simp add: proxy_RoundTrip_def)
  with assms(1) show ?thesis
  proof (rule wrapped_stream)
    fix start
    let ?lib = "blib_of h rd rec"
    assume st: "stream_at ?lib pos obj start (r, w1) start" "\<not> r_closed r" "range_ok (out_request rp req) resp start"
      "r_expected r = rs_ContentLength resp" "rec = reconnectFn e h c (out_request rp req) (int start)" "rs_Body resp = Some (r_body r)"
    have src: "source_ok ?lib sent I" unfolding st(5) by (rule client_apart_source_ok [OF assms(2)])
    have at: "relay_at ?lib th K pos obj start sent I (r, wi, w1) start"
      using st(1,2) src assms(3,6) by (simp add: relay_at_def)
    let ?M = "\<lambda>y. RewriteManifest fl y (ru_Claims ru) (ru_PrimaryToken ru)"
    obtain o1 cache' wi' w' n k where d:
        "manifest_response h rd fl room ks (u_Path (rq_URL (answered_request h RetryTransport (out_request rp req) w))) (Some ru) fk th K b
           resp (r_body r) (Some (r, rec)) (cache, wi, w1) = Some (o1, cache', wi', w')"
        "sent w' = take k (?M (take n (drop start obj)))"
        "whole_at ?lib th K pos obj start sent I (r, wi, w1) start \<longrightarrow> take n (drop start obj) = drop start obj"
        "sent w' \<noteq> [] \<longrightarrow> wi_statusCode wi' = rs_StatusCode resp"
        "\<And>m. o1 = Completed m \<Longrightarrow> m = k \<and> wi_statusCode wi' = rs_StatusCode resp \<and> k = length (?M (take n (drop start obj)))"
        "\<And>x. o1 = BadGateway x \<Longrightarrow> sent w' = [] \<and> wi_statusCode wi' = 502"
      using manifest_response_delivers [where room = room and fl = fl, OF at assms(8,5,10,7)] by blast
    let ?X = "?M (take n (drop start obj))"
    have srv: "ServeHTTP e h rd fl room ks (Some ru) fk (Some c) rp th K b req (cache, wi, w) = Some (o1, cache', wi', w')"
      using assms(9,10) d(1) st(6) by (simp add: ServeHTTP_def assms(4))
    have zero: "rs_StatusCode resp = 200 \<longrightarrow> start = 0" using st(3) by (simp add: range_ok_def)
    have completed: "\<forall>m. o1 = Completed m \<longrightarrow> m = length ?X \<and> sent w' = ?X \<and> wi_statusCode wi' = rs_StatusCode resp"
      using d(2,5) by (metis order_refl take_all)
    have failed: "\<forall>x. o1 = BadGateway x \<longrightarrow> sent w' = [] \<and> wi_statusCode wi' = 502" using d(6) by blast
    have honest: "eof_ok ?lib pos obj start \<and> (rs_ContentLength resp < 0 \<or> rs_ContentLength resp = int (length obj - start)) \<longrightarrow>
        ?X = ?M (drop start obj)"
    proof
      assume "eof_ok ?lib pos obj start \<and> (rs_ContentLength resp < 0 \<or> rs_ContentLength resp = int (length obj - start))"
      then have "whole_at ?lib th K pos obj start sent I (r, wi, w1) start" using at st(4) by (simp add: whole_at_def)
      then show "?X = ?M (drop start obj)" using d(3) by metis
    qed
    show ?thesis
      by (rule exI [of _ o1], rule exI [of _ cache'], rule exI [of _ wi'], rule exI [of _ w'], rule exI [of _ start], rule exI [of _ n],
          rule exI [of _ k], rule exI [of _ ?X]) (intro conjI srv refl d(2) zero d(4) completed failed honest)
  qed
qed

text \<open>A pod that serves the playlist from its start; the world has the position of its only body and what the client took.\<close>

definition play_pos :: "unit \<Rightarrow> string pods \<Rightarrow> nat" where
  "play_pos b w = (case w of (ig, k, pr, x) \<Rightarrow> min (length demo_playlist) k)"

definition play_read :: "unit \<Rightarrow> nat \<Rightarrow> string pods \<Rightarrow> (string \<times> ioerr option) \<times> string pods" where
  "play_read b n w =
     (case w of (ig, k, pr, x) \<Rightarrow>
      let p = play_pos b w; d = take n (drop p demo_playlist)
      in ((d, if p < length demo_playlist then None else Some IoEOF), (ig, p + length d, pr, x)))"

definition play_hlib :: "(unit, string pods) HLib" where
  "play_hlib = \<lparr>h_transport = (\<lambda>req w. if play_pos () w = 0
       then (Ret \<lparr>rs_StatusCode = 200, rs_Header = fmempty, rs_ContentLength = -1, rs_Body = Some ()\<rparr>, w)
       else (Fail (ErrMsg ''unreachable''), w)),
     h_external = (\<lambda>req w. (Fail (ErrMsg ''unreachable''), w)), h_NewRequest = (\<lambda>m u. Fail (ErrMsg ''unreachable'')),
     h_Close = (\<lambda>b w. w), h_empty_body = ()\<rparr>"

definition play_conn :: "(string pods) Conn" where
  "play_conn = \<lparr>k_now = (\<lambda>w. (0, w)), k_header = (\<lambda>st hdr w. w),
     k_write = (\<lambda>d w. case w of (ig, k, pr, x) \<Rightarrow> ((length d, None), (ig, k, pr, x @ d))), k_flush = (\<lambda>w. w)\<rparr>"

abbreviation play_sent :: "string pods \<Rightarrow> string" where "play_sent w \<equiv> snd (snd (snd w))"

definition play_request :: Request where
  "play_request = sample_request\<lparr>rq_URL := \<lparr>u_Path = ''/f.m3u8'', u_RawQuery = [], u_Host = ''10.1:80''\<rparr>\<rparr>"

definition play_rules :: RulesContext where
  "play_rules = \<lparr>ru_Claims = grace_claims, ru_PrimaryToken = ''P'', ru_InfoHash = ''00000''\<rparr>"

lemma play_contract: "upstream_contract pods_slib play_hlib play_read play_pos demo_playlist"
proof -
  have len: "length demo_playlist < 2 ^ 63" by (simp add: demo_playlist_def)
  have "play_pos b (ig, snd w) = play_pos b w" for ig b w by (simp add: play_pos_def split_beta)
  then have "env_keeps pods_slib play_hlib (\<lambda>w. play_pos b w = p)" for b p
    by (simp add: env_keeps_def pods_slib_def play_hlib_def)
  moreover have "bodies_ok play_read (\<lambda>b w. w) play_pos demo_playlist"
    using len by (auto simp: bodies_ok_def play_read_def play_pos_def Let_def intro: take_drop_min)
  ultimately show ?thesis by (auto simp: upstream_contract_def play_hlib_def pods_ok_def range_ok_def)
qed

lemma play_apart: "client_apart pods_slib play_hlib play_read play_sent (\<lambda>_. True)"
  by (auto simp: client_apart_def env_keeps_def same_def pods_slib_def play_hlib_def play_read_def play_pos_def Let_def split_beta)

lemma play_sink: "sink_ok None play_conn play_pos play_sent (\<lambda>_. True)"
  by (auto simp: sink_ok_def same_obs play_conn_def play_pos_def)

lemma play_opened:
  "\<exists>r rec. proxy_RoundTrip pods_slib play_hlib (Some demo_rc) RetryTransport (out_request pods_proxy play_request) ([], 0, [], []) =
     (Ret (\<lparr>rs_StatusCode = 200, rs_Header = fmempty, rs_ContentLength = -1, rs_Body = Some ()\<rparr>, Some (r, rec)), ([], 0, [], []))"
  by (simp add: proxy_RoundTrip_def retry_RoundTrip_def redirect_RoundTrip_def play_hlib_def play_pos_def orig_start_def
      numeral_nat is_redirect_def demo_rc_def status_defs)

lemma play_rule: "manifest_rule (Some play_rules) (u_Path (rq_URL (answered_request play_hlib RetryTransport (out_request pods_proxy play_request) ([], 0, [], []))))"
proof -
  have "findGraceRule grace_claims \<noteq> None" "grace_claims \<noteq> None" using findGraceRule_demo by (simp_all add: grace_claims_def)
  moreover have "u_Path (rq_URL (answered_request play_hlib RetryTransport (out_request pods_proxy play_request) ([], 0, [], []))) = ''/f.m3u8''"
    by (simp add: answered_request_def play_hlib_def play_pos_def numeral_nat is_redirect_def status_defs out_request_def director_def play_request_def)
  moreover have "has_suffix ''/f.m3u8'' ''.m3u8''" by code_simp
  ultimately show ?thesis by (simp add: manifest_rule_def play_rules_def)
qed

theorem manifest_delivered_witness:
  "\<exists>o1 cache' wi' w' n k. ServeHTTP pods_slib play_hlib play_read int_floats (\<lambda>n. 512) [] (Some play_rules) None (Some demo_rc) pods_proxy None
      play_conn 32768 play_request (None, NewResponseWriterInterceptor [] 0, ([], 0, [], [])) = Some (o1, cache', wi', w') \<and>
    play_sent w' = take k (RewriteManifest int_floats (take n demo_playlist) grace_claims ''P'') \<and>
    (play_sent w' \<noteq> [] \<longrightarrow> wi_statusCode wi' = 200)"
proof -
  obtain r rec where o: "proxy_RoundTrip pods_slib play_hlib (Some demo_rc) RetryTransport (out_request pods_proxy play_request) ([], 0, [], []) =
     (Ret (\<lparr>rs_StatusCode = 200, rs_Header = fmempty, rs_ContentLength = -1, rs_Body = Some ()\<rparr>, Some (r, rec)), ([], 0, [], []))"
    using play_opened by blast
  have fields: "rp_Transport pods_proxy = RetryTransport" "play_sent ([], 0, [], []) = []" "(0 :: nat) < 32768" "\<And>n :: nat. (0 :: nat) < 512"
      "ru_Claims play_rules = grace_claims" "ru_PrimaryToken play_rules = ''P''"
    by (simp_all add: pods_proxy_def play_rules_def)
  obtain o1 cache' wi' w' start n k M where d:
      "ServeHTTP pods_slib play_hlib play_read int_floats (\<lambda>n. 512) [] (Some play_rules) None (Some demo_rc) pods_proxy None
        play_conn 32768 play_request (None, NewResponseWriterInterceptor [] 0, ([], 0, [], [])) = Some (o1, cache', wi', w')"
      "M = RewriteManifest int_floats (take n (drop start demo_playlist)) (ru_Claims play_rules) (ru_PrimaryToken play_rules)"
      "play_sent w' = take k M" "start = 0" "play_sent w' \<noteq> [] \<longrightarrow> wi_statusCode wi' = 200"
    using manifest_delivered [OF play_contract play_apart play_sink fields(1,3) TrueI fields(2,4) o play_rule,
        where fl = int_floats and ks = "[]" and fk = None and cache = None and wi = "NewResponseWriterInterceptor [] 0"]
    by (simp only: Response.simps simp_thms) (elim exE conjE, erule (4) that)
  then show ?thesis by (auto simp: fields(5,6))
qed

section \<open>Requests without a body\<close>

text \<open>The answer to a \<open>HEAD\<close> request has an empty body and the length of the manifest in its headers. The hook does not look at
  the method: it announces the length of the rewritten empty body instead.\<close>

lemma RewriteManifest_empty: "RewriteManifest fl [] claims primary = []"
proof -
  have "split_after LF [] = [[]]" "\<not> has_prefix [] tagSessionOffset" "\<not> has_prefix [] tagExtinf" "line_core [] = []"
      "trim_left [CHR '' '', TAB] [] = []" by code_simp+
  then show ?thesis by (simp add: RewriteManifest_def stripSessionOffsetLine_def rewrite_loop.simps Let_def split: option.split)
qed

lemma head_of_manifest:
  assumes "manifest_rule (Some c) urlPath"
    and "fst (modifyResponse fl ks urlPath fk (Some c)
      \<lparr>rs_StatusCode = 200, rs_Header = hdr, rs_ContentLength = l, rs_Body = Some (Ret [])\<rparr> cache) = Ret resp'"
  shows "rs_ContentLength resp' = 0 \<and> header_get (rs_Header resp') ''Content-Length'' = ''0''"
proof -
  have "show_nat 0 = ''0''" by code_simp
  then show ?thesis using assms(2) manifest_hook [OF assms(1), of fl ks fk 200 hdr l "Ret []" cache]
    by (auto simp: RewriteManifest_empty Let_def)
qed

end
