(* ===== verification/Request_Context.thy ===== *)
theory Request_Context
  imports Web_Handlers
begin

text \<open>
  What travels with a request and what is counted on the way: the values that \<open>proxyHTTP\<close> puts into the context of a request
  and the hooks read back (\<open>services/retry_transport.go\<close>, \<open>services/claims.go\<close>, \<open>services/file_size_cache.go\<close>), the chain of
  the response rules (\<open>services/rules.go\<close>), and the counter of retry attempts (\<open>services/retry_transport.go\<close>).
\<close>

section \<open>Context values\<close>

text \<open>A context is a chain of key-value pairs, the latest first; the keys are compared with their types. A value has the
  type it was stored with, and is read with a type assertion.\<close>

datatype ctxkey = retryContextKey | rulesCtxKey | fileKeyCtxKey | OtherKey string

datatype ctxvalue = CRetry RetryContext | CRules RulesContext | CFileKey string string | COther string

type_synonym reqctx = "(ctxkey \<times> ctxvalue) list"

definition WithValue :: "reqctx \<Rightarrow> ctxkey \<Rightarrow> ctxvalue \<Rightarrow> reqctx" where
  "WithValue c k v = (k, v) # c"

definition ctx_Value :: "reqctx \<Rightarrow> ctxkey \<Rightarrow> ctxvalue option" where
  "ctx_Value c k = map_of c k"

definition WithRetryContext :: "reqctx \<Rightarrow> RetryContext \<Rightarrow> reqctx" where
  "WithRetryContext c rc = WithValue c retryContextKey (CRetry rc)"

definition GetRetryContext :: "reqctx \<Rightarrow> RetryContext option" where
  "GetRetryContext c = (case ctx_Value c retryContextKey of Some (CRetry rc) \<Rightarrow> Some rc | _ \<Rightarrow> None)"

definition WithRulesContext :: "reqctx \<Rightarrow> RulesContext \<Rightarrow> reqctx" where
  "WithRulesContext c rc = WithValue c rulesCtxKey (CRules rc)"

definition GetRulesContext :: "reqctx \<Rightarrow> RulesContext option" where
  "GetRulesContext c = (case ctx_Value c rulesCtxKey of Some (CRules rc) \<Rightarrow> Some rc | _ \<Rightarrow> None)"

definition WithFileKey :: "reqctx \<Rightarrow> string \<Rightarrow> string \<Rightarrow> reqctx" where
  "WithFileKey c infoHash path = WithValue c fileKeyCtxKey (CFileKey infoHash path)"

definition GetFileKey :: "reqctx \<Rightarrow> (string \<times> string) option" where
  "GetFileKey c = (case ctx_Value c fileKeyCtxKey of Some (CFileKey h p) \<Rightarrow> Some (h, p) | _ \<Rightarrow> None)"

text \<open>The end of \<open>proxyHTTP\<close>: the context with which the reverse proxy is called.\<close>

definition request_context ::
  "WebServer \<Rightarrow> MapClaims \<Rightarrow> Source \<Rightarrow> Inbound \<Rightarrow> reqctx \<Rightarrow> reqctx" where
  "request_context s claims src r c =
     (let c1 = (if 0 < ws_maxRetries s
                then WithRetryContext c \<lparr>rc_Src = src, rc_Claims = claims, rc_Cfg = ws_cfg s, rc_MaxRetries = ws_maxRetries s\<rparr>
                else c);
          c2 = WithRulesContext c1 \<lparr>ru_Claims = claims, ru_PrimaryToken = query_of r ''token'', ru_InfoHash = s_InfoHash src\<rparr>
      in WithFileKey c2 (s_InfoHash src) (s_Path src))"

lemmas context_defs = GetRetryContext_def GetRulesContext_def GetFileKey_def WithRetryContext_def WithRulesContext_def
  WithFileKey_def WithValue_def ctx_Value_def

text \<open>What the handler puts into the context of a request is what the transport and the response hook take out of it: the
  three values do not hide each other, whatever else the context carries, and without retries the transport finds no retry context.\<close>

theorem context_roundtrip:
  assumes "sv = serving_of s claims t src r throttler pr" "ctx_Value c retryContextKey = None"
  shows "GetRetryContext (request_context s claims src r c) = sv_retry sv \<and>
    GetRulesContext (request_context s claims src r c) = Some (sv_rules sv) \<and>
    GetFileKey (request_context s claims src r c) = Some (sv_fileKey sv) \<and>
    (\<forall>k. ctx_Value (request_context s claims src r c) (OtherKey k) = ctx_Value c (OtherKey k))"
  using assms by (simp add: request_context_def context_defs serving_of_def Let_def)

theorem context_roundtrip_witness:
  "GetFileKey (request_context demo_server None demo_source demo_inbound [(OtherKey ''server'', COther ''srv'')]) = Some (''00000'', ''/f'')"
  using context_roundtrip [where s = demo_server and claims = None and t = None and src = demo_source and r = demo_inbound
      and throttler = None and pr = "\<lparr>rp_Host = [], rp_Transport = RetryTransport\<rparr>"
      and c = "[(OtherKey ''server'', COther ''srv'')]", OF refl]
  by (simp add: ctx_Value_def serving_of_def demo_source_def)

section \<open>Response rules\<close>

definition responseRuleHandlers ::
  "'f FloatLib \<Rightarrow> string \<Rightarrow> (string outcome Response \<Rightarrow> RulesContext \<Rightarrow> string outcome Response outcome) list" where
  "responseRuleHandlers fl urlPath = [rewriteManifestForGrace fl urlPath]"

text \<open>The handlers run one after the other on the same response, up to the first error.\<close>

fun run_handlers ::
  "(string outcome Response \<Rightarrow> RulesContext \<Rightarrow> string outcome Response outcome) list \<Rightarrow> RulesContext \<Rightarrow>
   string outcome Response \<Rightarrow> string outcome Response outcome" where
  "run_handlers [] rc r = Ret r"
| "run_handlers (h # hs) rc r = and_then (h r rc) (run_handlers hs rc)"

text \<open>The entry point of the rules runs the registered chain exactly for requests with claims.\<close>

theorem applyResponseRules_runs_chain:
  "applyResponseRules fl urlPath r (GetRulesContext c) =
     (case GetRulesContext c of
        Some rc \<Rightarrow> if ru_Claims rc = None then Ret r else run_handlers (responseRuleHandlers fl urlPath) rc r
      | None \<Rightarrow> Ret r)"
proof -
  have "run_handlers [h] rc r = h r rc" for h rc by (cases "h r rc") simp_all
  then show ?thesis by (simp add: applyResponseRules_def responseRuleHandlers_def split: option.split)
qed

section \<open>The counter of retry attempts\<close>

text \<open>The \<open>outcome\<close> label a read counts under, if any.\<close>

definition retry_outcome :: "('b, 'w) BLib \<Rightarrow> nat \<Rightarrow> 'b RRC \<times> 'w \<Rightarrow> string option" where
  "retry_outcome lib n s =
     (let (r, w) = s in
      if r_closed r then None
      else let ((d, err), w1) = b_read lib (r_body r) n w in
      if err = None \<or> err = Some IoEOF then None
      else if 0 < length d then None
      else if \<not> isRetryableError err then None
      else if 0 \<le> r_expected r \<and> r_expected r \<le> r_bytesRead r then None
      else if r_maxRetries r \<le> r_retries r then Some ''exhausted''
      else case fst (b_reconnect lib (r_bytesRead r) (r_failedHost r) (b_close lib (r_body r) w1)) of
             Panic k \<Rightarrow> None
           | Fail x \<Rightarrow> Some ''failure''
           | Ret UpstreamEOF \<Rightarrow> Some ''eof''
           | Ret (NewBody b) \<Rightarrow> Some ''success'')"

fun retry_outcomes :: "('b, 'w) BLib \<Rightarrow> nat list \<Rightarrow> 'b RRC \<times> 'w \<Rightarrow> string list" where
  "retry_outcomes lib [] s = []"
| "retry_outcomes lib (n # ns) s =
     (case retry_outcome lib n s of None \<Rightarrow> [] | Some l \<Rightarrow> [l]) @ retry_outcomes lib ns (snd (read_data lib n s))"

lemma retry_outcome_counts:
  assumes "read_data lib n (r, w) = (d, (r', w'))"
  shows "r_retries r' = r_retries r + (case retry_outcome lib n (r, w) of Some l \<Rightarrow> if l = ''exhausted'' then 0 else 1 | None \<Rightarrow> 0)"
    and "retry_outcome lib n (r, w) = Some ''exhausted'' \<Longrightarrow> r_maxRetries r \<le> r_retries r \<and> d = []"
    and "r_maxRetries r' = r_maxRetries r"
  using assms
  by (auto simp: read_data_def Read_def retry_outcome_def Let_def split: if_splits outcome.splits reconn.splits prod.splits)

text \<open>Every attempt to reconnect is counted once: over any sequence of reads, the attempts that succeed, fail or find the object
  delivered are as many as the reader has made, and \<open>exhausted\<close> is counted only by reads that have used up their retries.\<close>

theorem retry_attempts_counted:
  assumes "read_seq (read_data lib) ns (r, w) = (ds, (r', w'))"
  shows "r_retries r' = r_retries r + int (length (filter (\<lambda>l. l \<noteq> ''exhausted'') (retry_outcomes lib ns (r, w)))) \<and>
    (''exhausted'' \<in> set (retry_outcomes lib ns (r, w)) \<longrightarrow> r_maxRetries r \<le> r_retries r')"
  using assms
proof (induction ns arbitrary: r w ds)
  case (Cons n ns)
  obtain d r1 w1 where d: "read_data lib n (r, w) = (d, (r1, w1))" by (metis prod.collapse)
  obtain es where es: "read_seq (read_data lib) ns (r1, w1) = (es, (r', w'))"
    using Cons.prems d by (auto split: prod.splits)
  note one = retry_outcome_counts [OF d] and ih = Cons.IH [OF es]
  show ?case
    using one ih by (cases "retry_outcome lib n (r, w)") (auto simp: d split: if_splits)
qed simp

theorem retry_attempts_counted_witness:
  "retry_outcomes demo_blib [1, 1, 1, 1] (demo_rrc, \<lambda>_. 0) = [''success''] \<and>
   (\<exists>ds r' w'. read_seq (read_data demo_blib) [1, 1, 1, 1] (demo_rrc, \<lambda>_. 0) = (ds, (r', w')) \<and> r_retries r' = 1)"
proof -
  obtain ds r' w' where r: "read_seq (read_data demo_blib) [1, 1, 1, 1] (demo_rrc, \<lambda>_. 0) = (ds, (r', w'))" by (metis prod.collapse)
  have l: "retry_outcomes demo_blib [1, 1, 1, 1] (demo_rrc, \<lambda>_. 0) = [''success'']" by code_simp
  have "r_retries r' = 1" using retry_attempts_counted [OF r] by (simp only: l) (simp add: demo_rrc_def)
  with r l show ?thesis by blast
qed

end
