(* ===== verification/Spec2Isabelle.thy ===== *)
theory Spec2Isabelle
  imports Startup Bandwidth_Fleet Session_Races Handling Manifest_Serving Request_Context
begin

text \<open>
  A model of \<^emph>\<open>torrent-http-proxy\<close>, the HTTP proxy that stands in front of a cluster of torrent
  seeders and transcoders: it parses the URL of a request into a torrent, a path and an optional
  modification, checks the token, limits the requests of a session, finds a pod that serves the
  torrent, and streams the response, resuming on another pod when the connection breaks.

  \<^bold>\<open>Outcomes.\<close> A call that may fail returns an \<open>outcome\<close>: a value, an error or a panic. A pointer is an
  option; state is passed explicitly. Code outside the repository (the Kubernetes API, \<open>lazymap\<close>,
  \<open>net\<close>, JWT, HTTP transports) is an argument or a record of functions, and what is assumed of it is a
  named predicate (\<open>net_contract\<close>, \<open>jwt_contract\<close>, \<open>ignore_contract\<close>, \<open>upstream_ok\<close>,
  \<open>upstream_contract\<close>, \<open>client_apart\<close>, \<open>sink_ok\<close>, \<open>accurate\<close>, \<open>sole_waiter\<close>, \<open>lone_waiter\<close>, \<open>timed\<close>) that a theorem
  takes as a hypothesis and a witness satisfies. Calls that read changing state (caches, pods) run in
  a world that is threaded through. Go's randomised map iteration is an argument (the visited keys).

  \<^bold>\<open>Theories.\<close>
  \<^item> \<open>Prelude\<close>, \<open>Go_Strings\<close>, \<open>Go_Paths\<close>, \<open>Go_URL\<close>, \<open>Go_HTTP\<close>: the parts of the language and its
    library that the code uses (strings, \<open>strconv\<close>, \<open>filepath.Clean\<close>, query values, headers, the
    errors of a body, 32- and 64-bit arithmetic), with the lemmas the components share.
  \<^item> \<open>Services_Config\<close> (\<open>services_config.go\<close>): the services of the cluster; the locale \<open>mod_directory\<close>
    is what the parser and the resolver rely on.
  \<^item> \<open>URL_Parser\<close> (\<open>url_parser.go\<close>): \<open>extractMod\<close> and \<open>Parse\<close>. Shown: which tilde is cut, the round
    trip with the printed suffix, no path traversal, exactly which URLs are accepted, that the
    origin path is bare, and independence of the map order.
  \<^item> \<open>Claims\<close> (\<open>claims.go\<close>): token validation and the rules of a token.
  \<^item> \<open>File_Size_Cache\<close> (\<open>file_size_cache.go\<close>): bounded size, only stored sizes are reported; the
    locale \<open>size_source\<close> is the lookup the limiter uses.
  \<^item> \<open>Subnets\<close> (\<open>sameSubnet\<close> of \<open>web.go\<close>, \<open>subnetKey\<close> of \<open>session_limiter.go\<close>): both agree.
  \<^item> \<open>Session_Limiter\<close> (\<open>session_limiter.go\<close>): the atomic sections, \<open>Acquire\<close> and the release function;
    the locale \<open>slot_pool\<close> is interpreted on the big-file slots of a torrent and of a session. The
    step relation \<open>lim_step\<close> runs whole requests; its invariant gives the caps, the absence of
    leaks, and that \<open>Acquire\<close> refines the abstract rule \<open>decide\<close> on the requests in flight.
  \<^item> \<open>K8s\<close> (\<open>services/k8s\<close>): client, nodes and endpoints.
  \<^item> \<open>Service_Location\<close> (\<open>service_location.go\<close>): the locale \<open>address_picker\<close> is interpreted on both
    distributions and on their composition with the local preference; locations are listed and not
    ignored, probes were passed, fallbacks differ from the excluded pod.
  \<^item> \<open>Resolver\<close> (\<open>resolver.go\<close>): a parsed source always has a configuration.
  \<^item> \<open>Transports\<close> and \<open>HTTP_Proxy\<close> (\<open>http_proxy.go\<close>): the stub and the redirect-following transport,
    the proxy of a location, and the hook on responses.
  \<^item> \<open>Retry_Transport\<close> (\<open>retry_transport.go\<close>): the locale \<open>byte_stream\<close> is interpreted on the
    retrying reader; the client receives the bytes of the object in order, a reader reconnects at most as often as it may (\<open>counted\<close>
    counts its reconnections in the world), and which pod a reconnection asks for what. \<open>Upstream\<close>: the same from what HTTP
    promises of the pods (\<open>pods_ok\<close>), through the fallback location, the request for the rest and the redirects.
  \<^item> \<open>Streaming\<close> (\<open>retry_transport.go\<close>, \<open>response_writer_interceptor.go\<close>, \<open>throttled_request_writer.go\<close> and the copy loop of
    \<open>httputil.ReverseProxy\<close>): the locales \<open>relay\<close> and \<open>whole_relay\<close>, interpreted on the retrying reader and the writers of a request,
    show that the loop ends, what the client is sent and how far the count may be off. \<open>Serving\<close> (\<open>http_proxy.go\<close>): serving a
    request from the outgoing request through the hook to the closed body (\<open>ServeHTTP\<close>); what a media request delivers, with the bucket
    of the session as the throttler, and what happens to a bounded range when the connection breaks, in a world of two pods that
    answer ranges with and without an end. \<open>Manifest_Serving\<close>
    (\<open>manifest_rewriter.go\<close>): what a request for a manifest delivers, which is read through the retrying reader and rewritten; \<open>whole_relay\<close>
    is interpreted on the rewritten manifest.
  \<^item> \<open>Handling\<close> (\<open>web.go\<close>): \<open>proxyHTTP\<close> as a whole with the metrics; it cleans up on every way out, and the step relation
    \<open>gauge_step\<close> shows that the gauge of current requests is exact. \<open>Request_Context\<close> (\<open>retry_transport.go\<close>, \<open>claims.go\<close>,
    \<open>file_size_cache.go\<close>, \<open>rules.go\<close>): the values that travel with a request, the chain of response rules, the counter of retries.
  \<^item> \<open>Manifest_Rewriter\<close> (\<open>manifest_rewriter.go\<close>, \<open>rules.go\<close>): playlists are kept line by line, and what
    becomes of a line is determined by the time at which it stands (\<open>elapsed\<close>, \<open>announced\<close>) and by where it has the token
    (\<open>token_swapped\<close>), without the code's own loop; the segments with the grace token come first.
  \<^item> \<open>Session_Races\<close> (\<open>session_limiter.go\<close>): the same code with the atomic sections of all requests
    interleaved. A thread run alone is \<open>Acquire\<close>; in every interleaving the counters account for the
    threads and no session is left in the map; the locale \<open>check_then_add\<close>, interpreted on the total and on
    the requests of a path, bounds how far a cap is exceeded; concrete schedules exceed it.
  \<^item> \<open>Response_Writer\<close> (\<open>response_writer_interceptor.go\<close>, \<open>throttled_request_writer.go\<close>): what is counted is
    what was written.
  \<^item> \<open>Hybrid_Bucket\<close> (\<open>hybrid_bucket.go\<close>): the Redis script, the bucket and \<open>Wait\<close>, with rounding as an
    argument; what the script grants is bounded by rate times time, and by how far the clock readings of the calls go back.
    \<open>Bandwidth\<close>: \<open>Wait\<close> returns for the sole waiter of a Redis key, wherever Redis fails, if the rate is at least one byte per second, and
    otherwise may not; the rate reached without Redis. \<open>Bandwidth_Fleet\<close>: all proxies and waiters of a session interleaved, with
    a clock reading, the call of the script and its run as separate steps, calls that overtake each other or run after
    they were given up, and clocks that differ; what they let through is bounded by rate times time and what those calls add.
  \<^item> \<open>ClickHouse\<close> (\<open>clickhouse.go\<close>, \<open>clickhouse_db.go\<close>): the statements fit the table, a stored batch is one
    committed transaction, records are conserved by sequential calls of \<open>Add\<close> and not by concurrent ones.
  \<^item> \<open>Access_History\<close> (\<open>access_history.go\<close>): the entries are bounded and each has a pending timer.
  \<^item> \<open>Web\<close> (\<open>web.go\<close>): the request handler as a composition of the others; the step relation \<open>web_step\<close>
    runs many requests, and its states refine those of the limiter. \<open>Web_Handlers\<close> (\<open>web.go\<close>,
    \<open>speedtest.go\<close>): routing, the deferred record of a request, and the speed test.
  \<^item> \<open>Startup\<close> (\<open>configure.go\<close>, the flags and constructors of the components): what a server that was started
    with given flags does: with the defaults it is open and no limit ever applies, and with a key the limits named by the flags hold; that all components share one configuration, and the order
    of shutdown.

  \<^bold>\<open>Granularity.\<close> In \<open>Session_Limiter\<close> and \<open>Web\<close> a call of \<open>Acquire\<close> or of a release function is one step;
  so the caps and the absence of leaks shown there, and the limits of a configured server in \<open>Startup\<close>, are about runs in which
  these calls do not overlap in time, while responses do. What remains true when they overlap, and what does not, is shown
  in \<open>Session_Races\<close>, whose steps are the critical sections
  and atomic operations of the code. \<open>Bandwidth_Fleet\<close> and the last part of \<open>ClickHouse\<close> have the same
  fine steps.

  \<^bold>\<open>Bounds.\<close> The machines of the limiter have at most \<open>2^31 - 1\<close> requests in flight, where the 32-bit
  counters of the code would overflow. Objects are shorter than \<open>2^63\<close> bytes. Distribution by hash
  is total for up to a thousand addresses, where the intervals are longer than the rounding. Amounts and
  times given to the Redis script have at most 14 digits, which Lua prints exactly. No definition
  uses fuel: every loop is structural or has a termination proof, except \<open>wait_loop\<close>, \<open>copyBuffer\<close> and \<open>readAll\<close>,
  partial functions whose value is \<open>None\<close> if the code does not return; all three are shown to return.

  \<^bold>\<open>Not modelled.\<close> Logging, usage texts of flags, the values observed by histograms (their number is), the
  timeouts of contexts, connection pools, and the concurrent serving done by the common services library
  (\<open>cs.NewServe\<close>). The limiter's atomic sections are interleaved on
  their own (\<open>Session_Races\<close>), not together with the streaming of the responses.
\<close>

end
